(* ===== verification/Prelude.thy ===== *)
theory Prelude
  imports Main "HOL-Library.Word"
begin

text \<open>
  Shared vocabulary of the development: the machine integers of the C sources as words, the
  byte-addressed physical memory with its little-endian accessors, and the generic facts on words
  and lists that the component theories use.

  The kernel runs identity mapped, so one function from 64-bit addresses to bytes is the memory
  that every pointer of the sources reads and writes.  A circular interval \<open>[p, p + n)\<close> of the
  address space is the set of \<open>a\<close> with \<open>a - p < n\<close>: word subtraction makes the wrap-around of
  pointer arithmetic part of the model.
\<close>

unbundle bit_operations_syntax

section \<open>Machine integers and memory\<close>

type_synonym u8 = "8 word"
type_synonym u16 = "16 word"
type_synonym u32 = "32 word"
type_synonym u64 = "64 word"

text \<open>Physical memory, byte addressed; a pointer is its address, \<open>NULL\<close> is 0.\<close>

type_synonym mem = "u64 \<Rightarrow> u8"

named_theorems mem_simps \<open>reads of a memory after a write\<close>
named_theorems inv_intros \<open>operations keep the component invariants\<close>

text \<open>Updates of a memory are kept folded, also under an eta-expanded argument.\<close>

lemma fun_upd_fold [simp]: "(\<lambda>a. if a = d then v else m a) = m(d := v)" for m :: mem
  by (simp add: fun_eq_iff)

section \<open>Circular intervals of words\<close>

lemma unat_bound: "unat x < 2 ^ LENGTH('a)" for x :: "'a::len word"
  by simp

lemma word_dist_pred:
  fixes d n :: "'a::len word"
  assumes "n \<noteq> 0"
  shows "(d < n) = (d = 0 \<or> d - 1 < n - 1)"
proof (cases "d = 0")
  case True
  then show ?thesis using assms by (simp add: word_gt_0)
next
  case False
  with assms have "0 < unat d" and "0 < unat n"
    by (simp_all add: unat_gt_0)
  with assms False show ?thesis
    by (simp add: word_less_nat_alt unat_minus_one) linarith
qed

text \<open>One iteration of a loop that walks the interval \<open>[p, p + n)\<close> upwards.\<close>

lemma word_dist_step:
  fixes a p n :: "'a::len word"
  assumes "n \<noteq> 0"
  shows "(a - p < n) = (a = p \<or> a - (p + 1) < n - 1)"
proof -
  have eq: "a - (p + 1) = (a - p) - 1" by simp
  show ?thesis unfolding eq using word_dist_pred [OF assms, of "a - p"] by simp
qed

lemma word_pred_le: "n - 1 \<le> d" if "n \<noteq> 0" "n \<le> d" for d n :: "'a::len word"
  using that by (simp add: word_le_nat_alt unat_minus_one)

lemma word_dist_shift:
  fixes i k n :: "'a::len word"
  assumes "k \<le> n"
  shows "(i - k < n - k) = (k \<le> i \<and> i < n)"
proof (cases "k \<le> i")
  case True
  with assms show ?thesis
    by (simp add: word_less_nat_alt word_le_nat_alt unat_sub) linarith
next
  case False
  then have "unat (i - k) = 2 ^ LENGTH('a) + unat i - unat k"
    by (simp add: unat_sub_if_size word_le_nat_alt word_size)
  moreover have "unat (n - k) = unat n - unat k" using assms by (simp add: unat_sub)
  ultimately have "unat (n - k) < unat (i - k)"
    using assms unat_bound [of n] unfolding word_le_nat_alt by linarith
  with False show ?thesis by (simp add: word_less_nat_alt)
qed

lemma word_dist_max: "(d < - 1) = (d \<noteq> - 1)" for d :: "'a::len word"
  by (simp add: word_order.not_eq_extremum)

lemma unat_Suc_less:
  fixes i n :: "'a::len word"
  assumes "i < n"
  shows "unat (i + 1) = Suc (unat i)"
proof -
  from assms have "unat i + 1 < 2 ^ LENGTH('a)"
    unfolding word_less_nat_alt using unat_bound [of n] by linarith
  then show ?thesis by (simp add: unat_word_ariths)
qed

lemma unat_ucast_32_64: "unat (ucast x :: u64) = unat x" for x :: u32
proof -
  have "unat x < 2 ^ 64" using unat_bound [of x] by simp
  then show ?thesis by (simp add: unsigned_ucast_eq take_bit_nat_eq_self)
qed

section \<open>Searches over an index range\<close>

lemma find_upt_Some: "find P [0..<n] = Some i \<longleftrightarrow> i < n \<and> P i \<and> (\<forall>k < i. \<not> P k)"
  by (auto simp: find_Some_iff)

lemma find_upt_None: "find P [0..<n] = None \<longleftrightarrow> (\<forall>k < n. \<not> P k)"
  by (auto simp: find_None_iff)

end
