(* ===== verification/KString.thy ===== *)
theory KString
  imports Prelude
begin

text \<open>
  The kernel string and memory helpers of \<open>lib/string.c\<close>, over the byte memory.  Each C loop is
  one recursive function with the loop's own counters at their width: \<open>size_t\<close> is a 64-bit word,
  so the post-decrement of a zero count wraps to \<open>- 1\<close>.  A loop that stops only at a NUL byte is a
  partial function, and \<open>None\<close> stands for the loop that never stops.
\<close>

section \<open>Block operations\<close>

function kmemset :: "mem \<Rightarrow> u64 \<Rightarrow> u8 \<Rightarrow> u64 \<Rightarrow> mem" where
  "kmemset m b v n = (if n = 0 then m else kmemset (m(b := v)) (b + 1) v (n - 1))"
  by pat_completeness auto
termination
  by (relation "measure (\<lambda>(m, b, v, n). unat n)") (auto simp: measure_unat)

function kmemcpy :: "mem \<Rightarrow> u64 \<Rightarrow> u64 \<Rightarrow> u64 \<Rightarrow> mem" where
  "kmemcpy m d s n = (if n = 0 then m else kmemcpy (m(d := m s)) (d + 1) (s + 1) (n - 1))"
  by pat_completeness auto
termination
  by (relation "measure (\<lambda>(m, d, s, n). unat n)") (auto simp: measure_unat)

section \<open>NUL-terminated strings\<close>

partial_function (option) kstrlen_loop :: "mem \<Rightarrow> u64 \<Rightarrow> u64 \<Rightarrow> u64 option" where
  "kstrlen_loop m s n = (if m (s + n) = 0 then Some n else kstrlen_loop m s (n + 1))"

definition kstrlen :: "mem \<Rightarrow> u64 \<Rightarrow> u64 option" where
  "kstrlen m s = kstrlen_loop m s 0"

partial_function (option) kstrcmp :: "mem \<Rightarrow> u64 \<Rightarrow> u64 \<Rightarrow> int option" where
  "kstrcmp m a b =
     (if m a \<noteq> 0 \<and> m a = m b then kstrcmp m (a + 1) (b + 1)
      else Some (uint (m a) - uint (m b)))"

text \<open>
  The loop of \<open>kstrncmp\<close> returns its three counters; the condition decrements \<open>n\<close> even when it
  fails on \<open>n = 0\<close>.
\<close>

function kstrncmp_loop :: "mem \<Rightarrow> u64 \<Rightarrow> u64 \<Rightarrow> u64 \<Rightarrow> u64 \<times> u64 \<times> u64" where
  "kstrncmp_loop m a b n =
     (if n \<noteq> 0 \<and> m a \<noteq> 0 \<and> m a = m b then kstrncmp_loop m (a + 1) (b + 1) (n - 1)
      else (a, b, n - 1))"
  by pat_completeness auto
termination
  by (relation "measure (\<lambda>(m, a, b, n). unat n)") (auto simp: measure_unat)

definition kstrncmp :: "mem \<Rightarrow> u64 \<Rightarrow> u64 \<Rightarrow> u64 \<Rightarrow> int" where
  "kstrncmp m a b n =
     (case kstrncmp_loop m a b n of
        (a', b', n') \<Rightarrow> if n' = - 1 then 0 else uint (m a') - uint (m b'))"

partial_function (option) kstrcpy :: "mem \<Rightarrow> u64 \<Rightarrow> u64 \<Rightarrow> mem option" where
  "kstrcpy m dst src =
     (let c = m src; m' = m(dst := c)
      in if c \<noteq> 0 then kstrcpy m' (dst + 1) (src + 1) else Some m')"

text \<open>The two loops of \<open>kstrncpy\<close>: the copy, and the zero fill that continues with its counters.\<close>

function kstrncpy_copy :: "mem \<Rightarrow> u64 \<Rightarrow> u64 \<Rightarrow> u64 \<Rightarrow> mem \<times> u64 \<times> u64" where
  "kstrncpy_copy m dst src n =
     (if n = 0 then (m, dst, n - 1)
      else let c = m src; m' = m(dst := c)
           in if c \<noteq> 0 then kstrncpy_copy m' (dst + 1) (src + 1) (n - 1)
              else (m', dst + 1, n - 1))"
  by pat_completeness auto
termination
  by (relation "measure (\<lambda>(m, d, s, n). unat n)") (auto simp: measure_unat)

function kstrncpy_fill :: "mem \<Rightarrow> u64 \<Rightarrow> u64 \<Rightarrow> mem" where
  "kstrncpy_fill m dst n = (if n = 0 then m else kstrncpy_fill (m(dst := 0)) (dst + 1) (n - 1))"
  by pat_completeness auto
termination
  by (relation "measure (\<lambda>(m, d, n). unat n)") (auto simp: measure_unat)

definition kstrncpy :: "mem \<Rightarrow> u64 \<Rightarrow> u64 \<Rightarrow> u64 \<Rightarrow> mem" where
  "kstrncpy m dst src n =
     (case kstrncpy_copy m dst src n of (m', dst', n') \<Rightarrow> kstrncpy_fill m' dst' n')"

partial_function (option) kstr_end :: "mem \<Rightarrow> u64 \<Rightarrow> u64 option" where
  "kstr_end m dst = (if m dst \<noteq> 0 then kstr_end m (dst + 1) else Some dst)"

definition kstrncat :: "mem \<Rightarrow> u64 \<Rightarrow> u64 \<Rightarrow> u64 \<Rightarrow> mem option" where
  "kstrncat m dst src n =
     (case kstr_end m dst of
        None \<Rightarrow> None
      | Some e \<Rightarrow> (case kstrncpy_copy m e src n of (m', dst', n') \<Rightarrow> Some (m'(dst' := 0))))"

declare kmemset.simps [simp del] kmemcpy.simps [simp del] kstrncmp_loop.simps [simp del]
  kstrncpy_copy.simps [simp del] kstrncpy_fill.simps [simp del]

section \<open>What the block operations write\<close>

lemma kmemset_apply [mem_simps]: "kmemset m b v n a = (if a - b < n then v else m a)"
proof (induction m b v n rule: kmemset.induct)
  case (1 m b v n)
  show ?case
  proof (cases "n = 0")
    case True
    then show ?thesis by (simp add: kmemset.simps)
  next
    case False
    with 1 [OF False] have "kmemset m b v n a = (if a - (b + 1) < n - 1 then v else (m(b := v)) a)"
      by (subst kmemset.simps) (simp only: if_False)
    then show ?thesis by (auto simp: word_dist_step [OF False, of a b])
  qed
qed

text \<open>
  A forward copy reads no byte that it has already overwritten exactly when the destination does
  not start strictly inside the source.
\<close>

lemma kmemcpy_apply:
  assumes "d = s \<or> n \<le> d - s"
  shows "kmemcpy m d s n a = (if a - d < n then m (s + (a - d)) else m a)"
  using assms
proof (induction m d s n rule: kmemcpy.induct)
  case (1 m d s n)
  show ?case
  proof (cases "n = 0")
    case True
    then show ?thesis by (simp add: kmemcpy.simps)
  next
    case False
    have "d + 1 = s + 1 \<or> n - 1 \<le> d + 1 - (s + 1)"
      using 1(2) False by (auto intro: word_pred_le)
    with 1(1) False have IH: "kmemcpy (m(d := m s)) (d + 1) (s + 1) (n - 1) a =
        (if a - (d + 1) < n - 1 then (m(d := m s)) (s + 1 + (a - (d + 1))) else (m(d := m s)) a)"
      by blast
    have shift: "s + 1 + (a - (d + 1)) = s + (a - d)" by simp
    have clear: "s + (a - d) \<noteq> d" if "a - d < n" "a \<noteq> d"
    proof
      assume "s + (a - d) = d"
      then have "a - d = d - s" by (simp add: algebra_simps)
      with 1(2) that show False by (auto simp: not_less [symmetric])
    qed
    have "kmemcpy m d s n a =
        (if a - (d + 1) < n - 1 then (m(d := m s)) (s + (a - d)) else (m(d := m s)) a)"
      using False IH by (subst kmemcpy.simps) (simp only: if_False shift)
    then show ?thesis using clear False
      by (cases "a = d") (auto simp: word_gt_0 word_dist_step [OF False, of a d])
  qed
qed

section \<open>C strings\<close>

text \<open>\<open>cstr m s xs\<close>: the bytes \<open>xs\<close>, none of them NUL, start at \<open>s\<close> and a NUL follows.\<close>

fun cstr :: "mem \<Rightarrow> u64 \<Rightarrow> u8 list \<Rightarrow> bool" where
  "cstr m s [] \<longleftrightarrow> m s = 0"
| "cstr m s (x # xs) \<longleftrightarrow> x \<noteq> 0 \<and> m s = x \<and> cstr m (s + 1) xs"

lemma cstr_nth: "cstr m s xs \<Longrightarrow> i < length xs \<Longrightarrow> m (s + of_nat i) = xs ! i \<and> xs ! i \<noteq> 0"
proof (induction m s xs arbitrary: i rule: cstr.induct)
  case (2 m s x xs)
  then show ?case by (cases i) (auto simp: add.assoc [symmetric])
qed simp

lemma cstr_end: "cstr m s xs \<Longrightarrow> m (s + of_nat (length xs)) = 0"
  by (induction m s xs rule: cstr.induct) (auto simp: algebra_simps)

lemma cstr_length:
  assumes "cstr m s xs"
  shows "length xs < 2 ^ 64"
proof (rule ccontr)
  assume "\<not> length xs < 2 ^ 64"
  then have "length xs mod 2 ^ 64 < length xs"
    by (metis linorder_not_less mod_less_divisor order.strict_trans2 zero_less_numeral zero_less_power)
  with cstr_nth [OF assms] have "m (s + of_nat (length xs mod 2 ^ 64)) \<noteq> 0" by metis
  moreover have "(of_nat (length xs mod 2 ^ 64) :: u64) = of_nat (length xs)"
    by (simp add: word_of_nat_eq_iff take_bit_eq_mod)
  ultimately show False using cstr_end [OF assms] by simp
qed

lemma unat_cstr_length: "cstr m s xs \<Longrightarrow> unat (of_nat (length xs) :: u64) = length xs"
  using cstr_length [of m s xs] by (simp add: unat_of_nat)

lemma kstrlen_loop_cstr: "cstr m (s + n) xs \<Longrightarrow> kstrlen_loop m s n = Some (n + of_nat (length xs))"
proof (induction xs arbitrary: n)
  case Nil
  then show ?case by (simp add: kstrlen_loop.simps)
next
  case (Cons x xs)
  then have "kstrlen_loop m s (n + 1) = Some (n + 1 + of_nat (length xs))"
    by (intro Cons.IH) (simp add: add.assoc)
  with Cons.prems show ?case by (subst kstrlen_loop.simps) (simp add: algebra_simps)
qed

lemma kstrlen_cstr: "cstr m s xs \<Longrightarrow> kstrlen m s = Some (of_nat (length xs))"
  using kstrlen_loop_cstr [of m s 0 xs] by (simp add: kstrlen_def)

text \<open>Comparison of byte strings as the C code orders them: the first difference decides.\<close>

fun strcmp_list :: "u8 list \<Rightarrow> u8 list \<Rightarrow> int" where
  "strcmp_list [] [] = 0"
| "strcmp_list [] (y # ys) = - uint y"
| "strcmp_list (x # xs) [] = uint x"
| "strcmp_list (x # xs) (y # ys) = (if x = y then strcmp_list xs ys else uint x - uint y)"

lemma strcmp_list_0:
  "0 \<notin> set xs \<Longrightarrow> 0 \<notin> set ys \<Longrightarrow> strcmp_list xs ys = 0 \<longleftrightarrow> xs = ys"
  by (induction xs ys rule: strcmp_list.induct) (auto simp: uint_0_iff dest: unsigned_word_eqI)

lemma strcmp_list_neg:
  "0 \<notin> set xs \<Longrightarrow> 0 \<notin> set ys \<Longrightarrow> strcmp_list xs ys < 0 \<longleftrightarrow> ord_class.lexordp xs ys"
  by (induction xs ys rule: strcmp_list.induct)
    (auto simp: word_less_def word_gt_0 uint_0_iff order.strict_iff_order dest: unsigned_word_eqI)

lemma cstr_no_nul: "cstr m s xs \<Longrightarrow> 0 \<notin> set xs"
  by (induction m s xs rule: cstr.induct) auto

lemma kstrcmp_cstr: "cstr m a xs \<Longrightarrow> cstr m b ys \<Longrightarrow> kstrcmp m a b = Some (strcmp_list xs ys)"
proof (induction xs ys arbitrary: a b rule: strcmp_list.induct)
  case (4 x xs y ys)
  then show ?case by (subst kstrcmp.simps) auto
qed (simp_all add: kstrcmp.simps)

text \<open>The counted comparison sees the first \<open>n\<close> bytes only.\<close>

lemma kstrncmp_loop_cstr:
  assumes "cstr m a xs" "cstr m b ys"
  shows "(case kstrncmp_loop m a b n of
            (a', b', n') \<Rightarrow> if n' = - 1 then 0 else uint (m a') - uint (m b')) =
         strcmp_list (take (unat n) xs) (take (unat n) ys)"
  using assms
proof (induction xs ys arbitrary: a b n rule: strcmp_list.induct)
  case (4 x xs y ys)
  show ?case
  proof (cases "n = 0")
    case False
    then have "unat n = Suc (unat (n - 1))" by (simp add: unat_minus_one unat_gt_0)
    with False 4 show ?thesis by (subst kstrncmp_loop.simps) (auto simp: algebra_simps)
  qed (simp add: kstrncmp_loop.simps)
qed (auto simp: kstrncmp_loop.simps take_Cons' algebra_simps unat_eq_0 split: if_splits)

lemma kstrncmp_cstr:
  "cstr m a xs \<Longrightarrow> cstr m b ys \<Longrightarrow>
   kstrncmp m a b n = strcmp_list (take (unat n) xs) (take (unat n) ys)"
  by (simp add: kstrncmp_def kstrncmp_loop_cstr)

section \<open>String copies as block copies\<close>

text \<open>A write outside a string, its terminator included, leaves it alone.\<close>

lemma cstr_upd:
  assumes "cstr m s xs" and "of_nat (length xs) < d - s"
  shows "cstr (m(d := v)) s xs"
proof -
  have "d \<noteq> s + of_nat i" if "i \<le> length xs" for i
  proof
    assume "d = s + of_nat i"
    with assms(2) have "of_nat (length xs) < (of_nat i :: u64)" by simp
    with that cstr_length [OF assms(1)] show False
      by (simp add: word_less_nat_alt unat_of_nat)
  qed
  with assms(1) show ?thesis
  proof (induction xs arbitrary: s)
    case Nil
    from Nil.prems(2) [of 0] Nil.prems(1) show ?case by simp
  next
    case (Cons x xs)
    have "cstr (m(d := v)) (s + 1) xs"
    proof (rule Cons.IH)
      show "cstr m (s + 1) xs" using Cons.prems by simp
      show "d \<noteq> s + 1 + of_nat i" if "i \<le> length xs" for i
        using Cons.prems(2) [of "Suc i"] that by (simp add: algebra_simps)
    qed
    with Cons.prems(1) Cons.prems(2) [of 0] show ?case by simp
  qed
qed

lemma cstr_tail_far:
  assumes "cstr m s (x # xs)" and "of_nat (length (x # xs)) < dst - s"
  shows "of_nat (length xs) < dst - s" and "of_nat (length xs) < dst - (s + 1)"
    and "of_nat (length xs) + 1 + 1 \<noteq> (0 :: u64)"
proof -
  let ?L = "of_nat (length xs) :: u64"
  have len: "length xs + 1 < 2 ^ 64" using cstr_length [OF assms(1)] by simp
  then have L: "unat ?L = length xs" "unat (?L + 1) = length xs + 1"
    by (simp_all add: unat_word_ariths unat_of_nat)
  from assms(2) have lt: "?L + 1 < dst - s" by (simp add: add.commute)
  with L show "?L < dst - s" by (simp add: word_less_nat_alt)
  from lt have "dst - s \<noteq> 0" by auto
  moreover from L have "?L + 1 \<noteq> 0" by (metis add_is_0 one_neq_zero unat_0)
  ultimately show "?L < dst - (s + 1)"
    using lt word_dist_pred [of "dst - s" "?L + 1"] by (simp add: diff_diff_eq)
  show "?L + 1 + 1 \<noteq> 0" using unat_Suc_less [OF lt] by (metis Zero_not_Suc unat_0)
qed

text \<open>
  The destination lies beyond the terminator of the source (counting upwards from the source, with
  wrap-around), so no source byte is overwritten before it is read.
\<close>

lemma kstrcpy_eq_kmemcpy:
  assumes "cstr m src xs" and "of_nat (length xs) < dst - src"
  shows "kstrcpy m dst src = Some (kmemcpy m dst src (of_nat (length xs) + 1))"
  using assms
proof (induction xs arbitrary: m dst src)
  case Nil
  then show ?case by (subst kstrcpy.simps, subst kmemcpy.simps) (auto simp: kmemcpy.simps)
next
  case (Cons x xs)
  note far = cstr_tail_far [OF Cons.prems]
  have "cstr (m(dst := x)) (src + 1) xs"
    using Cons.prems(1) far(2) by (intro cstr_upd) simp_all
  moreover have "of_nat (length xs) < dst + 1 - (src + 1)" using far(1) by simp
  ultimately have "kstrcpy (m(dst := x)) (dst + 1) (src + 1) =
      Some (kmemcpy (m(dst := x)) (dst + 1) (src + 1) (of_nat (length xs) + 1))"
    by (rule Cons.IH)
  with Cons.prems(1) far(3) show ?case
    by (subst kstrcpy.simps, subst kmemcpy.simps) (simp add: algebra_simps)
qed

text \<open>The fill loop is a block set; the copy loop of \<open>kstrncpy\<close> has two ways to stop.\<close>

lemma kstrncpy_fill_eq: "kstrncpy_fill m dst n = kmemset m dst 0 n"
  by (induction m dst n rule: kstrncpy_fill.induct)
    (subst kstrncpy_fill.simps, subst kmemset.simps, simp)

lemma kstrncpy_copy_nul:
  assumes "cstr m src xs" and "length xs < unat n" and "of_nat (length xs) < dst - src"
  shows "kstrncpy_copy m dst src n =
    (kmemcpy m dst src (of_nat (length xs) + 1), dst + (of_nat (length xs) + 1),
     n - (of_nat (length xs) + 1))"
  using assms
proof (induction xs arbitrary: m dst src n)
  case Nil
  then show ?case
    by (subst kstrncpy_copy.simps, subst kmemcpy.simps) (auto simp: kmemcpy.simps unat_gt_0)
next
  case (Cons x xs)
  note far = cstr_tail_far [OF Cons.prems(1,3)]
  have n0: "n \<noteq> 0" using Cons.prems(2) by auto
  have "cstr (m(dst := x)) (src + 1) xs"
    using Cons.prems(1) far(2) by (intro cstr_upd) simp_all
  moreover have "length xs < unat (n - 1)"
    using Cons.prems(2) n0 by (simp add: unat_minus_one)
  moreover have "of_nat (length xs) < dst + 1 - (src + 1)" using far(1) by simp
  ultimately have "kstrncpy_copy (m(dst := x)) (dst + 1) (src + 1) (n - 1) =
      (kmemcpy (m(dst := x)) (dst + 1) (src + 1) (of_nat (length xs) + 1),
       dst + 1 + (of_nat (length xs) + 1), n - 1 - (of_nat (length xs) + 1))"
    by (rule Cons.IH)
  with Cons.prems(1) far(3) n0 show ?case
    by (subst kstrncpy_copy.simps, subst kmemcpy.simps) (simp add: algebra_simps)
qed

lemma kstrncpy_copy_full:
  assumes "\<And>i. i < n \<Longrightarrow> m (src + i) \<noteq> 0" and "n \<le> dst - src"
  shows "kstrncpy_copy m dst src n = (kmemcpy m dst src n, dst + n, - 1)"
  using assms
proof (induction m dst src n rule: kstrncpy_copy.induct)
  case (1 m dst src n)
  show ?case
  proof (cases "n = 0")
    case False
    let ?m = "m(dst := m src)"
    have src0: "m src \<noteq> 0" using 1(2) [of 0] False by (simp add: word_gt_0)
    have "?m (src + 1 + i) \<noteq> 0" if "i < n - 1" for i
      using that False src0 1(2) [of "i + 1"] word_dist_pred [OF False, of "i + 1"]
      by (simp add: algebra_simps)
    moreover have "n - 1 \<le> dst + 1 - (src + 1)" using 1(3) False by (simp add: word_pred_le)
    ultimately have "kstrncpy_copy ?m (dst + 1) (src + 1) (n - 1) =
        (kmemcpy ?m (dst + 1) (src + 1) (n - 1), dst + 1 + (n - 1), - 1)"
      using 1(1) [OF False refl refl src0] by blast
    with False src0 show ?thesis by (subst kstrncpy_copy.simps, subst kmemcpy.simps) simp
  qed (simp add: kstrncpy_copy.simps kmemcpy.simps)
qed

section \<open>Properties of the string routines\<close>

text \<open>C39. When the source string is shorter than the count, \<open>kstrncpy\<close> copies it, pads the rest of
  the \<open>n\<close> bytes with NUL, and changes nothing else in memory.\<close>

theorem kstrncpy_pads:
  assumes "cstr m src xs" and "length xs < unat n" and "of_nat (length xs) < dst - src"
  shows "kstrncpy m dst src n a =
    (if a - dst < n then if unat (a - dst) < length xs then xs ! unat (a - dst) else 0 else m a)"
proof -
  let ?L = "of_nat (length xs) :: u64" and ?i = "a - dst"
  have L: "unat ?L = length xs" by (rule unat_cstr_length [OF assms(1)])
  have L1: "unat (?L + 1) = length xs + 1"
    using unat_Suc_less [OF assms(3)] L by simp
  have far: "?L + 1 \<le> dst - src" and le: "?L + 1 \<le> n"
    using assms(2,3) L L1 by (simp_all add: word_le_nat_alt word_less_nat_alt)
  have "kstrncpy m dst src n a =
      kmemset (kmemcpy m dst src (?L + 1)) (dst + (?L + 1)) 0 (n - (?L + 1)) a"
    by (simp add: kstrncpy_def kstrncpy_copy_nul [OF assms] kstrncpy_fill_eq)
  also have "\<dots> = (if ?L + 1 \<le> ?i \<and> ?i < n then 0
      else if ?i < ?L + 1 then m (src + ?i) else m a)"
    using far word_dist_shift [OF le, of ?i]
    by (simp add: kmemset_apply kmemcpy_apply diff_diff_eq)
  also have "\<dots> = (if ?i < n then if unat ?i < length xs then xs ! unat ?i else 0 else m a)"
  proof -
    have "m (src + ?i) = xs ! unat ?i" if "unat ?i < length xs"
      using cstr_nth [OF assms(1) that] by simp
    moreover have "m (src + ?i) = 0" if "unat ?i = length xs"
      using cstr_end [OF assms(1)] by (simp flip: that)
    moreover have "(?i < ?L + 1) = (unat ?i \<le> length xs)"
      and "(?L + 1 \<le> ?i) = (length xs < unat ?i)" and "?i < ?L + 1 \<Longrightarrow> ?i < n"
      using L1 le by (auto simp: word_less_nat_alt word_le_nat_alt)
    ultimately show ?thesis by (cases "unat ?i" "length xs" rule: linorder_cases) simp_all
  qed
  finally show ?thesis .
qed

theorem kstrncpy_pads_witness:
  "kstrncpy ((\<lambda>_. 7)(100 := 65, 101 := 0)) 200 100 3 200 = 65 \<and>
   kstrncpy ((\<lambda>_. 7)(100 := 65, 101 := 0)) 200 100 3 202 = 0 \<and>
   kstrncpy ((\<lambda>_. 7)(100 := 65, 101 := 0)) 200 100 3 203 = 7"
proof -
  have h: "cstr ((\<lambda>_. 7)(100 := 65, 101 := 0)) 100 [65]" by simp
  show ?thesis
    using kstrncpy_pads [OF h, of 3 200 200] kstrncpy_pads [OF h, of 3 200 202]
      kstrncpy_pads [OF h, of 3 200 203] by simp
qed

text \<open>C40. When the first \<open>n\<close> bytes of the source hold no NUL, the copy loop leaves its count at
  \<open>- 1\<close> and the fill loop runs over the whole address space: after the call every byte of memory
  is 0, except the last one copied.\<close>

theorem kstrncpy_overrun:
  assumes "\<And>i. i < n \<Longrightarrow> m (src + i) \<noteq> 0" and "n \<le> dst - src" and "n \<noteq> 0"
  shows "kstrncpy m dst src n a = (if a = dst + n - 1 then m (src + n - 1) else 0)"
proof -
  have "kstrncpy m dst src n a = kmemset (kmemcpy m dst src n) (dst + n) 0 (- 1) a"
    using kstrncpy_copy_full [of n m src dst] assms(1,2)
    by (simp add: kstrncpy_def kstrncpy_fill_eq)
  also have "\<dots> = (if a = dst + n - 1 then kmemcpy m dst src n a else 0)"
  proof -
    have "(a - (dst + n) = - 1) = (a = dst + n - 1)" by (simp add: algebra_simps eq_diff_eq)
    then show ?thesis by (simp add: kmemset_apply word_dist_max)
  qed
  also have "\<dots> = (if a = dst + n - 1 then m (src + n - 1) else 0)"
  proof (cases "a = dst + n - 1")
    case True
    then have "a - dst = n - 1" by simp
    moreover have "n - 1 < n" using measure_unat [OF assms(3)] by (simp add: word_less_nat_alt)
    ultimately have "kmemcpy m dst src n a = m (src + (n - 1))"
      by (simp only: kmemcpy_apply [OF disjI2 [OF assms(2)]] if_True)
    with True show ?thesis by (simp add: add_diff_eq)
  qed simp
  finally show ?thesis .
qed

theorem kstrncpy_overrun_witness:
  "kstrncpy (\<lambda>_. 7) 200 100 3 202 = 7 \<and> kstrncpy (\<lambda>_. 7) 200 100 3 5000 = 0"
  using kstrncpy_overrun [of 3 "\<lambda>_. 7" 100 200 202]
    kstrncpy_overrun [of 3 "\<lambda>_. 7" 100 200 5000] by simp

text \<open>On two C strings \<open>kstrcmp\<close> terminates; its result is 0 exactly for equal strings and
  negative exactly when the first is lexicographically smaller (bytes compared unsigned).\<close>

theorem kstrcmp_decides:
  assumes "cstr m a xs" and "cstr m b ys"
  shows "\<exists>d. kstrcmp m a b = Some d \<and> (d = 0 \<longleftrightarrow> xs = ys) \<and> (d < 0 \<longleftrightarrow> ord_class.lexordp xs ys)"
  using kstrcmp_cstr [OF assms] cstr_no_nul [OF assms(1)] cstr_no_nul [OF assms(2)]
  by (simp add: strcmp_list_0 strcmp_list_neg)

theorem kstrcmp_decides_witness:
  "\<exists>d. kstrcmp ((\<lambda>_. 0)(100 := 65, 200 := 66)) 100 200 = Some d \<and> d \<noteq> 0 \<and> d < 0"
proof -
  have "cstr ((\<lambda>_. 0)(100 := 65, 200 := 66)) 100 [65]"
    and "cstr ((\<lambda>_. 0)(100 := 65, 200 := 66)) 200 [66]" by simp_all
  from kstrcmp_decides [OF this] show ?thesis by auto
qed

text \<open>\<open>kstrncmp\<close> is \<open>kstrcmp\<close> on the prefixes of length \<open>n\<close>.\<close>

lemma kstrncmp_prefix:
  assumes "cstr m a xs" and "cstr m b ys"
  shows "kstrncmp m a b n = 0 \<longleftrightarrow> take (unat n) xs = take (unat n) ys"
proof -
  have "0 \<notin> set (take (unat n) xs)" and "0 \<notin> set (take (unat n) ys)"
    using cstr_no_nul [OF assms(1)] cstr_no_nul [OF assms(2)] by (auto dest: in_set_takeD)
  then show ?thesis by (simp add: kstrncmp_cstr [OF assms] strcmp_list_0)
qed


end
