(* ===== verification/Memory.thy ===== *)
theory Memory
  imports Prelude
begin

text \<open>
  Little-endian accesses of several bytes to the byte memory, page arithmetic, and the facts on
  disjoint accesses that the page-table, slab and stack proofs share.
\<close>

section \<open>Multi-byte accesses\<close>

fun load_n :: "mem \<Rightarrow> u64 \<Rightarrow> nat \<Rightarrow> nat" where
  "load_n m a 0 = 0"
| "load_n m a (Suc k) = unat (m a) + 256 * load_n m (a + 1) k"

fun store_n :: "mem \<Rightarrow> u64 \<Rightarrow> nat \<Rightarrow> nat \<Rightarrow> mem" where
  "store_n m a 0 v = m"
| "store_n m a (Suc k) v = store_n (m(a := of_nat v)) (a + 1) k (v div 256)"

definition load16 :: "mem \<Rightarrow> u64 \<Rightarrow> u16" where
  "load16 m a = of_nat (load_n m a 2)"

definition load32 :: "mem \<Rightarrow> u64 \<Rightarrow> u32" where
  "load32 m a = of_nat (load_n m a 4)"

definition load64 :: "mem \<Rightarrow> u64 \<Rightarrow> u64" where
  "load64 m a = of_nat (load_n m a 8)"

definition store32 :: "mem \<Rightarrow> u64 \<Rightarrow> u32 \<Rightarrow> mem" where
  "store32 m a v = store_n m a 4 (unat v)"

definition store64 :: "mem \<Rightarrow> u64 \<Rightarrow> u64 \<Rightarrow> mem" where
  "store64 m a v = store_n m a 8 (unat v)"

text \<open>The accesses byte by byte, to evaluate them on concrete memories.\<close>

lemma load16_bytes:
  "load16 m a = of_nat (unat (m a) + 256 * unat (m (a + 1)))"
proof -
  have "(2 :: nat) = Suc (Suc 0)" by simp
  then show ?thesis unfolding load16_def by (simp only: load_n.simps) simp
qed

lemma load32_bytes:
  "load32 m a = of_nat (unat (m a) + 256 * (unat (m (a + 1)) + 256 * (unat (m (a + 2))
     + 256 * unat (m (a + 3)))))"
proof -
  have "(4 :: nat) = Suc (Suc (Suc (Suc 0)))" by simp
  then show ?thesis unfolding load32_def by (simp only: load_n.simps) (simp add: add.assoc)
qed

lemma load64_bytes:
  "load64 m a = of_nat (unat (m a) + 256 * (unat (m (a + 1)) + 256 * (unat (m (a + 2))
     + 256 * (unat (m (a + 3)) + 256 * (unat (m (a + 4)) + 256 * (unat (m (a + 5))
     + 256 * (unat (m (a + 6)) + 256 * unat (m (a + 7)))))))))"
proof -
  have "(8 :: nat) = Suc (Suc (Suc (Suc (Suc (Suc (Suc (Suc 0)))))))" by simp
  then show ?thesis unfolding load64_def by (simp only: load_n.simps) (simp add: add.assoc)
qed

text \<open>Two byte ranges are disjoint when each starts past the end of the other, going upwards.\<close>

definition disj_rng :: "u64 \<Rightarrow> u64 \<Rightarrow> u64 \<Rightarrow> u64 \<Rightarrow> bool" where
  "disj_rng a j b k \<longleftrightarrow> j \<le> b - a \<and> k \<le> a - b"

lemma disj_rng_sym: "disj_rng a j b k = disj_rng b k a j"
  by (auto simp: disj_rng_def)

lemma unat_sub_both:
  fixes a b :: u64
  assumes "a \<noteq> b"
  shows "unat (a - b) + unat (b - a) = 2 ^ 64"
proof -
  have "unat a \<noteq> unat b" using assms by (simp add: word_unat_eq_iff)
  then show ?thesis
    using unat_bound [of a] unat_bound [of b]
    by (simp add: unat_sub_if_size word_size)
qed

lemma unat_add_small:
  fixes d i :: u64
  shows "unat d + unat i < 2 ^ 64 \<Longrightarrow> unat (d + i) = unat d + unat i"
  using unat_add_lem [of d i] by simp

lemma disj_rng_far:
  assumes "disj_rng a j b k" and "i < k"
  shows "j \<le> b + i - a"
proof -
  have less: "unat i < unat (a - b)" and le: "unat j \<le> unat (b - a)"
    using assms unfolding disj_rng_def word_less_nat_alt word_le_nat_alt by linarith+
  from less have "a \<noteq> b" by auto
  then have "unat (a - b) + unat (b - a) = 2 ^ 64" by (rule unat_sub_both)
  with less have "unat ((b - a) + i) = unat (b - a) + unat i"
    by (intro unat_add_small) linarith
  moreover have "b + i - a = (b - a) + i" by simp
  ultimately show ?thesis using le unfolding word_le_nat_alt by (simp only:)
qed

lemma of_nat_less_len:
  "k < 2 ^ 64 \<Longrightarrow> unat (of_nat k :: u64) = k"
  by (simp add: unat_of_nat)

lemma word_eq_of_nat: "unat x = n \<Longrightarrow> x = of_nat n" for x :: u64
  by auto

lemma store_n_other:
  "of_nat k \<le> b - a \<Longrightarrow> k < 2 ^ 64 \<Longrightarrow> store_n m a k v b = m b"
proof (induction k arbitrary: m a v)
  case (Suc k)
  have far: "Suc k \<le> unat (b - a)"
    using Suc.prems unfolding word_le_nat_alt by (simp only: of_nat_less_len)
  then have "a \<noteq> b" by auto
  have "unat (b - (a + 1)) = unat (b - a) - 1"
    using unat_minus_one [of "b - a"] \<open>a \<noteq> b\<close> by (simp add: diff_diff_eq)
  then have "of_nat k \<le> b - (a + 1)"
    using far Suc.prems(2) unfolding word_le_nat_alt by (simp add: of_nat_less_len)
  then have "store_n (m(a := of_nat v)) (a + 1) k (v div 256) b = (m(a := of_nat v)) b"
    using Suc.prems(2) by (intro Suc.IH) auto
  then show ?case using \<open>a \<noteq> b\<close> by simp
qed simp

lemma load_n_cong:
  "(\<And>i. i < k \<Longrightarrow> m (a + of_nat i) = m' (a + of_nat i)) \<Longrightarrow> load_n m a k = load_n m' a k"
proof (induction k arbitrary: a)
  case (Suc k)
  have "load_n m (a + 1) k = load_n m' (a + 1) k"
  proof (rule Suc.IH)
    fix i assume "i < k"
    then show "m (a + 1 + of_nat i) = m' (a + 1 + of_nat i)"
      using Suc.prems [of "Suc i"] by (simp add: ac_simps)
  qed
  then show ?case using Suc.prems [of 0] by simp
qed simp

lemma load_n_store_n_other:
  assumes "disj_rng a (of_nat j) b (of_nat k)" and "j < 2 ^ 64" and "k < 2 ^ 64"
  shows "load_n (store_n m a j v) b k = load_n m b k"
proof (rule load_n_cong)
  fix i assume "i < k"
  then have "(of_nat i :: u64) < of_nat k"
    using assms(3) unfolding word_less_nat_alt by (simp add: of_nat_less_len)
  from disj_rng_far [OF assms(1) this] assms(2)
  show "store_n m a j v (b + of_nat i) = m (b + of_nat i)" by (intro store_n_other)
qed

lemma load_n_store_n:
  "k < 2 ^ 64 \<Longrightarrow> load_n (store_n m a k v) a k = v mod 256 ^ k"
proof (induction k arbitrary: m a v)
  case (Suc k)
  have "store_n (m(a := of_nat v)) (a + 1) k (v div 256) a = of_nat v"
    using Suc.prems
    by (subst store_n_other) auto
  moreover have "load_n (store_n (m(a := of_nat v)) (a + 1) k (v div 256)) (a + 1) k
      = v div 256 mod 256 ^ k"
    using Suc.prems by (intro Suc.IH) simp
  moreover have "v mod 256 + 256 * (v div 256 mod 256 ^ k) = v mod (256 * 256 ^ k)"
    by (simp add: mod_mult2_eq)
  ultimately show ?case by (simp add: unat_of_nat)
qed simp

lemma load64_store64 [mem_simps]: "load64 (store64 m a v) a = v"
proof -
  have "load_n (store_n m a 8 (unat v)) a 8 = unat v"
    using unat_bound [of v] by (simp add: load_n_store_n)
  then show ?thesis by (simp add: load64_def store64_def)
qed

lemma store64_other [mem_simps]: "8 \<le> b - a \<Longrightarrow> store64 m a v b = m b"
  unfolding store64_def by (rule store_n_other) simp_all

lemma load32_store32 [mem_simps]: "load32 (store32 m a v) a = v"
proof -
  have "load_n (store_n m a 4 (unat v)) a 4 = unat v"
    using unat_bound [of v] by (simp add: load_n_store_n)
  then show ?thesis by (simp add: load32_def store32_def)
qed

lemma load_store_other:
  "disj_rng a 4 b 4 \<Longrightarrow> load32 (store32 m a v) b = load32 m b"
  "disj_rng a 8 b 4 \<Longrightarrow> load32 (store64 m a w) b = load32 m b"
  "disj_rng a 4 b 8 \<Longrightarrow> load64 (store32 m a v) b = load64 m b"
  "disj_rng a 8 b 8 \<Longrightarrow> load64 (store64 m a w) b = load64 m b"
  unfolding load64_def store64_def load32_def store32_def
  using load_n_store_n_other [of a 4 b 4 m "unat v"] load_n_store_n_other [of a 8 b 4 m "unat w"]
    load_n_store_n_other [of a 4 b 8 m "unat v"] load_n_store_n_other [of a 8 b 8 m "unat w"]
  by simp_all

lemma store32_other [mem_simps]: "4 \<le> b - a \<Longrightarrow> store32 m a v b = m b"
  unfolding store32_def by (rule store_n_other) simp_all

lemma load64_cong:
  assumes "\<And>i. i < 8 \<Longrightarrow> m (a + i) = m' (a + i)"
  shows "load64 m a = load64 m' a"
proof -
  have "load_n m a 8 = load_n m' a 8"
  proof (rule load_n_cong)
    fix i :: nat assume "i < 8"
    then have "(of_nat i :: u64) < 8" by (simp add: word_less_nat_alt of_nat_less_len)
    then show "m (a + of_nat i) = m' (a + of_nat i)" by (rule assms)
  qed
  then show ?thesis by (simp add: load64_def)
qed

section \<open>Aligned addresses and pages\<close>

text \<open>\<open>PAGE_ALIGN_DOWN\<close> of \<open>include/vmm.h\<close>; a frame is named by the number of its page.\<close>

definition page_of :: "u64 \<Rightarrow> u64" where
  "page_of a = a AND NOT 0xFFF"

lemma unat_low_bits: "unat (take_bit 12 a) = unat a mod 4096" for a :: u64
proof -
  have "unat (take_bit 12 a) = take_bit 12 (unat a)" by (rule unsigned_take_bit_eq)
  then show ?thesis by (simp add: take_bit_eq_mod)
qed

lemma page_of_sub: "page_of a = a - take_bit 12 a"
proof -
  have eq: "(0xFFF :: u64) = mask 12" by (simp add: mask_eq_exp_minus_1)
  have "page_of a = push_bit 12 (drop_bit 12 a)"
    unfolding page_of_def eq by (rule bit_word_eqI) (auto simp: bit_simps)
  then show ?thesis using bits_ident [of 12 a] by (metis add_diff_cancel_right')
qed

lemma page_of_div: "unat (page_of a) = unat a div 4096 * 4096"
proof -
  have "take_bit 12 a \<le> a" by (simp add: word_le_nat_alt unat_low_bits)
  then have "unat (page_of a) = unat a - unat a mod 4096"
    by (simp add: page_of_sub unat_sub unat_low_bits)
  then show ?thesis by (simp add: minus_mod_eq_div_mult)
qed

lemma page_of_eq_iff: "page_of a = page_of b \<longleftrightarrow> unat a div 4096 = unat b div 4096"
  by (simp add: word_unat_eq_iff page_of_div)

lemma page_of_aligned: "page_of p = p \<longleftrightarrow> 4096 dvd unat p"
  by (auto simp: word_unat_eq_iff page_of_div dvd_eq_mod_eq_0 minus_mod_eq_div_mult [symmetric])

lemma page_of_idem [simp]: "page_of (page_of a) = page_of a"
  by (simp add: page_of_aligned page_of_div)

lemma page_of_add:
  assumes "4096 dvd unat p" and "unat i < 4096"
  shows "page_of (p + i) = p" and "unat (p + i) = unat p + unat i"
proof -
  obtain q where q: "unat p = 4096 * q" using assms(1) by (elim dvdE)
  then have "q < 2 ^ 52" using unat_bound [of p] by simp
  then have "unat p + unat i < 2 ^ 64" using q assms(2) by simp
  then show sum: "unat (p + i) = unat p + unat i" by (rule unat_add_small)
  show "page_of (p + i) = p" using q assms(2) by (simp add: word_unat_eq_iff page_of_div sum)
qed

lemma div_diff_dvd: "8 dvd unat (a - b)" if "8 dvd unat a" "8 dvd unat b" for a b :: u64
proof -
  have "8 dvd (2 ^ 64 :: nat)" by simp
  with that show ?thesis by (simp add: unat_sub_if_size word_size)
qed

lemma aligned_disj:
  fixes a b :: u64
  assumes "8 dvd unat a" "8 dvd unat b" "a \<noteq> b"
  shows "disj_rng a 8 b 8"
proof -
  have "8 \<le> unat (x - y)" if "8 dvd unat x" "8 dvd unat y" "x \<noteq> y" for x y :: u64
  proof (rule dvd_imp_le)
    show "8 dvd unat (x - y)" using that by (intro div_diff_dvd)
    show "0 < unat (x - y)" using that by (simp add: unat_gt_0)
  qed
  with assms show ?thesis by (simp add: disj_rng_def word_le_nat_alt)
qed

section \<open>Byte ranges\<close>

abbreviation rng :: "u64 \<Rightarrow> u64 \<Rightarrow> u64 set" where
  "rng a n \<equiv> {x. x - a < n}"

lemma load32_cong:
  assumes "\<And>x. x \<in> rng a 4 \<Longrightarrow> m x = m' x"
  shows "load32 m a = load32 m' a"
proof -
  have "load_n m a 4 = load_n m' a 4"
  proof (rule load_n_cong)
    fix i :: nat assume "i < 4"
    then have "(of_nat i :: u64) < 4" by (simp add: word_less_nat_alt of_nat_less_len)
    then show "m (a + of_nat i) = m' (a + of_nat i)" by (intro assms) simp
  qed
  then show ?thesis by (simp add: load32_def)
qed

lemma rng_sub:
  assumes "rng a n \<subseteq> I" and "unat i + unat k \<le> unat n"
  shows "rng (a + i) k \<subseteq> I"
proof
  fix x assume "x \<in> rng (a + i) k"
  then have "unat (x - (a + i)) < unat k" by (simp add: word_less_nat_alt)
  moreover have "x - a = (x - (a + i)) + i" by simp
  moreover have "unat n < 2 ^ 64" using unat_bound [of n] by simp
  ultimately have "unat (x - a) < unat n"
    using assms(2) unat_add_small [of "x - (a + i)" i] by simp
  then have "x \<in> rng a n" by (simp add: word_less_nat_alt)
  with assms(1) show "x \<in> I" by blast
qed

definition agree :: "u64 set \<Rightarrow> mem \<Rightarrow> mem \<Rightarrow> bool" where
  "agree I m m' \<longleftrightarrow> (\<forall>a\<in>I. m a = m' a)"

lemma agree_load32: "agree I m m' \<Longrightarrow> rng a n \<subseteq> I \<Longrightarrow> unat i + 4 \<le> unat n \<Longrightarrow> load32 m (a + i) = load32 m' (a + i)"
  using rng_sub [of a n I i 4] by (intro load32_cong) (auto simp: agree_def)

lemma agree_load64: "agree I m m' \<Longrightarrow> rng a n \<subseteq> I \<Longrightarrow> unat i + 8 \<le> unat n \<Longrightarrow> load64 m (a + i) = load64 m' (a + i)"
  using rng_sub [of a n I i 8] by (intro load64_cong) (force simp: agree_def)

lemma disj_rng_Int: "disj_rng a j b k \<Longrightarrow> rng a j \<inter> rng b k = {}"
proof -
  assume dis: "disj_rng a j b k"
  have False if "x - a < j" "x - b < k" for x
    using disj_rng_far [OF dis that(2)] that(1) by simp
  then show ?thesis by blast
qed

lemma agreeI: "(\<And>a. a \<in> I \<Longrightarrow> m a = m' a) \<Longrightarrow> agree I m m'"
  by (simp add: agree_def)

lemma agree_trans: "agree I m m' \<Longrightarrow> agree I m' m'' \<Longrightarrow> agree I m m''"
  by (simp add: agree_def)

lemma agree_store64: "disj_rng a 8 b n \<Longrightarrow> agree (rng b n) (store64 m a v) m"
  using disj_rng_far [of a 8 b n "x - b" for x] by (auto simp: agree_def intro!: store64_other)

lemma agree_store32: "disj_rng a 4 b n \<Longrightarrow> agree (rng b n) (store32 m a v) m"
  using disj_rng_far [of a 4 b n "x - b" for x] by (auto simp: agree_def intro!: store32_other)

lemma rng_outside: "a \<notin> rng p n \<Longrightarrow> unat i + unat k \<le> unat n \<Longrightarrow> k \<le> a - (p + i)"
  using subsetD [OF rng_sub [OF order_refl, of i k n p], of a] by (metis mem_Collect_eq not_less)

lemma rng_page: "page_of p = p \<Longrightarrow> a \<in> rng p 4096 \<longleftrightarrow> page_of a = p"
proof -
  assume p: "page_of p = p"
  then have dvd: "4096 dvd unat p" by (simp add: page_of_aligned)
  show ?thesis
  proof
    assume "a \<in> rng p 4096"
    then have "unat (a - p) < 4096" by (simp add: word_less_nat_alt)
    from page_of_add(1) [OF dvd this] show "page_of a = p" by simp
  next
    assume a: "page_of a = p"
    then have "p = a - take_bit 12 a" by (simp only: page_of_sub)
    then have "a - p = take_bit 12 a" by (simp only: diff_diff_eq2 add_diff_cancel_left')
    then show "a \<in> rng p 4096" using unat_low_bits [of a] by (simp add: word_less_nat_alt)
  qed
qed

lemma page_disj_agree:
  assumes "\<And>a. page_of a \<noteq> p \<Longrightarrow> m' a = m a" "page_of q = q" "q \<noteq> p" "unat n \<le> 4096"
  shows "agree (rng q n) m' m"
proof (rule agreeI)
  fix a assume "a \<in> rng q n"
  then have "a \<in> rng q 4096" using assms(4) by (simp add: word_less_nat_alt)
  then show "m' a = m a" using assms(1) [of a] rng_page [OF assms(2), of a] assms(3) by simp
qed

end
