(* ===== verification/Pmm.thy ===== *)
theory Pmm
  imports KString Memory
begin

text \<open>
  The physical memory manager, \<open>mm/pmm.c\<close>: a bitmap of page frames that lives in the physical
  memory it manages.  The static variables of the file are the record \<open>pmm\<close>; the components built
  on the allocator extend the record, so every operation is polymorphic in the extension.
  The lemmas relate the bitmap to the set of free frames, and \<open>pmm_init\<close> to the memory map that the
  boot loader left in memory.
\<close>

section \<open>State\<close>

abbreviation PAGE_SIZE :: u64 where
  "PAGE_SIZE \<equiv> 0x1000"

definition BITMAP_MAX_PAGES :: u64 where
  "BITMAP_MAX_PAGES = 16 * 1024 * 1024"

record pmm =
  memory :: mem
  bitmap :: u64
  total_pages :: u64
  free_pages :: u64
  bitmap_size :: u64

definition bm_set :: "u64 \<Rightarrow> 'a pmm_scheme \<Rightarrow> 'a pmm_scheme" where
  "bm_set idx s = s\<lparr>memory := (memory s)(bitmap s + idx div 8 :=
     memory s (bitmap s + idx div 8) OR push_bit (unat (idx mod 8)) 1)\<rparr>"

definition bm_clear :: "u64 \<Rightarrow> 'a pmm_scheme \<Rightarrow> 'a pmm_scheme" where
  "bm_clear idx s = s\<lparr>memory := (memory s)(bitmap s + idx div 8 :=
     memory s (bitmap s + idx div 8) AND NOT (push_bit (unat (idx mod 8)) 1))\<rparr>"

definition bm_test :: "u64 \<Rightarrow> 'a pmm_scheme \<Rightarrow> bool" where
  "bm_test idx s \<longleftrightarrow>
     drop_bit (unat (idx mod 8)) (memory s (bitmap s + idx div 8)) AND 1 \<noteq> 0"

section \<open>Initialisation from the boot memory map\<close>

text \<open>
  The three passes of \<open>pmm_init\<close> over the multiboot2 tags share one loop.  \<open>mo\<close> gives the memory
  the tags are read from, \<open>body\<close> is what a pass does with the entry at an address, and \<open>stop\<close> its
  early exit (\<open>placed\<close>).  Both loops run over memory contents, so they may fail to return.
\<close>

partial_function (option) mmap_entries ::
  "('s \<Rightarrow> mem) \<Rightarrow> (u64 \<Rightarrow> 's \<Rightarrow> 's option) \<Rightarrow> ('s \<Rightarrow> bool) \<Rightarrow> u64 \<Rightarrow> u64 \<Rightarrow> u64 \<Rightarrow> 's \<Rightarrow> 's option" where
  "mmap_entries mo body stop mt ep ee s =
     (if ep + ucast (load32 (mo s) (mt + 8)) \<le> ee \<and> \<not> stop s
      then Option.bind (body ep s) (\<lambda>s'.
             mmap_entries mo body stop mt (ep + ucast (load32 (mo s') (mt + 8))) ee s')
      else Some s)"

partial_function (option) mmap_tags ::
  "('s \<Rightarrow> mem) \<Rightarrow> (u64 \<Rightarrow> 's \<Rightarrow> 's option) \<Rightarrow> ('s \<Rightarrow> bool) \<Rightarrow> u64 \<Rightarrow> u64 \<Rightarrow> 's \<Rightarrow> 's option" where
  "mmap_tags mo body stop ptr end s =
     (if ptr + 8 \<le> end \<and> \<not> stop s then
        if load32 (mo s) ptr = 0 then Some s
        else Option.bind
          (if load32 (mo s) ptr = 6
           then mmap_entries mo body stop ptr (ptr + 16) (ptr + ucast (load32 (mo s) (ptr + 4))) s
           else Some s)
          (\<lambda>s'. mmap_tags mo body stop
                  (ptr + ucast ((load32 (mo s') (ptr + 4) + 7) AND NOT 7)) end s')
      else Some s)"

definition max_body :: "mem \<Rightarrow> u64 \<Rightarrow> u64 \<Rightarrow> u64 option" where
  "max_body m e max_addr =
     (let top = load64 m e + load64 m (e + 8)
      in Some (if load32 m (e + 16) = 1 \<and> top > max_addr then top else max_addr))"

definition page_up :: "u64 \<Rightarrow> u64" where
  "page_up a = (a + PAGE_SIZE - 1) AND NOT (PAGE_SIZE - 1)"

definition place_body ::
  "mem \<Rightarrow> u64 \<Rightarrow> u64 \<Rightarrow> u64 \<Rightarrow> u64 \<times> bool \<Rightarrow> (u64 \<times> bool) option" where
  "place_body m kernel_end bsize e st =
     (if load32 m (e + 16) = 1 then
        let place = page_up (if load64 m e < kernel_end then kernel_end else load64 m e)
        in Some (if place + bsize \<le> load64 m e + load64 m (e + 8) then (place, True) else st)
      else Some st)"

text \<open>The loops \<open>for (a = start; a < stop; a += PAGE_SIZE)\<close>, with their bodies.\<close>

partial_function (option) page_range :: "(u64 \<Rightarrow> 's \<Rightarrow> 's) \<Rightarrow> u64 \<Rightarrow> u64 \<Rightarrow> 's \<Rightarrow> 's option" where
  "page_range body a stop s =
     (if a < stop then page_range body (a + PAGE_SIZE) stop (body (a div PAGE_SIZE) s)
      else Some s)"

definition release_frame :: "u64 \<Rightarrow> 'a pmm_scheme \<Rightarrow> 'a pmm_scheme" where
  "release_frame idx s =
     (if idx < total_pages s then (bm_clear idx s)\<lparr>free_pages := free_pages s + 1\<rparr> else s)"

definition reserve_frame :: "u64 \<Rightarrow> 'a pmm_scheme \<Rightarrow> 'a pmm_scheme" where
  "reserve_frame idx s =
     (if idx < total_pages s \<and> \<not> bm_test idx s
      then (bm_set idx s)\<lparr>free_pages := free_pages s - 1\<rparr> else s)"

definition free_body :: "u64 \<Rightarrow> 'a pmm_scheme \<Rightarrow> 'a pmm_scheme option" where
  "free_body e s =
     (let m = memory s; base = load64 m e; len = load64 m (e + 8)
      in if load32 m (e + 16) = 1
         then page_range release_frame (page_up base) ((base + len) AND NOT (PAGE_SIZE - 1)) s
         else Some s)"

text \<open>\<open>kend\<close> is the address of the linker symbol \<open>_kernel_end\<close>.\<close>

definition pmm_init :: "u64 \<Rightarrow> u32 \<Rightarrow> u64 \<Rightarrow> 'a pmm_scheme \<Rightarrow> 'a pmm_scheme option" where
  "pmm_init kend magic info s =
     (if magic \<noteq> 0x36D76289 then Some s else
      let m = memory s; ptr = info + 8; end = info + ucast (load32 m info) in
      Option.bind (mmap_tags (\<lambda>_. m) (max_body m) (\<lambda>_. False) ptr end 0) (\<lambda>max_addr.
      let tp = max_addr div PAGE_SIZE;
          tp = (if tp > BITMAP_MAX_PAGES then BITMAP_MAX_PAGES else tp);
          bsize = (tp + 7) div 8;
          kernel_end = page_up kend;
          s = s\<lparr>total_pages := tp, bitmap_size := bsize\<rparr> in
      Option.bind (mmap_tags (\<lambda>_. m) (place_body m kernel_end bsize) snd ptr end (bitmap s, False))
       (\<lambda>(bm, placed).
      if bm = 0 then Some (s\<lparr>bitmap := bm\<rparr>) else
      Option.bind (mmap_tags memory free_body (\<lambda>_. False) ptr end
        (s\<lparr>bitmap := bm, memory := kmemset m bm 0xFF bsize, free_pages := 0\<rparr>)) (\<lambda>s.
      let bitmap_end = page_up (bm + bsize);
          reserve_end = (if bitmap_end > kernel_end then bitmap_end else kernel_end)
      in page_range reserve_frame 0 reserve_end s))))"

section \<open>Allocation\<close>

function pmm_scan :: "u64 \<Rightarrow> 'a pmm_scheme \<Rightarrow> u64 \<times> 'a pmm_scheme" where
  "pmm_scan i s =
     (if i < total_pages s then
        if \<not> bm_test i s
        then (i * PAGE_SIZE, (bm_set i s)\<lparr>free_pages := free_pages s - 1\<rparr>)
        else pmm_scan (i + 1) s
      else (0, s))"
  by pat_completeness auto
termination
  by (relation "measure (\<lambda>(i, s). unat (total_pages s) - unat i)")
    (auto simp: word_less_nat_alt unat_Suc_less intro!: diff_less_mono2)

declare pmm_scan.simps [simp del]

definition pmm_alloc :: "'a pmm_scheme \<Rightarrow> u64 \<times> 'a pmm_scheme" where
  "pmm_alloc s = pmm_scan 0 s"

definition pmm_free :: "u64 \<Rightarrow> 'a pmm_scheme \<Rightarrow> 'a pmm_scheme" where
  "pmm_free page s =
     (let idx = page div PAGE_SIZE
      in if idx < total_pages s \<and> bm_test idx s
         then (bm_clear idx s)\<lparr>free_pages := free_pages s + 1\<rparr> else s)"

definition pmm_free_pages :: "'a pmm_scheme \<Rightarrow> u64" where
  "pmm_free_pages s = free_pages s"

definition pmm_total_pages :: "'a pmm_scheme \<Rightarrow> u64" where
  "pmm_total_pages s = total_pages s"

section \<open>The bitmap as a set of frames\<close>

lemma bm_test_bit:
  "bm_test idx s \<longleftrightarrow> bit (memory s (bitmap s + idx div 8)) (unat (idx mod 8))"
  by (simp add: bm_test_def and_one_eq bit_iff_odd_drop_bit odd_iff_mod_2_eq_one)

lemma idx_eq_iff: "i = j \<longleftrightarrow> i div 8 = j div 8 \<and> unat (i mod 8) = unat (j mod 8)" for i j :: u64
  by (metis word_unat_eq_iff div_mult_mod_eq)

lemma unat_mod8: "unat (i mod 8) < 8" for i :: u64
  using word_mod_less_divisor [of 8 i] by (simp add: word_less_nat_alt)

lemma bm_test_set [mem_simps]: "bm_test j (bm_set i s) \<longleftrightarrow> i = j \<or> bm_test j s"
  using unat_mod8 [of j]
  by (auto simp: bm_test_bit bm_set_def bit_simps idx_eq_iff [of i j])

lemma bm_test_clear [mem_simps]: "bm_test j (bm_clear i s) \<longleftrightarrow> i \<noteq> j \<and> bm_test j s"
  using unat_mod8 [of j]
  by (auto simp: bm_test_bit bm_clear_def bit_simps idx_eq_iff [of i j])

lemma bm_clear_set: "\<not> bm_test i s \<Longrightarrow> bm_clear i (bm_set i s) = s"
proof -
  assume free: "\<not> bm_test i s"
  define b where "b = memory s (bitmap s + i div 8)"
  have "(b OR push_bit (unat (i mod 8)) 1) AND NOT (push_bit (unat (i mod 8)) 1) = b"
    using free by (intro bit_word_eqI) (auto simp: bit_simps bm_test_bit b_def)
  then show ?thesis by (simp add: bm_set_def bm_clear_def b_def)
qed

lemma bm_fields [simp]:
  "bitmap (bm_set i s) = bitmap s" "total_pages (bm_set i s) = total_pages s"
  "free_pages (bm_set i s) = free_pages s" "bitmap_size (bm_set i s) = bitmap_size s"
  "pmm.more (bm_set i s) = pmm.more s"
  "bitmap (bm_clear i s) = bitmap s" "total_pages (bm_clear i s) = total_pages s"
  "free_pages (bm_clear i s) = free_pages s" "bitmap_size (bm_clear i s) = bitmap_size s"
  "pmm.more (bm_clear i s) = pmm.more s"
  by (simp_all add: bm_set_def bm_clear_def)

lemma bm_clear_free_pages [simp]: "bm_clear i (s\<lparr>free_pages := n\<rparr>) = (bm_clear i s)\<lparr>free_pages := n\<rparr>"
  by (simp add: bm_clear_def)

lemma bm_test_free_pages [simp]: "bm_test i (s\<lparr>free_pages := n\<rparr>) = bm_test i s"
  by (simp add: bm_test_def)

definition free_frames :: "'a pmm_scheme \<Rightarrow> u64 set" where
  "free_frames s = {i. i < total_pages s \<and> \<not> bm_test i s}"

lemma free_frames_free_pages [simp]: "free_frames (s\<lparr>free_pages := n\<rparr>) = free_frames s"
  by (simp add: free_frames_def)

lemma free_frames_finite [simp]: "finite (free_frames s)"
  by (rule finite_subset [OF subset_UNIV]) simp

definition claim_frame :: "u64 \<Rightarrow> 'a pmm_scheme \<Rightarrow> 'a pmm_scheme" where
  "claim_frame f s = (bm_set f s)\<lparr>free_pages := free_pages s - 1\<rparr>"

lemma claim_frame_fields [simp]:
  "bitmap (claim_frame f s) = bitmap s" "total_pages (claim_frame f s) = total_pages s"
  "bitmap_size (claim_frame f s) = bitmap_size s" "pmm.more (claim_frame f s) = pmm.more s"
  "free_pages (claim_frame f s) = free_pages s - 1"
  by (simp_all add: claim_frame_def)

lemma free_frames_claim [simp]: "free_frames (claim_frame f s) = free_frames s - {f}"
  by (auto simp: free_frames_def claim_frame_def mem_simps)

lemma frame_not_last: "j = i \<or> i + 1 \<le> j" if "i \<le> j" "i < n" for i j n :: u64
  using that unat_Suc_less [of i n] by (auto simp: word_le_nat_alt word_less_nat_alt word_unat_eq_iff)

lemma pmm_scan_first:
  "pmm_scan i s =
     (let F = {j \<in> free_frames s. i \<le> j}
      in if F = {} then (0, s) else (Min F * PAGE_SIZE, claim_frame (Min F) s))"
proof (induction i s rule: pmm_scan.induct)
  case (1 i s)
  let ?F = "{j \<in> free_frames s. i \<le> j}"
  consider "\<not> i < total_pages s" | "i < total_pages s" "\<not> bm_test i s"
    | "i < total_pages s" "bm_test i s" by blast
  then show ?case
  proof cases
    case 1
    then have "?F = {}" by (auto simp: free_frames_def)
    with 1 show ?thesis by (simp add: pmm_scan.simps [of i s])
  next
    case 2
    then have "i \<in> ?F" by (simp add: free_frames_def)
    moreover from this have "Min ?F = i" by (intro Min_eqI) auto
    ultimately show ?thesis
      using 2 by (auto simp: pmm_scan.simps [of i s] claim_frame_def Let_def)
  next
    case 3
    then have "?F = {j \<in> free_frames s. i + 1 \<le> j}"
      using frame_not_last [OF _ 3(1)] unat_Suc_less [OF 3(1)]
      by (fastforce simp: free_frames_def word_le_nat_alt)
    with 3 "1" [OF 3(1)] show ?thesis by (subst pmm_scan.simps) simp
  qed
qed

lemma pmm_alloc_first:
  "pmm_alloc s =
     (if free_frames s = {} then (0, s)
      else (Min (free_frames s) * PAGE_SIZE, claim_frame (Min (free_frames s)) s))"
  by (simp add: pmm_alloc_def pmm_scan_first Let_def)

text \<open>
  The invariant: the size fields agree, \<open>free_pages\<close> counts the clear bits, and neither frame 0 nor
  a frame holding a byte of the bitmap is free.
\<close>

definition pmm_inv :: "'a pmm_scheme \<Rightarrow> bool" where
  "pmm_inv s \<longleftrightarrow> total_pages s \<le> BITMAP_MAX_PAGES
     \<and> bitmap_size s = (total_pages s + 7) div 8
     \<and> unat (free_pages s) = card (free_frames s)
     \<and> 0 \<notin> free_frames s
     \<and> (\<forall>k < bitmap_size s. (bitmap s + k) div PAGE_SIZE \<notin> free_frames s)"

lemma claim_count:
  assumes "unat (free_pages s) = card (free_frames s)" and "f \<in> free_frames s"
  shows "unat (free_pages s - 1) = card (free_frames s - {f})"
proof -
  have "free_pages s \<noteq> 0" using assms by (auto simp: card_gt_0_iff)
  with assms show ?thesis by (simp add: unat_minus_one)
qed

lemma pmm_inv_claim [inv_intros]:
  "pmm_inv s \<Longrightarrow> f \<in> free_frames s \<Longrightarrow> pmm_inv (claim_frame f s)"
  using claim_count [of s f] by (auto simp: pmm_inv_def)

lemma frame_addr:
  assumes "f < total_pages s" and "total_pages s \<le> BITMAP_MAX_PAGES"
  shows "unat (f * PAGE_SIZE) = unat f * 4096" and "f * PAGE_SIZE div PAGE_SIZE = f"
proof -
  have "unat f < 16777216"
    using assms unfolding BITMAP_MAX_PAGES_def word_less_nat_alt word_le_nat_alt by simp
  then show *: "unat (f * PAGE_SIZE) = unat f * 4096"
    using unat_mult_lem [of f PAGE_SIZE] by simp
  then show "f * PAGE_SIZE div PAGE_SIZE = f" by (simp add: word_unat_eq_iff unat_div)
qed

lemma bitmap_byte_in_range:
  assumes "f < total_pages s" and "total_pages s \<le> BITMAP_MAX_PAGES"
    and "bitmap_size s = (total_pages s + 7) div 8"
  shows "f div 8 < bitmap_size s"
proof -
  have "unat (total_pages s) \<le> 16777216"
    using assms(2) unfolding BITMAP_MAX_PAGES_def word_le_nat_alt by simp
  then have "unat (total_pages s + 7) = unat (total_pages s) + 7"
    by (intro trans [OF unat_add_small]) simp_all
  then show ?thesis
    using assms(1,3) by (simp add: word_less_nat_alt unat_div)
qed

text \<open>Writing outside the bitmap does not change which frames are free.\<close>

definition in_bitmap :: "u64 \<Rightarrow> 'a pmm_scheme \<Rightarrow> bool" where
  "in_bitmap a s \<longleftrightarrow> a - bitmap s < bitmap_size s"

lemma bm_test_agree:
  assumes "pmm_inv s" "i < total_pages s" "\<And>a. in_bitmap a s \<Longrightarrow> m a = memory s a"
  shows "bm_test i (s\<lparr>memory := m\<rparr>) = bm_test i s"
  using assms bitmap_byte_in_range [of i s]
  by (simp add: bm_test_def pmm_inv_def in_bitmap_def)

lemma free_frames_agree:
  assumes "pmm_inv s" "\<And>a. in_bitmap a s \<Longrightarrow> m a = memory s a"
  shows "free_frames (s\<lparr>memory := m\<rparr>) = free_frames s"
  using bm_test_agree [OF assms(1) _ assms(2)] by (auto simp: free_frames_def)

lemma pmm_inv_agree [inv_intros]:
  assumes "pmm_inv s" "\<And>a. in_bitmap a s \<Longrightarrow> m a = memory s a"
  shows "pmm_inv (s\<lparr>memory := m\<rparr>)"
  using assms(1) free_frames_agree [OF assms] by (simp add: pmm_inv_def)

text \<open>Steps that leave the allocator alone.\<close>

definition pmm_same :: "'a pmm_scheme \<Rightarrow> 'a pmm_scheme \<Rightarrow> bool" where
  "pmm_same s s' \<longleftrightarrow> bitmap s' = bitmap s \<and> total_pages s' = total_pages s
     \<and> free_pages s' = free_pages s \<and> bitmap_size s' = bitmap_size s
     \<and> (\<forall>a. in_bitmap a s \<longrightarrow> memory s' a = memory s a)"

lemma pmm_same_test:
  assumes "pmm_inv s" "pmm_same s s'" "i < total_pages s"
  shows "bm_test i s' = bm_test i s"
  using assms bitmap_byte_in_range [of i s]
  by (simp add: bm_test_def pmm_inv_def in_bitmap_def pmm_same_def)

lemma pmm_same_inv [inv_intros]:
  assumes "pmm_inv s" "pmm_same s s'"
  shows "pmm_inv s'" "free_frames s' = free_frames s"
proof -
  show F: "free_frames s' = free_frames s"
    using pmm_same_test [OF assms] assms(2) by (auto simp: free_frames_def pmm_same_def)
  show "pmm_inv s'" using assms unfolding pmm_inv_def F by (simp add: pmm_same_def)
qed

lemma claim_frame_memory:
  assumes "pmm_inv s" "f < total_pages s" "\<not> in_bitmap a s"
  shows "memory (claim_frame f s) a = memory s a"
  using assms bitmap_byte_in_range [of f s]
  by (auto simp: claim_frame_def bm_set_def in_bitmap_def pmm_inv_def)

lemma pmm_free_memory:
  assumes "pmm_inv s" "\<not> in_bitmap a s"
  shows "memory (pmm_free p s) a = memory s a"
  using assms bitmap_byte_in_range [of "p div PAGE_SIZE" s]
  by (auto simp: pmm_free_def Let_def bm_clear_def in_bitmap_def pmm_inv_def)

lemma pmm_free_fields [simp]:
  "bitmap (pmm_free p s) = bitmap s" "total_pages (pmm_free p s) = total_pages s"
  "bitmap_size (pmm_free p s) = bitmap_size s" "pmm.more (pmm_free p s) = pmm.more s"
  by (simp_all add: pmm_free_def Let_def)

lemma free_frames_free:
  "free_frames (pmm_free p s) =
     (if p div PAGE_SIZE < total_pages s then insert (p div PAGE_SIZE) (free_frames s)
      else free_frames s)"
  by (auto simp: pmm_free_def Let_def free_frames_def mem_simps)

lemma free_frames_card: "card (free_frames s) \<le> unat (total_pages s)"
proof -
  have "card (unat ` free_frames s) \<le> card {..< unat (total_pages s)}"
    by (rule card_mono) (auto simp: free_frames_def word_less_nat_alt)
  moreover have "card (unat ` free_frames s) = card (free_frames s)"
    by (rule card_image) (simp add: inj_on_def word_unat_eq_iff)
  ultimately show ?thesis by simp
qed

lemma pmm_inv_free [inv_intros]:
  assumes "pmm_inv s" and "p div PAGE_SIZE \<noteq> 0"
    and "\<And>k. k < bitmap_size s \<Longrightarrow> (bitmap s + k) div PAGE_SIZE \<noteq> p div PAGE_SIZE"
  shows "pmm_inv (pmm_free p s)"
proof (cases "p div PAGE_SIZE < total_pages s \<and> bm_test (p div PAGE_SIZE) s")
  case False
  then have "pmm_free p s = s" by (auto simp: pmm_free_def Let_def)
  with assms(1) show ?thesis by simp
next
  case True
  then have new: "p div PAGE_SIZE \<notin> free_frames s" by (simp add: free_frames_def)
  have "unat (free_pages s) \<le> 16777216"
    using assms(1) free_frames_card [of s]
    unfolding pmm_inv_def BITMAP_MAX_PAGES_def word_le_nat_alt by simp
  then have "unat (free_pages s + 1) = unat (free_pages s) + 1"
    by (intro trans [OF unat_add_small]) simp_all
  moreover have "free_pages (pmm_free p s) = free_pages s + 1"
    using True by (simp add: pmm_free_def Let_def)
  ultimately have "unat (free_pages (pmm_free p s)) = card (insert (p div PAGE_SIZE) (free_frames s))"
    using assms(1) new by (simp add: pmm_inv_def)
  with True assms show ?thesis by (auto simp: pmm_inv_def free_frames_free)
qed

lemma free_framesD:
  assumes "pmm_inv s" "f \<in> free_frames s"
  shows "f < total_pages s" "f * PAGE_SIZE \<noteq> 0" "page_of (f * PAGE_SIZE) = f * PAGE_SIZE"
    "f * PAGE_SIZE div PAGE_SIZE = f"
proof -
  show less: "f < total_pages s" using assms(2) by (simp add: free_frames_def)
  have "total_pages s \<le> BITMAP_MAX_PAGES" using assms(1) by (simp add: pmm_inv_def)
  note addr = frame_addr [OF less this]
  show "f * PAGE_SIZE div PAGE_SIZE = f" by (rule addr)
  show "page_of (f * PAGE_SIZE) = f * PAGE_SIZE" by (simp add: page_of_aligned addr)
  have "unat f \<noteq> 0" using assms by (auto simp: pmm_inv_def unat_eq_0)
  then show "f * PAGE_SIZE \<noteq> 0" using addr(1) by (metis unat_0 mult_eq_0_iff zero_neq_numeral)
qed

lemma free_not_in_bitmap:
  assumes "pmm_inv s" "a div PAGE_SIZE \<in> free_frames s"
  shows "\<not> in_bitmap a s"
proof
  assume "in_bitmap a s"
  with assms(1) have "(bitmap s + (a - bitmap s)) div PAGE_SIZE \<notin> free_frames s"
    unfolding pmm_inv_def in_bitmap_def by blast
  with assms(2) show False by simp
qed

section \<open>Properties\<close>

text \<open>A small machine for the witnesses: eight frames, the bitmap in frame 1, frames 0 to 2 in use.\<close>

definition pmm_demo :: pmm where
  "pmm_demo = \<lparr>memory = (\<lambda>_. 0)(0x1000 := 7), bitmap = 0x1000, total_pages = 8,
     free_pages = 5, bitmap_size = 1\<rparr>"

lemma free_frames_code:
  "free_frames s = set (filter (\<lambda>i. \<not> bm_test i s) (map of_nat [0..<unat (total_pages s)]))"
proof -
  have "i \<in> of_nat ` {0..<unat (total_pages s)} \<longleftrightarrow> i < total_pages s" for i
  proof
    assume "i \<in> of_nat ` {0..<unat (total_pages s)}"
    then obtain n where n: "i = of_nat n" "n < unat (total_pages s)" by auto
    then have "n < 2 ^ 64" using unat_bound [of "total_pages s"] by simp
    then show "i < total_pages s" using n by (simp add: word_less_nat_alt of_nat_less_len)
  next
    assume "i < total_pages s"
    then show "i \<in> of_nat ` {0..<unat (total_pages s)}"
      by (intro image_eqI [of _ _ "unat i"]) (simp_all add: word_less_nat_alt)
  qed
  then show ?thesis by (auto simp: free_frames_def)
qed

lemma pmm_demo_free: "free_frames pmm_demo = {3, 4, 5, 6, 7}"
  unfolding free_frames_code by (simp add: pmm_demo_def bm_test_def upt_rec)

lemma pmm_demo_inv: "pmm_inv pmm_demo"
  unfolding pmm_inv_def pmm_demo_free
  by (simp add: pmm_demo_def BITMAP_MAX_PAGES_def word_less_1)

lemma pmm_demo_alloc: "pmm_alloc pmm_demo = (0x3000, snd (pmm_alloc pmm_demo))"
proof -
  have "Min {3, 4, 5, 6, 7 :: u64} = 3" by (simp add: min_def)
  then show ?thesis by (simp add: pmm_alloc_first pmm_demo_free)
qed

text \<open>C4. \<open>pmm_alloc\<close> refines first-fit allocation on the set of free frames.  When the set is empty it
  returns \<open>NULL\<close> and changes nothing; otherwise it returns the page-aligned, non-\<open>NULL\<close> address of
  the least free frame, takes exactly that frame out of the set, keeps the invariant (so
  \<open>free_pages\<close> stays exact), and changes no byte outside the bitmap.\<close>

theorem pmm_alloc_refines:
  assumes "pmm_inv s" and "pmm_alloc s = (p, s')"
  shows "if free_frames s = {} then p = 0 \<and> s' = s
    else p = Min (free_frames s) * PAGE_SIZE \<and> p \<noteq> 0 \<and> page_of p = p
       \<and> free_frames s' = free_frames s - {p div PAGE_SIZE}
       \<and> pmm_inv s' \<and> free_pages s' = free_pages s - 1
       \<and> (\<forall>a. \<not> in_bitmap a s \<longrightarrow> memory s' a = memory s a)"
proof (cases "free_frames s = {}")
  case True
  with assms show ?thesis by (simp add: pmm_alloc_first)
next
  case False
  then have f: "Min (free_frames s) \<in> free_frames s" by (intro Min_in) simp
  note D = free_framesD [OF assms(1) f]
  from False assms(2) show ?thesis
    using D f pmm_inv_claim [OF assms(1) f] claim_frame_memory [OF assms(1) D(1)]
    by (auto simp: pmm_alloc_first)
qed

theorem pmm_alloc_refines_witness:
  "fst (pmm_alloc pmm_demo) = 0x3000 \<and> pmm_inv (snd (pmm_alloc pmm_demo))"
  using pmm_alloc_refines [OF pmm_demo_inv pmm_demo_alloc] arg_cong [OF pmm_demo_alloc, of fst]
  by (simp add: pmm_demo_free)

text \<open>C28. Freeing the page that \<open>pmm_alloc\<close> has just returned restores the allocator, every byte of
  the bitmap and the counter included; freeing it twice is the same as freeing it once.\<close>

theorem pmm_alloc_free_inverse:
  assumes "pmm_inv s" and "pmm_alloc s = (p, s')" and "p \<noteq> 0"
  shows "pmm_free p s' = s \<and> pmm_free p (pmm_free p s') = pmm_free p s'"
proof -
  from assms have ne: "free_frames s \<noteq> {}" by (auto simp: pmm_alloc_first split: if_splits)
  then have f: "Min (free_frames s) \<in> free_frames s" by (intro Min_in) simp
  note D = free_framesD [OF assms(1) f]
  have clear: "\<not> bm_test (Min (free_frames s)) s" using f by (simp add: free_frames_def)
  have p: "p = Min (free_frames s) * PAGE_SIZE" and s': "s' = claim_frame (Min (free_frames s)) s"
    using assms(2) ne by (simp_all add: pmm_alloc_first)
  have "bm_clear (Min (free_frames s)) s' = s\<lparr>free_pages := free_pages s - 1\<rparr>"
    using bm_clear_set [OF clear] by (simp add: s' claim_frame_def)
  then have once: "pmm_free p s' = s"
    using D by (simp add: pmm_free_def p) (simp add: s' claim_frame_def mem_simps)
  moreover have "pmm_free p s = s" using D clear by (simp add: pmm_free_def p)
  ultimately show ?thesis by simp
qed

theorem pmm_alloc_free_inverse_witness:
  "pmm_free 0x3000 (snd (pmm_alloc pmm_demo)) = pmm_demo"
  using pmm_alloc_free_inverse [OF pmm_demo_inv pmm_demo_alloc] by simp

text \<open>\<open>pmm_free\<close> puts the frame of a page back into the set of free frames and keeps the
  invariant for every page other than frame 0 and the frames of the bitmap; a page outside the
  managed memory is ignored.\<close>

theorem pmm_free_refines:
  assumes "pmm_inv s" and "p div PAGE_SIZE \<noteq> 0"
    and "\<And>k. k < bitmap_size s \<Longrightarrow> (bitmap s + k) div PAGE_SIZE \<noteq> p div PAGE_SIZE"
  shows "pmm_inv (pmm_free p s)
    \<and> free_frames (pmm_free p s) = free_frames s \<union> {f. f = p div PAGE_SIZE \<and> f < total_pages s}
    \<and> (\<forall>a. \<not> in_bitmap a s \<longrightarrow> memory (pmm_free p s) a = memory s a)"
  using pmm_inv_free [OF assms] pmm_free_memory [OF assms(1)] by (auto simp: free_frames_free)

theorem pmm_free_refines_witness:
  "free_frames (pmm_free 0x2000 pmm_demo) = {2, 3, 4, 5, 6, 7}"
proof -
  have "pmm_inv (pmm_free 0x2000 pmm_demo) \<and>
    free_frames (pmm_free 0x2000 pmm_demo)
      = free_frames pmm_demo \<union> {f. f = 0x2000 div PAGE_SIZE \<and> f < total_pages pmm_demo} \<and>
    (\<forall>a. \<not> in_bitmap a pmm_demo \<longrightarrow> memory (pmm_free 0x2000 pmm_demo) a = memory pmm_demo a)"
    by (rule pmm_free_refines [OF pmm_demo_inv]) (simp_all add: pmm_demo_def word_less_1)
  then show ?thesis by (auto simp: pmm_demo_free) (simp add: pmm_demo_def)
qed

text \<open>C38. Freeing \<open>NULL\<close> is not harmless: frame 0 is reserved but allocated, so \<open>pmm_free NULL\<close>
  makes it free, and the next \<open>pmm_alloc\<close> takes it out of the pool and returns \<open>NULL\<close>, which every
  caller reads as \<open>out of memory\<close>.\<close>

theorem pmm_free_null_leaks:
  assumes "pmm_inv s" and "0 < total_pages s"
  shows "0 \<in> free_frames (pmm_free 0 s)
    \<and> fst (pmm_alloc (pmm_free 0 s)) = 0 \<and> free_frames (snd (pmm_alloc (pmm_free 0 s))) = free_frames s"
proof -
  have F: "free_frames (pmm_free 0 s) = insert 0 (free_frames s)"
    using assms(2) by (simp add: free_frames_free)
  then have "Min (free_frames (pmm_free 0 s)) = 0" by (intro Min_eqI) auto
  with F assms show ?thesis by (simp add: pmm_alloc_first pmm_inv_def)
qed

theorem pmm_free_null_leaks_witness:
  "fst (pmm_alloc (pmm_free 0 pmm_demo)) = 0 \<and> 0 \<in> free_frames (pmm_free 0 pmm_demo)"
  using pmm_free_null_leaks [OF pmm_demo_inv] by (simp add: pmm_demo_def)

end
