(* ===== verification/PmmInit.thy ===== *)
theory PmmInit
  imports Pmm
begin

text \<open>
  Correctness of \<open>pmm_init\<close>: a description of the tags and memory map entries that the boot loader
  left in memory, the three passes as folds over the entries, and the allocator state at the end.
\<close>

section \<open>The memory map as a list of entries\<close>

text \<open>
  \<open>I\<close> is the set of addresses the boot information occupies: the walk reads nothing else.
\<close>

inductive entries_at :: "u64 set \<Rightarrow> mem \<Rightarrow> u64 \<Rightarrow> u64 \<Rightarrow> u64 \<Rightarrow> u64 list \<Rightarrow> bool" for I m mt ee where
  e_done: "\<not> ep + ucast (load32 m (mt + 8)) \<le> ee \<Longrightarrow> entries_at I m mt ee ep []"
| e_step: "ep + ucast (load32 m (mt + 8)) \<le> ee \<Longrightarrow> rng ep 24 \<subseteq> I \<Longrightarrow>
    entries_at I m mt ee (ep + ucast (load32 m (mt + 8))) es \<Longrightarrow> entries_at I m mt ee ep (ep # es)"

inductive tags_at :: "u64 set \<Rightarrow> mem \<Rightarrow> u64 \<Rightarrow> u64 \<Rightarrow> u64 list \<Rightarrow> bool" for I m lim where
  t_done: "\<not> ptr + 8 \<le> lim \<Longrightarrow> tags_at I m lim ptr []"
| t_end: "ptr + 8 \<le> lim \<Longrightarrow> rng ptr 16 \<subseteq> I \<Longrightarrow> load32 m ptr = 0 \<Longrightarrow> tags_at I m lim ptr []"
| t_mmap: "ptr + 8 \<le> lim \<Longrightarrow> rng ptr 16 \<subseteq> I \<Longrightarrow> load32 m ptr = 6 \<Longrightarrow>
    entries_at I m ptr (ptr + ucast (load32 m (ptr + 4))) (ptr + 16) es \<Longrightarrow>
    tags_at I m lim (ptr + ucast ((load32 m (ptr + 4) + 7) AND NOT 7)) es' \<Longrightarrow>
    tags_at I m lim ptr (es @ es')"
| t_other: "ptr + 8 \<le> lim \<Longrightarrow> rng ptr 16 \<subseteq> I \<Longrightarrow> load32 m ptr \<notin> {0, 6} \<Longrightarrow>
    tags_at I m lim (ptr + ucast ((load32 m (ptr + 4) + 7) AND NOT 7)) es \<Longrightarrow>
    tags_at I m lim ptr es"

fun fold_opt :: "('s \<Rightarrow> bool) \<Rightarrow> (u64 \<Rightarrow> 's \<Rightarrow> 's option) \<Rightarrow> u64 list \<Rightarrow> 's \<Rightarrow> 's option" where
  "fold_opt stop body [] s = Some s"
| "fold_opt stop body (e # es) s =
     (if stop s then Some s else Option.bind (body e s) (fold_opt stop body es))"

lemma fold_opt_stop: "stop s \<Longrightarrow> fold_opt stop body es s = Some s"
  by (cases es) auto

lemma fold_opt_append:
  "fold_opt stop body (es @ es') s = Option.bind (fold_opt stop body es s) (fold_opt stop body es')"
proof (induction es arbitrary: s)
  case (Cons e es)
  then show ?case by (cases "body e s") (auto simp: fold_opt_stop)
qed simp

text \<open>The passes over the memory map are folds as long as no body overwrites the boot information.\<close>

definition keeps_info ::
  "u64 set \<Rightarrow> mem \<Rightarrow> ('s \<Rightarrow> mem) \<Rightarrow> (u64 \<Rightarrow> 's \<Rightarrow> 's option) \<Rightarrow> ('s \<Rightarrow> bool) \<Rightarrow> u64 set \<Rightarrow> bool" where
  "keeps_info I m mo body P E \<longleftrightarrow> (\<forall>s. P s \<longrightarrow> agree I (mo s) m)
     \<and> (\<forall>e\<in>E. \<forall>s s'. P s \<longrightarrow> body e s = Some s' \<longrightarrow> P s')"

lemma fold_opt_keeps:
  "keeps_info I m mo body P E \<Longrightarrow> set es \<subseteq> E \<Longrightarrow> P s \<Longrightarrow> fold_opt stop body es s = Some s' \<Longrightarrow> P s'"
  by (induction es arbitrary: s) (auto simp: keeps_info_def split: if_splits bind_splits, blast)

lemma mmap_entries_fold:
  assumes "entries_at I m mt ee ep es" "rng mt 16 \<subseteq> I" "keeps_info I m mo body P E" "set es \<subseteq> E" "P s"
  shows "mmap_entries mo body stop mt ep ee s = fold_opt stop body es s"
  using assms(1,4,5)
proof (induction arbitrary: s)
  case (e_done ep)
  then have "load32 (mo s) (mt + 8) = load32 m (mt + 8)"
    using assms by (intro agree_load32 [of I _ _ mt 16]) (auto simp: keeps_info_def)
  with e_done show ?case by (subst mmap_entries.simps) simp
next
  case (e_step ep es)
  have eq: "load32 (mo s) (mt + 8) = load32 m (mt + 8)" if "P s" for s
    using assms that by (intro agree_load32 [of I _ _ mt 16]) (auto simp: keeps_info_def)
  have "P s'" if "body ep s = Some s'" for s'
    using assms(3) that e_step.prems by (auto simp: keeps_info_def)
  with e_step eq show ?case
    by (subst mmap_entries.simps) (cases "body ep s"; simp)
qed

lemma mmap_tags_fold:
  assumes "tags_at I m lim ptr es" "keeps_info I m mo body P E" "set es \<subseteq> E" "P s"
  shows "mmap_tags mo body stop ptr lim s = fold_opt stop body es s"
proof -
  have eq: "load32 (mo s) p = load32 m p" "load32 (mo s) (p + 4) = load32 m (p + 4)"
    if "P s" "rng p 16 \<subseteq> I" for s p
    using assms(2) that agree_load32 [of I "mo s" m p 16 0] agree_load32 [of I "mo s" m p 16 4]
    by (auto simp: keeps_info_def)
  show ?thesis using assms(1,3,4)
  proof (induction arbitrary: s)
    case (t_done ptr)
    then show ?case by (subst mmap_tags.simps) simp
  next
    case (t_end ptr)
    then show ?case using eq [of s ptr] by (subst mmap_tags.simps) simp
  next
    case (t_other ptr es)
    then show ?case using eq [of s ptr] t_other.IH [of s]
      by (subst mmap_tags.simps) (auto simp: fold_opt_stop)
  next
    case (t_mmap ptr es es')
    then have sub: "set es \<subseteq> E" by simp
    note fold = mmap_entries_fold [OF t_mmap(4) t_mmap(2) assms(2) sub t_mmap(8)]
    show ?case
    proof (cases "fold_opt stop body es s")
      case None
      with t_mmap eq [of s ptr] fold show ?thesis
        by (subst mmap_tags.simps) (auto simp: fold_opt_stop fold_opt_append)
    next
      case (Some s')
      then have "P s'" by (rule fold_opt_keeps [OF assms(2) sub t_mmap(8)])
      with Some t_mmap eq [of s ptr] eq [of s' ptr] fold show ?thesis
        by (subst mmap_tags.simps) (auto simp: fold_opt_stop fold_opt_append)
    qed
  qed
qed

lemma entries_at_info: "entries_at I m mt ee ep es \<Longrightarrow> e \<in> set es \<Longrightarrow> rng e 24 \<subseteq> I"
  by (induction rule: entries_at.induct) auto

lemma tags_at_info: "tags_at I m lim ptr es \<Longrightarrow> e \<in> set es \<Longrightarrow> rng e 24 \<subseteq> I"
  by (induction rule: tags_at.induct) (auto dest: entries_at_info)

section \<open>The passes as folds over frames\<close>

abbreviation frame_list :: "nat \<Rightarrow> nat \<Rightarrow> u64 list" where
  "frame_list i k \<equiv> map of_nat [i..<k]"

lemma page_addr_less:
  assumes "k * 4096 < 2 ^ 64" "i * 4096 < 2 ^ 64"
  shows "(of_nat (i * 4096) < (of_nat (k * 4096) :: u64)) = (i < k)"
  using assms unfolding word_less_nat_alt by (simp only: of_nat_less_len) simp

lemma page_addr_div: "i * 4096 < 2 ^ 64 \<Longrightarrow> of_nat (i * 4096) div PAGE_SIZE = of_nat i"
  by (simp add: word_unat_eq_iff unat_div of_nat_less_len del: of_nat_mult)

lemma page_range_fold:
  assumes "k * 4096 < 2 ^ 64" "i * 4096 < 2 ^ 64"
  shows "page_range body (of_nat (i * 4096)) (of_nat (k * 4096)) s = Some (fold body (frame_list i k) s)"
  using assms(2)
proof (induction "k - i" arbitrary: i s)
  case 0
  then show ?case
    using page_addr_less [OF assms(1) 0(2)] by (subst page_range.simps) simp
next
  case (Suc n)
  then have less: "i < k" by simp
  have nxt: "of_nat (i * 4096) + PAGE_SIZE = of_nat (Suc i * 4096)" by simp
  have "page_range body (of_nat (Suc i * 4096)) (of_nat (k * 4096)) (body (of_nat i) s) =
      Some (fold body (frame_list (Suc i) k) (body (of_nat i) s))"
    using Suc.hyps(2) less assms(1) by (intro Suc.hyps(1)) simp_all
  moreover have "page_range body (of_nat (i * 4096)) (of_nat (k * 4096)) s =
      page_range body (of_nat (Suc i * 4096)) (of_nat (k * 4096)) (body (of_nat i) s)"
    using less page_addr_less [OF assms(1) Suc.prems] page_addr_div [OF Suc.prems]
    by (subst page_range.simps) (simp only: nxt if_True)
  ultimately show ?case using less by (simp only: upt_conv_Cons list.map fold_simps)
qed

lemma fold_release:
  fixes s :: "'a pmm_scheme"
  defines "s' fs \<equiv> fold release_frame fs s"
  shows "total_pages (s' fs) = total_pages s" "bitmap (s' fs) = bitmap s"
    "bitmap_size (s' fs) = bitmap_size s"
    "free_pages (s' fs) = free_pages s + of_nat (length (filter (\<lambda>f. f < total_pages s) fs))"
    "free_frames (s' fs) = free_frames s \<union> {f \<in> set fs. f < total_pages s}"
  unfolding s'_def
  by (induction fs arbitrary: s)
    (auto simp: release_frame_def free_frames_def mem_simps)

lemma reserve_frame_claim: "reserve_frame f s = (if f \<in> free_frames s then claim_frame f s else s)"
  by (simp add: reserve_frame_def claim_frame_def free_frames_def)

lemma fold_reserve:
  "total_pages (fold reserve_frame fs s) = total_pages s"
  "bitmap (fold reserve_frame fs s) = bitmap s"
  "bitmap_size (fold reserve_frame fs s) = bitmap_size s"
  "free_frames (fold reserve_frame fs s) = free_frames s - set fs"
  by (induction fs arbitrary: s) (auto simp: reserve_frame_claim)

lemma fold_reserve_count:
  "unat (free_pages s) = card (free_frames s) \<Longrightarrow>
   unat (free_pages (fold reserve_frame fs s)) = card (free_frames (fold reserve_frame fs s))"
  by (induction fs arbitrary: s) (auto simp: reserve_frame_claim claim_count)

lemma release_frame_memory:
  assumes "total_pages s \<le> BITMAP_MAX_PAGES" "bitmap_size s = (total_pages s + 7) div 8"
    "\<not> in_bitmap a s"
  shows "memory (release_frame f s) a = memory s a"
  using assms bitmap_byte_in_range [of f s]
  by (auto simp: release_frame_def bm_clear_def in_bitmap_def)

lemma fold_release_memory:
  assumes "total_pages s \<le> BITMAP_MAX_PAGES" "bitmap_size s = (total_pages s + 7) div 8"
    "\<not> in_bitmap a s"
  shows "memory (fold release_frame fs s) a = memory s a"
  using assms
proof (induction fs arbitrary: s)
  case (Cons f fs)
  have "\<not> in_bitmap a (release_frame f s)"
    using Cons.prems(3) by (simp add: in_bitmap_def release_frame_def)
  then show ?case
    using Cons.IH [of "release_frame f s"] Cons.prems release_frame_memory [OF Cons.prems]
    by (simp add: release_frame_def)
qed simp

text \<open>The frames that lie completely inside a region of the memory map.\<close>

definition region_frames :: "mem \<Rightarrow> u64 \<Rightarrow> u64 list" where
  "region_frames m e =
     (if load32 m (e + 16) = 1
      then frame_list ((unat (load64 m e) + 4095) div 4096)
             ((unat (load64 m e) + unat (load64 m (e + 8))) div 4096)
      else [])"

text \<open>Physical addresses have at most 52 bits.\<close>

definition phys_region :: "mem \<Rightarrow> u64 \<Rightarrow> bool" where
  "phys_region m e \<longleftrightarrow> unat (load64 m e) + unat (load64 m (e + 8)) \<le> 2 ^ 52"

lemma page_up_nat:
  assumes "unat b + 4095 < 2 ^ 64"
  shows "page_up b = of_nat ((unat b + 4095) div 4096 * 4096)"
    and "unat (page_up b) = (unat b + 4095) div 4096 * 4096"
proof -
  have "page_up b = page_of (b + 4095)" by (simp add: page_up_def page_of_def add.commute)
  moreover have "unat (b + 4095) = unat b + 4095"
    using assms by (intro trans [OF unat_add_small]) simp_all
  ultimately show u: "unat (page_up b) = (unat b + 4095) div 4096 * 4096"
    by (simp add: page_of_div)
  from u show "page_up b = of_nat ((unat b + 4095) div 4096 * 4096)"
    by (rule word_eq_of_nat)
qed

lemma free_body_release:
  assumes "phys_region (memory s) e"
  shows "free_body e s = Some (fold release_frame (region_frames (memory s) e) s)"
proof -
  define b l where "b = load64 (memory s) e" and "l = load64 (memory s) (e + 8)"
  have le: "unat b + unat l \<le> 2 ^ 52" using assms by (simp add: phys_region_def b_def l_def)
  define i k where "i = (unat b + 4095) div 4096" and "k = (unat b + unat l) div 4096"
  have "page_up b = of_nat (i * 4096)" using le by (simp add: page_up_nat i_def)
  moreover have "unat (b + l) = unat b + unat l" using le by (intro unat_add_small) simp
  then have "(b + l) AND NOT 0xFFF = of_nat (k * 4096)"
    using page_of_div [of "b + l"] by (intro word_eq_of_nat) (simp only: page_of_def k_def)
  moreover have "i * 4096 < 2 ^ 64" "k * 4096 < 2 ^ 64" using le by (simp_all add: i_def k_def)
  ultimately show ?thesis
    using page_range_fold [of k i release_frame s]
    by (simp add: free_body_def Let_def region_frames_def b_def l_def i_def k_def)
qed

section \<open>The three passes\<close>

abbreviation usable :: "mem \<Rightarrow> u64 \<Rightarrow> bool" where
  "usable m e \<equiv> load32 m (e + 16) = 1"

abbreviation region_top :: "mem \<Rightarrow> u64 \<Rightarrow> u64" where
  "region_top m e \<equiv> load64 m e + load64 m (e + 8)"

definition usable_top :: "mem \<Rightarrow> u64 list \<Rightarrow> u64" where
  "usable_top m es = Max (insert 0 (region_top m ` {e \<in> set es. usable m e}))"

lemma max_pass_fold:
  "fold_opt (\<lambda>_. False) (max_body m) es a = Some (Max (insert a (region_top m ` {e \<in> set es. usable m e})))"
proof (induction es arbitrary: a)
  case (Cons e es)
  define T where "T = region_top m ` {e \<in> set es. usable m e}"
  have fin: "finite T" by (simp add: T_def)
  have split: "region_top m ` {e' \<in> set (e # es). usable m e'} =
      (if usable m e then insert (region_top m e) T else T)"
    by (auto simp: T_def)
  have "Max (insert a (insert t T)) = Max (insert (if t > a then t else a) T)" for t
    using fin by (cases "T = {}") (auto simp: max_def insert_commute)
  moreover have "fold_opt (\<lambda>_. False) (max_body m) es b = Some (Max (insert b T))" for b
    using Cons.IH by (simp add: T_def)
  ultimately show ?case unfolding split by (simp add: max_body_def [of m e] Let_def)
qed simp

definition placement :: "mem \<Rightarrow> u64 \<Rightarrow> u64 \<Rightarrow> u64" where
  "placement m kernel_end e = page_up (max kernel_end (load64 m e))"

definition fits :: "mem \<Rightarrow> u64 \<Rightarrow> u64 \<Rightarrow> u64 \<Rightarrow> bool" where
  "fits m kernel_end bsize e \<longleftrightarrow> usable m e \<and> placement m kernel_end e + bsize \<le> region_top m e"

lemma place_pass_fold:
  "fold_opt snd (place_body m ke bs) es (b, False) =
     Some (case find (fits m ke bs) es of None \<Rightarrow> (b, False) | Some e \<Rightarrow> (placement m ke e, True))"
  by (induction es)
    (auto simp: place_body_def Let_def fits_def placement_def fold_opt_stop max_def
      not_less split: if_splits)

lemma region_agree:
  assumes "agree I m' m" "rng e 24 \<subseteq> I"
  shows "region_frames m' e = region_frames m e" "phys_region m' e = phys_region m e"
  using agree_load64 [OF assms, of 0] agree_load64 [OF assms, of 8] agree_load32 [OF assms, of 16]
  by (simp_all add: region_frames_def phys_region_def)

lemma free_pass_fold:
  assumes tags: "tags_at I m lim ptr es" and phys: "\<forall>e \<in> set es. phys_region m e"
    and s: "total_pages s \<le> BITMAP_MAX_PAGES" "bitmap_size s = (total_pages s + 7) div 8"
    and off: "\<And>a. a \<in> I \<Longrightarrow> \<not> in_bitmap a s" and mem: "agree I (memory s) m"
  shows "mmap_tags memory free_body (\<lambda>_. False) ptr lim s =
     Some (fold release_frame (concat (map (region_frames m) es)) s)"
proof -
  define P where "P t \<longleftrightarrow> total_pages t = total_pages s \<and> bitmap_size t = bitmap_size s
     \<and> bitmap t = bitmap s \<and> agree I (memory t) m" for t :: "'a pmm_scheme"
  have body: "free_body e t = Some (fold release_frame (region_frames m e) t)"
    if "P t" "e \<in> set es" for t e
  proof -
    have "agree I (memory t) m" using that(1) by (simp add: P_def)
    note region_agree [OF this tags_at_info [OF tags that(2)]]
    then show ?thesis using free_body_release [of t e] phys that(2) by simp
  qed
  have keep: "P (fold release_frame fs t)" if "P t" for t fs
  proof -
    have "\<not> in_bitmap a t" if "a \<in> I" for a
      using off [OF that] \<open>P t\<close> by (simp add: P_def in_bitmap_def)
    then have "agree I (memory (fold release_frame fs t)) m"
      using that s by (auto simp: agree_def P_def fold_release_memory)
    then show ?thesis using that by (simp add: P_def fold_release)
  qed
  have "keeps_info I m memory free_body P (set es)"
    using body keep by (auto simp: keeps_info_def P_def)
  moreover have "P s" using mem by (simp add: P_def)
  ultimately have "mmap_tags memory free_body (\<lambda>_. False) ptr lim s = fold_opt (\<lambda>_. False) free_body es s"
    using tags by (intro mmap_tags_fold [where E = "set es" and P = P]) auto
  moreover have "fold_opt (\<lambda>_. False) free_body es' t =
      Some (fold release_frame (concat (map (region_frames m) es')) t)"
    if "P t" "set es' \<subseteq> set es" for es' t
    using that by (induction es' arbitrary: t) (simp_all add: body keep)
  ultimately show ?thesis using \<open>P s\<close> by simp
qed

section \<open>The allocator after boot\<close>

definition boot_pages :: "mem \<Rightarrow> u64 list \<Rightarrow> u64" where
  "boot_pages m es = min BITMAP_MAX_PAGES (usable_top m es div PAGE_SIZE)"

definition boot_bsize :: "mem \<Rightarrow> u64 list \<Rightarrow> u64" where
  "boot_bsize m es = (boot_pages m es + 7) div 8"

text \<open>
  What the boot loader guarantees: a well-formed memory map with 52-bit physical addresses whose
  usable regions share no frame.
\<close>

definition boot_map :: "u64 set \<Rightarrow> mem \<Rightarrow> u64 \<Rightarrow> u64 list \<Rightarrow> bool" where
  "boot_map I m info es \<longleftrightarrow> tags_at I m (info + ucast (load32 m info)) (info + 8) es
     \<and> (\<forall>e \<in> set es. phys_region m e) \<and> distinct (concat (map (region_frames m) es))"

lemma kmemset_all_used:
  assumes "total_pages s \<le> BITMAP_MAX_PAGES" "bitmap_size s = (total_pages s + 7) div 8"
  shows "free_frames (s\<lparr>memory := kmemset (memory s) (bitmap s) 0xFF (bitmap_size s)\<rparr>) = {}"
proof -
  have bits: "bit (0xFF :: u8) k" if "k < 8" for k :: nat
  proof -
    have "(0xFF :: u8) = mask 8" by (simp add: mask_eq_exp_minus_1)
    then show ?thesis using that by (simp only: bit_mask_iff) simp
  qed
  show ?thesis
    using assms bitmap_byte_in_range [of _ s] bits [OF unat_mod8]
    by (auto simp: free_frames_def bm_test_bit mem_simps)
qed

lemma mmap_tags_const:
  assumes "tags_at I m lim ptr es"
  shows "mmap_tags (\<lambda>_. m) body stop ptr lim t = fold_opt stop body es t"
  by (rule mmap_tags_fold [OF assms, where E = UNIV and P = "\<lambda>_. True"])
    (auto simp: keeps_info_def agree_def)

lemma pmm_init_passes:
  assumes map: "boot_map I (memory s) info es"
    and fit: "find (fits (memory s) (page_up kend) (boot_bsize (memory s) es)) es = Some e"
    and bm: "placement (memory s) (page_up kend) e = bm" "bm \<noteq> 0"
    and off: "rng bm (boot_bsize (memory s) es) \<inter> I = {}"
  shows "pmm_init kend 0x36D76289 info s =
    page_range reserve_frame 0 (max (page_up kend) (page_up (bm + boot_bsize (memory s) es)))
      (fold release_frame (concat (map (region_frames (memory s)) es))
        (s\<lparr>total_pages := boot_pages (memory s) es, bitmap_size := boot_bsize (memory s) es,
           bitmap := bm, memory := kmemset (memory s) bm 0xFF (boot_bsize (memory s) es),
           free_pages := 0\<rparr>))"
proof -
  define m where "m = memory s"
  define lim where "lim = info + ucast (load32 m info)"
  have tags: "tags_at I m lim (info + 8) es" using map by (simp add: boot_map_def m_def lim_def)
  note const = mmap_tags_const [OF tags]
  define s1 where "s1 = s\<lparr>total_pages := boot_pages m es, bitmap_size := boot_bsize m es,
    bitmap := bm, memory := kmemset m bm 0xFF (boot_bsize m es), free_pages := 0\<rparr>"
  have "mmap_tags memory free_body (\<lambda>_. False) (info + 8) lim s1 =
      Some (fold release_frame (concat (map (region_frames m) es)) s1)"
  proof (rule free_pass_fold [OF tags])
    show "\<forall>e \<in> set es. phys_region m e" using map by (simp add: boot_map_def m_def)
    show "total_pages s1 \<le> BITMAP_MAX_PAGES" by (simp add: s1_def boot_pages_def)
    show "bitmap_size s1 = (total_pages s1 + 7) div 8" by (simp add: s1_def boot_bsize_def)
    show "\<not> in_bitmap a s1" if "a \<in> I" for a
      using off that by (auto simp: in_bitmap_def s1_def m_def)
    then show "agree I (memory s1) m"
      by (auto simp: agree_def s1_def mem_simps in_bitmap_def)
  qed
  moreover have "mmap_tags (\<lambda>_. m) (max_body m) (\<lambda>_. False) (info + 8) lim 0 = Some (usable_top m es)"
    by (simp add: const max_pass_fold usable_top_def)
  moreover have "mmap_tags (\<lambda>_. m) (place_body m (page_up kend) (boot_bsize m es)) snd (info + 8) lim
      (bitmap s, False) = Some (bm, True)"
    using fit bm by (simp add: const place_pass_fold m_def [symmetric])
  moreover have
    "(if usable_top m es div PAGE_SIZE > BITMAP_MAX_PAGES then BITMAP_MAX_PAGES
      else usable_top m es div PAGE_SIZE) = boot_pages m es"
    "(boot_pages m es + 7) div 8 = boot_bsize m es"
    "\<And>a b :: u64. (if a > b then a else b) = max b a"
    by (auto simp: boot_pages_def boot_bsize_def min_def max_def)
  ultimately show ?thesis
    unfolding pmm_init_def m_def [symmetric] s1_def [symmetric] using bm(2)
    by (simp add: Let_def lim_def [symmetric]) (simp add: s1_def)
qed

lemma ceil_page_le: "(x + 4095) div 4096 \<le> f \<longleftrightarrow> x \<le> f * 4096" for x f :: nat
proof -
  have "(x + 4095) div 4096 \<le> f \<longleftrightarrow> (x + 4095) div 4096 < Suc f" by (simp add: less_Suc_eq_le)
  also have "\<dots> \<longleftrightarrow> x + 4095 < Suc f * 4096" by (intro div_less_iff_less_mult) simp
  finally show ?thesis by (simp add: less_Suc_eq_le)
qed

lemma ceil_page_ge: "x \<le> (x + 4095) div 4096 * 4096" for x :: nat
  using ceil_page_le [of x "(x + 4095) div 4096"] by simp

lemma frame_list_outside:
  assumes "R < 2 ^ 64"
  shows "f \<notin> set (frame_list 0 R) \<longleftrightarrow> R \<le> unat f"
proof -
  have "f \<in> of_nat ` {0..<R}" if "unat f < R"
    using that by (intro image_eqI [of _ _ "unat f"]) auto
  moreover have "unat f < R" if "f \<in> of_nat ` {0..<R}"
    using that assms by (auto simp: of_nat_less_len)
  ultimately show ?thesis unfolding set_map set_upt using not_less by blast
qed

lemma boot_bsize_le: "unat (boot_bsize m es) \<le> 2 ^ 22"
proof -
  have "boot_pages m es \<le> 16777216" by (simp add: boot_pages_def BITMAP_MAX_PAGES_def)
  then have tp: "unat (boot_pages m es) \<le> 16777216" by (simp add: word_le_nat_alt)
  then have "unat (boot_pages m es + 7) = unat (boot_pages m es) + 7"
    by (intro trans [OF unat_add_small]) simp_all
  with tp show ?thesis by (simp add: boot_bsize_def unat_div)
qed

lemma placement_bounds:
  assumes "phys_region m e" "0 < kend" "unat kend \<le> 2 ^ 52"
  defines "bm \<equiv> placement m (page_up kend) e"
  shows "unat kend \<le> unat bm" "unat bm \<le> 2 ^ 52" "bm \<noteq> 0"
proof -
  have ke: "unat (page_up kend) = (unat kend + 4095) div 4096 * 4096"
    using assms(3) by (intro page_up_nat) simp
  define x where "x = max (page_up kend) (load64 m e)"
  have "unat kend \<le> unat (page_up kend)" unfolding ke by (rule ceil_page_ge)
  moreover have "unat (page_up kend) \<le> unat x" by (simp add: x_def word_le_nat_alt [symmetric])
  moreover have "unat (page_up kend) \<le> 2 ^ 52" unfolding ke using assms(3) by simp
  moreover have "unat (load64 m e) \<le> 2 ^ 52" using assms(1) by (simp add: phys_region_def)
  ultimately have x: "unat kend \<le> unat x" "unat x \<le> 2 ^ 52" by (simp_all add: x_def max_def)
  then have bm: "unat bm = (unat x + 4095) div 4096 * 4096"
    unfolding bm_def placement_def x_def [symmetric] by (intro page_up_nat) simp
  have "unat x \<le> unat bm" unfolding bm by (rule ceil_page_ge)
  then show le: "unat kend \<le> unat bm" using x by simp
  show "unat bm \<le> 2 ^ 52" unfolding bm using x by simp
  have "0 < unat kend" using assms(2) by (simp add: word_less_nat_alt)
  with le show "bm \<noteq> 0" by auto
qed

lemma reserve_from_zero:
  assumes "unat kend \<le> 2 ^ 52" "unat t \<le> 2 ^ 53"
  defines "R \<equiv> max ((unat kend + 4095) div 4096) ((unat t + 4095) div 4096)"
  shows "page_range body 0 (max (page_up kend) (page_up t)) s = Some (fold body (frame_list 0 R) s)"
    and "R < 2 ^ 64"
proof -
  have R: "R * 4096 < 2 ^ 64" using assms(1,2) unfolding R_def by (auto simp: less_mult_imp_div_less max_def)
  then show "R < 2 ^ 64" by simp
  have "unat (max (page_up kend) (page_up t)) = max (unat (page_up kend)) (unat (page_up t))"
    by (simp add: max_def word_le_nat_alt)
  also have "\<dots> = R * 4096"
    using assms(1,2) by (simp add: page_up_nat(2) R_def max_def)
  finally have "max (page_up kend) (page_up t) = of_nat (R * 4096)" by (rule word_eq_of_nat)
  then show "page_range body 0 (max (page_up kend) (page_up t)) s = Some (fold body (frame_list 0 R) s)"
    using page_range_fold [OF R, of 0 body s] by (simp only: mult_0 of_nat_0) simp
qed

text \<open>The passes that fill the bitmap count every frame once.\<close>

lemma release_count:
  assumes "distinct fs" "free_frames s = {}" "free_pages s = 0"
  shows "unat (free_pages (fold release_frame fs s)) = card (free_frames (fold release_frame fs s))"
proof -
  let ?fs = "filter (\<lambda>f. f < total_pages s) fs"
  have F: "free_frames (fold release_frame fs s) = set ?fs"
    using assms(2) by (auto simp: fold_release)
  then have "length ?fs = card (free_frames (fold release_frame fs s))"
    using assms(1) distinct_card [of ?fs] by simp
  moreover from this have "length ?fs < 2 ^ 64"
    using free_frames_card [of "fold release_frame fs s"] unat_bound [of "total_pages (fold release_frame fs s)"]
    by simp
  ultimately show ?thesis using assms(3) by (simp add: fold_release of_nat_less_len)
qed

lemma bitmap_frames_below:
  assumes "k < bs" "unat bm + unat bs < 2 ^ 64"
  shows "unat ((bm + k) div PAGE_SIZE) * 4096 < unat bm + unat bs"
proof -
  have "unat k < unat bs" using assms(1) by (simp add: word_less_nat_alt)
  moreover from this have "unat (bm + k) = unat bm + unat k"
    using assms(2) by (intro unat_add_small) simp
  moreover have "unat (bm + k) div 4096 * 4096 \<le> unat (bm + k)" by simp
  ultimately show ?thesis by (simp only: unat_div) simp
qed

text \<open>C5. \<open>pmm_init\<close> returns and leaves a consistent allocator, for every memory map whose regions do
  not overlap and whose first region with room for the bitmap does not hold the boot information:
  the invariant holds, \<open>total_pages\<close> covers the highest usable address (at most
  \<open>BITMAP_MAX_PAGES\<close>), and the free frames are exactly the frames that lie inside a usable region
  and above both the kernel image and the bitmap.\<close>

theorem pmm_init_correct:
  assumes map: "boot_map I (memory s) info es" and kend: "0 < kend" "unat kend \<le> 2 ^ 52"
    and fit: "find (fits (memory s) (page_up kend) (boot_bsize (memory s) es)) es = Some e"
    and off: "rng (placement (memory s) (page_up kend) e) (boot_bsize (memory s) es) \<inter> I = {}"
  shows "\<exists>s'. pmm_init kend 0x36D76289 info s = Some s' \<and> pmm_inv s'
    \<and> total_pages s' = boot_pages (memory s) es
    \<and> bitmap s' = placement (memory s) (page_up kend) e
    \<and> free_frames s' = {f \<in> set (concat (map (region_frames (memory s)) es)).
        f < total_pages s' \<and> unat kend \<le> unat f * 4096
        \<and> unat (bitmap s') + unat (bitmap_size s') \<le> unat f * 4096}"
proof -
  define m bm bs where "m = memory s" and "bm = placement m (page_up kend) e" and "bs = boot_bsize m es"
  define fs where "fs = concat (map (region_frames m) es)"
  define s1 where "s1 = s\<lparr>total_pages := boot_pages m es, bitmap_size := bs,
    bitmap := bm, memory := kmemset m bm 0xFF bs, free_pages := 0\<rparr>"
  define s2 where "s2 = fold release_frame fs s1"
  have "e \<in> set es" using fit by (auto simp: find_Some_iff)
  then have "phys_region m e" using map by (simp add: boot_map_def m_def)
  note bm = placement_bounds [OF this kend, folded bm_def]
  have bs: "unat bs \<le> 2 ^ 22" by (simp only: bs_def boot_bsize_le)
  then have top: "unat (bm + bs) = unat bm + unat bs" "unat (bm + bs) \<le> 2 ^ 53"
    using bm(2) unat_add_small [of bm bs] by simp_all
  define R where "R = max ((unat kend + 4095) div 4096) ((unat (bm + bs) + 4095) div 4096)"
  note rsv = reserve_from_zero [OF kend(2) top(2), folded R_def]
  define s' where "s' = fold reserve_frame (frame_list 0 R) s2"
  have place: "placement (memory s) (page_up kend) e = bm" by (simp add: bm_def m_def)
  have init: "pmm_init kend 0x36D76289 info s = Some s'"
    using pmm_init_passes [OF map fit place bm(3) off [unfolded place]] rsv(1) [of reserve_frame s2]
    by (simp add: s'_def s2_def s1_def fs_def m_def bs_def)
  have "free_frames s1 = {}"
    using kmemset_all_used [of "s\<lparr>total_pages := boot_pages m es, bitmap_size := bs, bitmap := bm\<rparr>"]
    by (simp add: s1_def m_def bs_def boot_bsize_def boot_pages_def)
  moreover have "distinct fs" using map by (simp add: boot_map_def fs_def m_def)
  ultimately have "unat (free_pages s2) = card (free_frames s2)" "free_frames s2 = {f \<in> set fs. f < boot_pages m es}"
    using release_count [of fs s1] by (simp_all add: s2_def fold_release) (simp_all add: s1_def)
  then have count: "unat (free_pages s') = card (free_frames s')"
    and F: "free_frames s' = {f \<in> set fs. f < boot_pages m es \<and> R \<le> unat f}"
    using fold_reserve_count [of s2] frame_list_outside [OF rsv(2)]
    by (auto simp: s'_def fold_reserve)
  have fields: "total_pages s' = boot_pages m es" "bitmap s' = bm" "bitmap_size s' = bs"
    by (simp_all add: s'_def s2_def fold_reserve fold_release s1_def)
  have above: "R \<le> unat f \<longleftrightarrow> unat kend \<le> unat f * 4096 \<and> unat bm + unat bs \<le> unat f * 4096" for f :: u64
    by (simp add: R_def ceil_page_le top)
  have "0 \<notin> free_frames s'" using kend(1) F above [of 0] by (simp add: word_less_nat_alt)
  moreover have "(bm + k) div PAGE_SIZE \<notin> free_frames s'" if "k < bs" for k
    using bitmap_frames_below [OF that, of bm] top F above [of "(bm + k) div PAGE_SIZE"] by auto
  moreover have "boot_pages m es \<le> BITMAP_MAX_PAGES" by (simp add: boot_pages_def)
  ultimately have "pmm_inv s'"
    unfolding pmm_inv_def fields using count by (simp add: bs_def boot_bsize_def)
  then show ?thesis using init fields F above by (auto simp: fs_def m_def bm_def)
qed

text \<open>A boot loader that reports one usable region, the first sixteen frames.\<close>

definition boot_bytes :: "u8 list" where
  "boot_bytes = [56,0,0,0, 0,0,0,0, 6,0,0,0, 40,0,0,0, 24,0,0,0, 0,0,0,0,
     0,0,0,0,0,0,0,0, 0,0,1,0,0,0,0,0, 1,0,0,0, 0,0,0,0, 0,0,0,0, 8,0,0,0]"

definition boot_demo :: pmm where
  "boot_demo = \<lparr>memory = (\<lambda>a. if a - 0x500 < 56 then boot_bytes ! unat (a - 0x500) else 0),
     bitmap = 0, total_pages = 0, free_pages = 0, bitmap_size = 0\<rparr>"

abbreviation "boot_mem \<equiv> memory boot_demo"

lemma boot_demo_loads:
  "load32 boot_mem 0x500 = 56" "load32 boot_mem 0x508 = 6" "load32 boot_mem 0x50c = 40"
  "load32 boot_mem 0x510 = 24" "load64 boot_mem 0x518 = 0" "load64 boot_mem 0x520 = 0x10000"
  "load32 boot_mem 0x528 = 1" "load32 boot_mem 0x530 = 0"
  by (simp_all add: boot_demo_def boot_bytes_def load32_bytes load64_bytes)

lemma boot_demo_tags: "tags_at (rng 0x500 64) boot_mem 0x538 0x508 [0x518]"
proof -
  have sub: "rng (0x500 + i) k \<subseteq> rng 0x500 64" if "unat i + unat k \<le> 64" for i k :: u64
    using rng_sub [of "0x500" 64 "rng 0x500 64" i k] that by simp
  have "entries_at (rng 0x500 64) boot_mem 0x508 0x530 0x530 []"
    by (rule e_done) (simp add: boot_demo_loads)
  then have "entries_at (rng 0x500 64) boot_mem 0x508 0x530 0x518 [0x518]"
    using sub [of 24 24] by (intro e_step) (simp_all add: boot_demo_loads)
  moreover have "tags_at (rng 0x500 64) boot_mem 0x538 0x530 []"
    using sub [of 48 16] by (intro t_end) (simp_all add: boot_demo_loads)
  ultimately have "tags_at (rng 0x500 64) boot_mem 0x538 0x508 ([0x518] @ [])"
    using sub [of 8 16] by (intro t_mmap) (simp_all add: boot_demo_loads)
  then show ?thesis by simp
qed

lemma frame_list_distinct: "k < 2 ^ 64 \<Longrightarrow> distinct (frame_list i k)"
proof -
  assume k: "k < 2 ^ 64"
  have "x = y" if "x < k" "y < k" "of_nat x = (of_nat y :: u64)" for x y
    using that k of_nat_less_len [of x] of_nat_less_len [of y] by (metis less_trans)
  then show ?thesis by (auto simp: distinct_map intro: inj_onI)
qed

lemma boot_demo_map: "boot_map (rng 0x500 64) boot_mem 0x500 [0x518]"
proof -
  have "region_frames boot_mem 0x518 = frame_list 0 16"
    by (simp only: region_frames_def) (simp add: boot_demo_loads)
  then have "distinct (concat (map (region_frames boot_mem) [0x518]))"
    by (simp only: list.map concat.simps append_Nil2) (rule frame_list_distinct, simp)
  moreover have "phys_region boot_mem 0x518" by (simp add: phys_region_def boot_demo_loads)
  ultimately show ?thesis
    using boot_demo_tags unfolding boot_map_def by (simp add: boot_demo_loads)
qed

lemma boot_demo_sizes:
  "boot_pages boot_mem [0x518] = 16" "boot_bsize boot_mem [0x518] = 2" "page_up 0x1800 = 0x2000"
  "placement boot_mem 0x2000 0x518 = 0x2000" "fits boot_mem 0x2000 2 0x518"
proof -
  show "boot_pages boot_mem [0x518] = 16"
    by (simp add: boot_pages_def usable_top_def boot_demo_loads BITMAP_MAX_PAGES_def)
  then show "boot_bsize boot_mem [0x518] = 2" by (simp add: boot_bsize_def)
  show "page_up 0x1800 = 0x2000" by (simp add: page_up_def)
  show "placement boot_mem 0x2000 0x518 = 0x2000"
    by (simp add: placement_def page_up_def boot_demo_loads)
  then show "fits boot_mem 0x2000 2 0x518" by (simp add: fits_def boot_demo_loads)
qed

theorem pmm_init_correct_witness:
  "\<exists>s'. pmm_init 0x1800 0x36D76289 0x500 boot_demo = Some s' \<and> pmm_inv s' \<and> bitmap s' = 0x2000"
proof -
  have "find (fits boot_mem (page_up 0x1800) (boot_bsize boot_mem [0x518])) [0x518] = Some 0x518"
    by (simp add: boot_demo_sizes)
  moreover have "rng 0x2000 2 \<inter> rng 0x500 64 = {}" by (rule disj_rng_Int) (simp add: disj_rng_def)
  ultimately obtain s' where "pmm_init 0x1800 0x36D76289 0x500 boot_demo = Some s'" "pmm_inv s'"
      "bitmap s' = placement boot_mem (page_up 0x1800) 0x518"
    using pmm_init_correct [OF boot_demo_map, of "0x1800" "0x518"] by (auto simp: boot_demo_sizes)
  then show ?thesis by (auto simp: boot_demo_sizes)
qed

end
