(* ===== verification/Slab.thy ===== *)
theory Slab
  imports Pmm
begin

text \<open>
  The slab allocator, \<open>mm/slab.c\<close>.  A slab is one page: its header (\<open>slab_header_t\<close>) and its objects
  are bytes of the physical memory, read and written at the offsets of the C structure.  The cache
  descriptors (\<open>slab_cache_t\<close>) are typed objects, keyed by their address.
\<close>

section \<open>State\<close>

record slab_cache =
  c_name :: u64
  c_obj_size :: u64
  c_align :: u64
  c_partial :: u64
  c_full :: u64
  c_num_allocs :: u64
  c_num_frees :: u64
  c_num_slabs :: u64

record slab_state = pmm +
  slab_caches :: "u64 \<Rightarrow> slab_cache"
  size_caches :: u64
  caches :: "u64 list"
  num_caches :: nat

abbreviation SLAB_MAGIC :: u32 where
  "SLAB_MAGIC \<equiv> 0x5AB0BEEF"

abbreviation MAX_CACHES :: nat where
  "MAX_CACHES \<equiv> 32"

text \<open>\<open>sizeof(slab_header_t)\<close> is 56 and \<open>sizeof(slab_cache_t)\<close> is 64.\<close>

definition hd_magic :: "mem \<Rightarrow> u64 \<Rightarrow> u32" where
  "hd_magic m p = load32 m p"

definition hd_obj_size :: "mem \<Rightarrow> u64 \<Rightarrow> u32" where
  "hd_obj_size m p = load32 m (p + 4)"

definition hd_total :: "mem \<Rightarrow> u64 \<Rightarrow> u32" where
  "hd_total m p = load32 m (p + 8)"

definition hd_free :: "mem \<Rightarrow> u64 \<Rightarrow> u32" where
  "hd_free m p = load32 m (p + 12)"

definition hd_bitmap :: "u64 \<Rightarrow> u64" where
  "hd_bitmap p = p + 16"

definition hd_next :: "mem \<Rightarrow> u64 \<Rightarrow> u64" where
  "hd_next m p = load64 m (p + 48)"

section \<open>Slabs\<close>

definition bitmap_word :: "u64 \<Rightarrow> nat \<Rightarrow> u64" where
  "bitmap_word bm idx = bm + 8 * of_nat (idx div 64)"

definition bitmap_set :: "u64 \<Rightarrow> nat \<Rightarrow> mem \<Rightarrow> mem" where
  "bitmap_set bm idx m = store64 m (bitmap_word bm idx)
     (load64 m (bitmap_word bm idx) OR push_bit (idx mod 64) 1)"

definition bitmap_clear :: "u64 \<Rightarrow> nat \<Rightarrow> mem \<Rightarrow> mem" where
  "bitmap_clear bm idx m = store64 m (bitmap_word bm idx)
     (load64 m (bitmap_word bm idx) AND NOT (push_bit (idx mod 64) 1))"

definition bitmap_test :: "u64 \<Rightarrow> nat \<Rightarrow> mem \<Rightarrow> bool" where
  "bitmap_test bm idx m \<longleftrightarrow> drop_bit (idx mod 64) (load64 m (bitmap_word bm idx)) AND 1 \<noteq> 0"

text \<open>A negative index of the C code is \<open>None\<close>.\<close>

definition bitmap_find_free :: "u64 \<Rightarrow> nat \<Rightarrow> mem \<Rightarrow> nat option" where
  "bitmap_find_free bm n m = find (\<lambda>i. \<not> bitmap_test bm i m) [0..<n]"

definition slab_header_init :: "u64 \<Rightarrow> u64 \<Rightarrow> mem \<Rightarrow> mem" where
  "slab_header_init obj_size slab m =
     (let m = kmemset m slab 0 56;
          m = store32 m slab SLAB_MAGIC;
          m = store32 m (slab + 4) (ucast obj_size);
          total = ucast ((PAGE_SIZE - 56) div obj_size) :: u32;
          m = store32 m (slab + 8) total;
          m = (if total > 256 then store32 m (slab + 8) 256 else m);
          m = store32 m (slab + 12) (hd_total m slab);
          m = store64 m (slab + 48) 0
      in kmemset m (hd_bitmap slab) 0 32)"

definition slab_create :: "u64 \<Rightarrow> 'a pmm_scheme \<Rightarrow> u64 \<times> 'a pmm_scheme" where
  "slab_create obj_size s =
     (let (page, s) = pmm_alloc s in
      if page = 0 then (0, s)
      else (page, s\<lparr>memory := slab_header_init obj_size page (memory s)\<rparr>))"

definition slab_get_obj :: "mem \<Rightarrow> u64 \<Rightarrow> nat \<Rightarrow> u64" where
  "slab_get_obj m slab idx = slab + 56 + ucast (of_nat idx * hd_obj_size m slab)"

definition slab_find_obj_idx :: "mem \<Rightarrow> u64 \<Rightarrow> u64 \<Rightarrow> nat option" where
  "slab_find_obj_idx m slab p =
     (let base = slab + 56 in
      if p < base then None else
      let offset = p - base; osz = ucast (hd_obj_size m slab) in
      if offset mod osz \<noteq> 0 then None else
      let idx = unat (offset div osz) in
      if int idx \<ge> sint (hd_total m slab) then None else Some idx)"

section \<open>Caches\<close>

definition get_cache :: "u64 \<Rightarrow> 'a slab_state_scheme \<Rightarrow> slab_cache" where
  "get_cache c s = slab_caches s c"

definition set_cache :: "u64 \<Rightarrow> (slab_cache \<Rightarrow> slab_cache) \<Rightarrow> 'a slab_state_scheme \<Rightarrow> 'a slab_state_scheme" where
  "set_cache c f s = s\<lparr>slab_caches := (slab_caches s)(c := f (slab_caches s c))\<rparr>"

text \<open>The loop \<open>while (prev && prev->next != slab) prev = prev->next\<close> and the removal around it.\<close>

partial_function (option) slab_find_prev :: "mem \<Rightarrow> u64 \<Rightarrow> u64 \<Rightarrow> u64 option" where
  "slab_find_prev m prev slab =
     (if prev \<noteq> 0 \<and> hd_next m prev \<noteq> slab then slab_find_prev m (hd_next m prev) slab
      else Some prev)"

definition slab_unlink :: "u64 \<Rightarrow> u64 \<Rightarrow> mem \<Rightarrow> (u64 \<times> mem) option" where
  "slab_unlink head slab m =
     (if head = slab then Some (hd_next m slab, m)
      else Option.bind (slab_find_prev m head slab) (\<lambda>prev.
        Some (head, if prev \<noteq> 0 then store64 m (prev + 48) (hd_next m slab) else m)))"

definition slab_grow :: "u64 \<Rightarrow> 'a slab_state_scheme \<Rightarrow> u64 \<times> 'a slab_state_scheme" where
  "slab_grow cache s =
     (let (slab, s) = slab_create (c_obj_size (get_cache cache s)) s in
      if slab = 0 then (0, s) else
      let s = s\<lparr>memory := store64 (memory s) (slab + 48) (c_partial (get_cache cache s))\<rparr>;
          s = set_cache cache (\<lambda>c. c\<lparr>c_partial := slab, c_num_slabs := c_num_slabs c + 1\<rparr>) s
      in (slab, s))"

definition mark_obj :: "u64 \<Rightarrow> nat \<Rightarrow> mem \<Rightarrow> mem" where
  "mark_obj slab idx m = (let m = bitmap_set (hd_bitmap slab) idx m in store32 m (slab + 12) (hd_free m slab - 1))"

definition unmark_obj :: "u64 \<Rightarrow> nat \<Rightarrow> mem \<Rightarrow> mem" where
  "unmark_obj slab idx m = (let m = bitmap_clear (hd_bitmap slab) idx m in store32 m (slab + 12) (hd_free m slab + 1))"

definition slab_take :: "u64 \<Rightarrow> u64 \<Rightarrow> nat \<Rightarrow> 'a slab_state_scheme \<Rightarrow> (u64 \<times> 'a slab_state_scheme) option" where
  "slab_take cache slab idx s =
     (let m = mark_obj slab idx (memory s);
          s = set_cache cache (\<lambda>c. c\<lparr>c_num_allocs := c_num_allocs c + 1\<rparr>) (s\<lparr>memory := m\<rparr>) in
      if hd_free m slab = 0 then
        Option.bind (slab_unlink (c_partial (get_cache cache s)) slab m) (\<lambda>(head, m).
        let m = store64 m (slab + 48) (c_full (get_cache cache s));
            s = set_cache cache (\<lambda>c. c\<lparr>c_partial := head, c_full := slab\<rparr>) (s\<lparr>memory := m\<rparr>)
        in Some (slab_get_obj m slab idx, s))
      else Some (slab_get_obj m slab idx, s))"

definition slab_alloc :: "u64 \<Rightarrow> 'a slab_state_scheme \<Rightarrow> (u64 \<times> 'a slab_state_scheme) option" where
  "slab_alloc cache s =
     (if cache = 0 then Some (0, s) else
      let slab = c_partial (get_cache cache s);
          (slab, s) = (if slab = 0 then slab_grow cache s else (slab, s)) in
      if slab = 0 then Some (0, s) else
      case bitmap_find_free (hd_bitmap slab) (nat (sint (hd_total (memory s) slab))) (memory s) of
        Some idx \<Rightarrow> slab_take cache slab idx s
      | None \<Rightarrow>
          let (slab, s) = slab_grow cache s in
          if slab = 0 then Some (0, s) else slab_take cache slab 0 s)"

text \<open>A slab that was full goes back to the partial list; an empty one is given back.\<close>

definition slab_relist :: "u64 \<Rightarrow> u64 \<Rightarrow> 'a slab_state_scheme \<Rightarrow> 'a slab_state_scheme option" where
  "slab_relist cache slab s =
     Option.bind (slab_unlink (c_full (get_cache cache s)) slab (memory s)) (\<lambda>(head, m).
     let m = store64 m (slab + 48) (c_partial (get_cache cache s))
     in Some (set_cache cache (\<lambda>c. c\<lparr>c_full := head, c_partial := slab\<rparr>) (s\<lparr>memory := m\<rparr>)))"

definition slab_shrink :: "u64 \<Rightarrow> u64 \<Rightarrow> 'a slab_state_scheme \<Rightarrow> 'a slab_state_scheme option" where
  "slab_shrink cache slab s =
     Option.bind (slab_unlink (c_partial (get_cache cache s)) slab (memory s)) (\<lambda>(head, m).
     Some (pmm_free slab (set_cache cache
       (\<lambda>c. c\<lparr>c_partial := head, c_num_slabs := c_num_slabs c - 1\<rparr>) (s\<lparr>memory := m\<rparr>))))"

definition slab_free :: "u64 \<Rightarrow> u64 \<Rightarrow> 'a slab_state_scheme \<Rightarrow> 'a slab_state_scheme option" where
  "slab_free cache ptr s =
     (if cache = 0 \<or> ptr = 0 then Some s else
      let slab = page_of ptr; m = memory s in
      if hd_magic m slab \<noteq> SLAB_MAGIC then Some s else
      case slab_find_obj_idx m slab ptr of None \<Rightarrow> Some s | Some idx \<Rightarrow>
      if \<not> bitmap_test (hd_bitmap slab) idx m then Some s else
      let was_full = (hd_free m slab = 0);
          s = set_cache cache (\<lambda>c. c\<lparr>c_num_frees := c_num_frees c + 1\<rparr>)
                (s\<lparr>memory := unmark_obj slab idx m\<rparr>) in
      Option.bind (if was_full then slab_relist cache slab s else Some s) (\<lambda>s.
      if hd_free (memory s) slab = hd_total (memory s) slab \<and> c_num_slabs (get_cache cache s) > 2
      then slab_shrink cache slab s else Some s))"

definition size_cache_addr :: "nat \<Rightarrow> 'a slab_state_scheme \<Rightarrow> u64" where
  "size_cache_addr i s = size_caches s + 64 * of_nat i"

definition slab_sizes :: "u64 list" where
  "slab_sizes = [16, 32, 64, 128, 256, 512, 1024, 2048]"

text \<open>\<open>names\<close> are the addresses of the string literals.\<close>

definition slab_init :: "u64 list \<Rightarrow> 'a slab_state_scheme \<Rightarrow> 'a slab_state_scheme" where
  "slab_init names s = fold (\<lambda>i s. set_cache (size_cache_addr i s)
     (\<lambda>_. \<lparr>c_name = names ! i, c_obj_size = slab_sizes ! i, c_align = 16, c_partial = 0, c_full = 0,
        c_num_allocs = 0, c_num_frees = 0, c_num_slabs = 0\<rparr>) s) [0..<8] s"

section \<open>The general allocator\<close>

text \<open>The loops \<open>for (j = 0; j < i; j++)\<close> and \<open>for (i = 1; i < pages; i++)\<close> of a large request.\<close>

function free_large :: "u64 \<Rightarrow> u64 \<Rightarrow> u64 \<Rightarrow> 'a pmm_scheme \<Rightarrow> 'a pmm_scheme" where
  "free_large ptr j i s =
     (if j < i then free_large ptr (j + 1) i (pmm_free (ptr + j * PAGE_SIZE) s) else s)"
  by pat_completeness auto
termination
  by (relation "measure (\<lambda>(ptr, j, i, s). unat i - unat j)")
    (auto simp: word_less_nat_alt unat_Suc_less intro!: diff_less_mono2)

declare free_large.simps [simp del]

function alloc_large :: "u64 \<Rightarrow> u64 \<Rightarrow> u64 \<Rightarrow> 'a pmm_scheme \<Rightarrow> u64 \<times> 'a pmm_scheme" where
  "alloc_large ptr i pages s =
     (if i < pages then
        let (p, s') = pmm_alloc s in
        if p = 0 then (0, free_large ptr 0 i s') else alloc_large ptr (i + 1) pages s'
      else (ptr, s))"
  by pat_completeness auto
termination
  by (relation "measure (\<lambda>(ptr, i, pages, s). unat pages - unat i)")
    (auto simp: word_less_nat_alt unat_Suc_less intro!: diff_less_mono2)

declare alloc_large.simps [simp del]

definition kmalloc_slab :: "u64 \<Rightarrow> 'a slab_state_scheme \<Rightarrow> (u64 \<times> 'a slab_state_scheme) option" where
  "kmalloc_slab sz s =
     (if sz = 0 then Some (0, s)
      else if sz > 2048 then
        let pages = (sz + PAGE_SIZE - 1) div PAGE_SIZE; (ptr, s) = pmm_alloc s in
        if ptr = 0 then Some (0, s) else Some (alloc_large ptr 1 pages s)
      else
        case find (\<lambda>i. sz \<le> c_obj_size (get_cache (size_cache_addr i s) s)) [0..<8] of
          Some i \<Rightarrow> slab_alloc (size_cache_addr i s) s
        | None \<Rightarrow> Some (0, s))"

definition kfree_slab :: "u64 \<Rightarrow> 'a slab_state_scheme \<Rightarrow> 'a slab_state_scheme option" where
  "kfree_slab ptr s =
     (if ptr = 0 then Some s else
      let slab = page_of ptr; osz = ucast (hd_obj_size (memory s) slab) in
      if hd_magic (memory s) slab \<noteq> SLAB_MAGIC then Some (pmm_free ptr s) else
      case find (\<lambda>i. c_obj_size (get_cache (size_cache_addr i s) s) = osz) [0..<8] of
        Some i \<Rightarrow> slab_free (size_cache_addr i s) ptr s
      | None \<Rightarrow>
          (case find (\<lambda>c. c_obj_size (get_cache c s) = osz) (take (num_caches s) (caches s)) of
             Some c \<Rightarrow> slab_free c ptr s
           | None \<Rightarrow> Some s))"

definition slab_cache_create ::
  "u64 \<Rightarrow> u64 \<Rightarrow> u64 \<Rightarrow> 'a slab_state_scheme \<Rightarrow> (u64 \<times> 'a slab_state_scheme) option" where
  "slab_cache_create name sz align s =
     (if num_caches s \<ge> MAX_CACHES then Some (0, s)
      else if sz = 0 \<or> sz > PAGE_SIZE div 2 then Some (0, s) else
      let aligned_size = (sz + align - 1) AND NOT (align - 1);
          aligned_size = (if aligned_size < 16 then 16 else aligned_size) in
      Option.bind (kmalloc_slab 64 s) (\<lambda>(cache, s).
      if cache = 0 then Some (0, s) else
      let s = set_cache cache (\<lambda>_. \<lparr>c_name = name, c_obj_size = aligned_size, c_align = align,
            c_partial = 0, c_full = 0, c_num_allocs = 0, c_num_frees = 0, c_num_slabs = 0\<rparr>) s
      in Some (cache, s\<lparr>caches := (caches s)[num_caches s := cache], num_caches := num_caches s + 1\<rparr>)))"

partial_function (option) slab_free_list :: "u64 \<Rightarrow> 'a pmm_scheme \<Rightarrow> 'a pmm_scheme option" where
  "slab_free_list slab s =
     (if slab \<noteq> 0 then slab_free_list (hd_next (memory s) slab) (pmm_free slab s) else Some s)"

definition slab_cache_destroy :: "u64 \<Rightarrow> 'a slab_state_scheme \<Rightarrow> 'a slab_state_scheme option" where
  "slab_cache_destroy cache s =
     (if cache = 0 then Some s else
      Option.bind (slab_free_list (c_partial (get_cache cache s)) s) (\<lambda>s.
      Option.bind (slab_free_list (c_full (get_cache cache s)) s) (\<lambda>s.
      let s = (case find (\<lambda>i. caches s ! i = cache) [0..<num_caches s] of
                 Some i \<Rightarrow> s\<lparr>num_caches := num_caches s - 1,
                             caches := (caches s)[i := caches s ! (num_caches s - 1)]\<rparr>
               | None \<Rightarrow> s)
      in kfree_slab cache s)))"

end
