(* ===== verification/Frames.thy ===== *)
theory Frames
  imports Pmm
begin

text \<open>
  The frame allocator as its clients see it: pages in use, what a step of one client leaves alone, and
  the interface \<open>frame_allocator\<close> that the slab allocator, the page tables and the process table
  build on, with its interpretation by \<open>pmm_alloc\<close> and \<open>pmm_free\<close>.
\<close>

section \<open>Pages in use\<close>

text \<open>A page in use: aligned, allocated, and apart from the frame bitmap.\<close>

definition own_page :: "'a pmm_scheme \<Rightarrow> u64 \<Rightarrow> bool" where
  "own_page s p \<longleftrightarrow> p \<noteq> 0 \<and> page_of p = p \<and> p div PAGE_SIZE < total_pages s
     \<and> bm_test (p div PAGE_SIZE) s \<and> (\<forall>a. page_of a = p \<longrightarrow> \<not> in_bitmap a s)"

text \<open>What a step leaves alone: the pages in use outside \<open>X\<close>.\<close>

definition own_frame :: "u64 set \<Rightarrow> 'a pmm_scheme \<Rightarrow> 'a pmm_scheme \<Rightarrow> bool" where
  "own_frame X s s' \<longleftrightarrow> (\<forall>q. own_page s q \<longrightarrow> q \<notin> X \<longrightarrow>
     own_page s' q \<and> agree (rng q 4096) (memory s') (memory s))"

lemma own_frame_refl: "own_frame X s s"
  by (simp add: own_frame_def agree_def)

lemma own_frame_trans:
  "own_frame X s s' \<Longrightarrow> own_frame Y s' s'' \<Longrightarrow> own_frame (X \<union> Y) s s''"
  by (auto simp: own_frame_def intro: agree_trans)

lemma agree_sub: "agree (rng q n) m m' \<Longrightarrow> unat k \<le> unat n \<Longrightarrow> agree (rng q k) m m'"
  by (auto simp: agree_def word_less_nat_alt)

lemma page_step:
  assumes inv: "pmm_inv s" and X: "\<forall>p \<in> X. own_page s p"
    and fields: "bitmap s' = bitmap s" "total_pages s' = total_pages s" "free_pages s' = free_pages s"
      "bitmap_size s' = bitmap_size s"
    and only: "\<forall>a. page_of a \<notin> X \<longrightarrow> memory s' a = memory s a"
  shows "pmm_same s s'" "own_frame X s s'" "own_page s' q = own_page s q"
proof -
  have same: "pmm_same s s'"
    using fields only X by (auto simp: pmm_same_def own_page_def)
  then show "pmm_same s s'" .
  have page: "own_page s' q = own_page s q" for q
    using pmm_same_test [OF inv same] fields by (auto simp: own_page_def in_bitmap_def)
  then show "own_page s' q = own_page s q" .
  have "agree (rng q 4096) (memory s') (memory s)" if "own_page s q" "q \<notin> X" for q
  proof (rule agreeI)
    fix a assume "a \<in> rng q 4096"
    then have "page_of a = q" using that(1) rng_page [of q a] by (simp add: own_page_def)
    then show "memory s' a = memory s a" using only that(2) by simp
  qed
  then show "own_frame X s s'" unfolding own_frame_def page by simp
qed

lemma page_of_frame:
  assumes "page_of a = f * PAGE_SIZE" "unat (f * PAGE_SIZE) = unat f * 4096"
  shows "a div PAGE_SIZE = f"
proof -
  have "unat a div 4096 * 4096 = unat f * 4096" using assms page_of_div [of a] by simp
  then show ?thesis by (simp add: word_unat_eq_iff unat_div)
qed

lemma own_page_claim:
  assumes pmm: "pmm_inv s" and f: "f \<in> free_frames s"
  shows "own_page (claim_frame f s) (f * PAGE_SIZE)" "\<not> own_page s (f * PAGE_SIZE)"
    "own_frame {} s (claim_frame f s)"
proof -
  note D = free_framesD [OF pmm f]
  have addr: "unat (f * PAGE_SIZE) = unat f * 4096"
    using frame_addr(1) [OF D(1)] pmm by (simp add: pmm_inv_def)
  have "\<not> in_bitmap a s" if "page_of a = f * PAGE_SIZE" for a
    using page_of_frame [OF that addr] f by (intro free_not_in_bitmap [OF pmm]) simp
  then show "own_page (claim_frame f s) (f * PAGE_SIZE)"
    using D by (simp add: own_page_def in_bitmap_def claim_frame_def mem_simps)
  show "\<not> own_page s (f * PAGE_SIZE)" using D f by (simp add: own_page_def free_frames_def)
  have "agree (rng q 4096) (memory (claim_frame f s)) (memory s)" if "own_page s q" for q
  proof (rule agreeI)
    fix a assume "a \<in> rng q 4096"
    then have "\<not> in_bitmap a s" using that rng_page [of q a] by (auto simp: own_page_def)
    then show "memory (claim_frame f s) a = memory s a" by (rule claim_frame_memory [OF pmm D(1)])
  qed
  moreover have "own_page (claim_frame f s) q" if "own_page s q" for q
    using that by (simp add: own_page_def in_bitmap_def) (simp add: claim_frame_def mem_simps)
  ultimately show "own_frame {} s (claim_frame f s)" by (simp add: own_frame_def)
qed

lemma own_frame_new:
  assumes "own_frame {} s s'" "own_frame {p} s' s''" "\<not> own_page s p"
  shows "own_frame {} s s''"
proof -
  have "own_page s'' q \<and> agree (rng q 4096) (memory s'') (memory s)" if "own_page s q" for q
  proof -
    have "q \<noteq> p" using that assms(3) by auto
    then show ?thesis
      using assms(1,2) that unfolding own_frame_def by (blast intro: agree_trans)
  qed
  then show ?thesis by (simp add: own_frame_def)
qed

lemma own_page_frame:
  assumes "own_page s p"
  shows "p div PAGE_SIZE \<noteq> 0" "k < bitmap_size s \<Longrightarrow> (bitmap s + k) div PAGE_SIZE \<noteq> p div PAGE_SIZE"
proof -
  have p: "unat p = unat p div 4096 * 4096" "p \<noteq> 0" "page_of p = p"
    using assms page_of_div [of p] by (simp_all add: own_page_def)
  have "unat (p div PAGE_SIZE) = unat p div 4096" by (simp add: unat_div)
  then show "p div PAGE_SIZE \<noteq> 0" using p by (metis mult_eq_0_iff unat_0 unat_eq_0)
  assume "k < bitmap_size s"
  then have "in_bitmap (bitmap s + k) s" by (simp add: in_bitmap_def)
  then have "page_of (bitmap s + k) \<noteq> page_of p" using assms p(3) by (auto simp: own_page_def)
  then show "(bitmap s + k) div PAGE_SIZE \<noteq> p div PAGE_SIZE"
    by (auto dest!: arg_cong [of _ _ unat] simp: page_of_eq_iff unat_div)
qed

lemma frame_eq_iff: "a div PAGE_SIZE = b div PAGE_SIZE \<longleftrightarrow> page_of a = page_of b"
  unfolding page_of_eq_iff by (simp add: word_unat_eq_iff unat_div)

lemma own_frame_free:
  assumes pmm: "pmm_inv s" and p: "page_of p = p"
  shows "own_frame {p} s (pmm_free p s)"
proof -
  have "own_page (pmm_free p s) q \<and> agree (rng q 4096) (memory (pmm_free p s)) (memory s)"
    if q: "own_page s q" "q \<noteq> p" for q
  proof
    have "q div PAGE_SIZE \<noteq> p div PAGE_SIZE" using q p by (simp add: frame_eq_iff own_page_def)
    then have "bm_test (q div PAGE_SIZE) (pmm_free p s)"
      using q by (simp add: pmm_free_def Let_def mem_simps own_page_def)
    then show "own_page (pmm_free p s) q" using q by (simp add: own_page_def in_bitmap_def)
    show "agree (rng q 4096) (memory (pmm_free p s)) (memory s)"
      using q rng_page [of q] by (intro agreeI pmm_free_memory [OF pmm]) (auto simp: own_page_def)
  qed
  then show ?thesis by (simp add: own_frame_def)
qed


section \<open>The interface\<close>

text \<open>
  \<open>own\<close> are the pages in use.  An allocation adds one page that was not in use, a release takes out
  at most the page it names, and both keep the bytes of all other pages in use; a client may write to
  its pages.
\<close>

locale frame_allocator =
  fixes alloc :: "'s \<Rightarrow> u64 \<times> 's" and free :: "u64 \<Rightarrow> 's \<Rightarrow> 's"
    and inv :: "'s \<Rightarrow> bool" and own :: "'s \<Rightarrow> u64 \<Rightarrow> bool"
    and mem_of :: "'s \<Rightarrow> mem" and set_mem :: "mem \<Rightarrow> 's \<Rightarrow> 's"
  assumes alloc_null: "\<lbrakk>inv s; alloc s = (0, s')\<rbrakk> \<Longrightarrow> s' = s"
    and alloc_own: "\<lbrakk>inv s; alloc s = (p, s'); p \<noteq> 0\<rbrakk> \<Longrightarrow> inv s' \<and> own s' p \<and> \<not> own s p"
    and alloc_keep: "\<lbrakk>inv s; alloc s = (p, s'); own s q\<rbrakk>
      \<Longrightarrow> own s' q \<and> agree (rng q 4096) (mem_of s') (mem_of s)"
    and free_inv: "\<lbrakk>inv s; own s p\<rbrakk> \<Longrightarrow> inv (free p s)"
    and free_keep: "\<lbrakk>inv s; own s p; own s q; q \<noteq> p\<rbrakk>
      \<Longrightarrow> own (free p s) q \<and> agree (rng q 4096) (mem_of (free p s)) (mem_of s)"
    and own_aligned: "own s p \<Longrightarrow> p \<noteq> 0 \<and> page_of p = p"
    and write_own: "\<lbrakk>inv s; own s p; \<forall>a. page_of a \<noteq> p \<longrightarrow> m a = mem_of s a\<rbrakk>
      \<Longrightarrow> inv (set_mem m s) \<and> (\<forall>q. own (set_mem m s) q = own s q)"
    and mem_set: "mem_of (set_mem m s) = m"
begin

lemma write_keep:
  assumes "inv s" "own s q" "q \<noteq> p" "\<forall>a. page_of a \<noteq> p \<longrightarrow> m a = mem_of s a"
  shows "agree (rng q 4096) m (mem_of s)"
  using assms own_aligned [OF assms(2)] by (intro page_disj_agree [of p]) auto

text \<open>A page that is allocated and cleared.\<close>

lemma alloc_zero:
  assumes inv: "inv s" and alloc: "alloc s = (p, s')" and p: "p \<noteq> 0"
  defines "s'' \<equiv> set_mem (kmemset (mem_of s') p 0 4096) s'"
  shows "inv s''" "own s'' p" "\<not> own s p" "page_of a = p \<Longrightarrow> mem_of s'' a = 0"
    "own s q \<Longrightarrow> own s'' q \<and> q \<noteq> p \<and> agree (rng q 4096) (mem_of s'') (mem_of s)"
proof -
  have new: "inv s'" "own s' p" "\<not> own s p" using alloc_own [OF inv alloc p] by simp_all
  have page: "page_of p = p" using own_aligned [OF new(2)] by simp
  have bytes: "kmemset (mem_of s') p 0 4096 a = (if page_of a = p then 0 else mem_of s' a)" for a
    using rng_page [OF page, of a] by (auto simp: kmemset_apply)
  then have only: "\<forall>a. page_of a \<noteq> p \<longrightarrow> kmemset (mem_of s') p 0 4096 a = mem_of s' a" by simp
  note w = write_own [OF new(1,2) only]
  show "inv s''" "own s'' p" "\<not> own s p" using w new by (simp_all add: s''_def)
  show "page_of a = p \<Longrightarrow> mem_of s'' a = 0" by (simp add: s''_def mem_set bytes)
  assume q: "own s q"
  then have "q \<noteq> p" using new(3) by auto
  have k: "own s' q" "agree (rng q 4096) (mem_of s') (mem_of s)" using alloc_keep [OF inv alloc q] by simp_all
  have "agree (rng q 4096) (mem_of s'') (mem_of s')"
    using write_keep [OF new(1) k(1) \<open>q \<noteq> p\<close> only] by (simp add: s''_def mem_set)
  with k w \<open>q \<noteq> p\<close> show "own s'' q \<and> q \<noteq> p \<and> agree (rng q 4096) (mem_of s'') (mem_of s)"
    by (auto simp: s''_def intro: agree_trans)
qed

end

interpretation fa: frame_allocator pmm_alloc pmm_free pmm_inv own_page memory "\<lambda>m s. s\<lparr>memory := m\<rparr>"
proof
  fix s s' :: "'a pmm_scheme" and p q m
  note first = pmm_alloc_first [of s]
  show "s' = s" if "pmm_inv s" "pmm_alloc s = (0, s')"
  proof (cases "free_frames s = {}")
    case False
    then have "Min (free_frames s) \<in> free_frames s" by simp
    from free_framesD(2) [OF that(1) this] that(2) False show ?thesis by (simp add: first)
  qed (use that in \<open>simp add: first\<close>)
  have claim: "\<exists>f \<in> free_frames s. p = f * PAGE_SIZE \<and> s' = claim_frame f s"
    if "pmm_alloc s = (p, s')" "s' \<noteq> s \<or> p \<noteq> 0"
  proof -
    have "free_frames s \<noteq> {}" using that by (auto simp: first)
    then show ?thesis using that(1) by (intro bexI [of _ "Min (free_frames s)"]) (auto simp: first)
  qed
  show "pmm_inv s' \<and> own_page s' p \<and> \<not> own_page s p" if "pmm_inv s" "pmm_alloc s = (p, s')" "p \<noteq> 0"
    using claim [OF that(2)] that(1,3) own_page_claim [OF that(1)] pmm_inv_claim by auto
  show "own_page s' q \<and> agree (rng q 4096) (memory s') (memory s)"
    if "pmm_inv s" "pmm_alloc s = (p, s')" "own_page s q"
  proof (cases "s' = s")
    case False
    then show ?thesis
      using claim [OF that(2)] own_page_claim(3) [OF that(1)] that(3) by (auto simp: own_frame_def)
  qed (use that in \<open>simp add: agree_def\<close>)
  show "pmm_inv (pmm_free p s)" if "pmm_inv s" "own_page s p"
    using own_page_frame [OF that(2)] by (intro pmm_inv_free [OF that(1)]) auto
  show "own_page (pmm_free p s) q \<and> agree (rng q 4096) (memory (pmm_free p s)) (memory s)"
    if "pmm_inv s" "own_page s p" "own_page s q" "q \<noteq> p"
    using own_frame_free [OF that(1), of p] that by (auto simp: own_frame_def own_page_def)
  show "p \<noteq> 0 \<and> page_of p = p" if "own_page s p" using that by (simp add: own_page_def)
  show "pmm_inv (s\<lparr>memory := m\<rparr>) \<and> (\<forall>q. own_page (s\<lparr>memory := m\<rparr>) q = own_page s q)"
    if "pmm_inv s" "own_page s p" "\<forall>a. page_of a \<noteq> p \<longrightarrow> m a = memory s a"
    using page_step [OF that(1), of "{p}" "s\<lparr>memory := m\<rparr>"] that pmm_same_inv(1) [OF that(1)] by simp
qed simp

end
