(* ===== verification/SlabInv.thy ===== *)
theory SlabInv
  imports Slab Frames
begin

text \<open>
  The slab allocator is correct: slab headers, the object layout of a page, the invariant of a cache
  (its two linked lists of slabs, and the free counts), and allocation and release of objects.
\<close>

section \<open>Slab headers\<close>

lemmas hd_defs = hd_magic_def hd_obj_size_def hd_total_def hd_free_def hd_next_def hd_bitmap_def

lemma load_zero:
  "(\<And>x. x \<in> rng a 4 \<Longrightarrow> m x = 0) \<Longrightarrow> load32 m a = 0"
  "(\<And>x. x \<in> rng a 8 \<Longrightarrow> m x = 0) \<Longrightarrow> load64 m a = 0"
proof -
  assume "\<And>x. x \<in> rng a 4 \<Longrightarrow> m x = 0"
  then have "load32 m a = load32 (\<lambda>_. 0) a" by (intro load32_cong) auto
  then show "load32 m a = 0" by (simp add: load32_bytes)
next
  assume "\<And>x. x \<in> rng a 8 \<Longrightarrow> m x = 0"
  then have "load64 m a = load64 (\<lambda>_. 0) a" by (intro load64_cong) auto
  then show "load64 m a = 0" by (simp add: load64_bytes)
qed

text \<open>A header depends on the first 48 bytes of its page, the list link on the next eight.\<close>

lemma bitmap_word_off:
  assumes "i < 256"
  obtains "bitmap_word bm i = bm" "i div 64 = 0" | "bitmap_word bm i = bm + 8" "i div 64 = 1"
    | "bitmap_word bm i = bm + 16" "i div 64 = 2" | "bitmap_word bm i = bm + 24" "i div 64 = 3"
proof -
  have "i div 64 < 4" using assms by (simp add: less_mult_imp_div_less)
  then consider "i div 64 = 0" | "i div 64 = 1" | "i div 64 = 2" | "i div 64 = 3" by linarith
  then show ?thesis by cases (auto simp: bitmap_word_def intro: that)
qed

lemma hd_agree:
  assumes "agree (rng p 48) m m'"
  shows "hd_magic m p = hd_magic m' p" "hd_obj_size m p = hd_obj_size m' p"
    "hd_total m p = hd_total m' p" "hd_free m p = hd_free m' p"
    "i < 256 \<Longrightarrow> bitmap_test (hd_bitmap p) i m = bitmap_test (hd_bitmap p) i m'"
proof -
  note l32 = agree_load32 [OF assms order_refl]
  show "hd_magic m p = hd_magic m' p" "hd_obj_size m p = hd_obj_size m' p"
    "hd_total m p = hd_total m' p" "hd_free m p = hd_free m' p"
    using l32 [of 0] l32 [of 4] l32 [of 8] l32 [of 12] by (simp_all add: hd_defs)
  note l64 = agree_load64 [OF assms order_refl]
  assume "i < 256"
  then have "load64 m (bitmap_word (hd_bitmap p) i) = load64 m' (bitmap_word (hd_bitmap p) i)"
    using l64 [of 16] l64 [of 24] l64 [of 32] l64 [of 40]
    by (cases rule: bitmap_word_off [of i "hd_bitmap p"]) (simp_all add: hd_bitmap_def add.assoc)
  then show "bitmap_test (hd_bitmap p) i m = bitmap_test (hd_bitmap p) i m'"
    by (simp add: bitmap_test_def)
qed

lemma hd_next_agree: "agree (rng p 56) m m' \<Longrightarrow> hd_next m p = hd_next m' p"
  using agree_load64 [of "rng p 56" m m' p 56 48] by (simp add: hd_next_def)

lemma bitmap_test_bit:
  "bitmap_test bm i m \<longleftrightarrow> bit (load64 m (bitmap_word bm i)) (i mod 64)"
  by (simp add: bitmap_test_def and_one_eq bit_iff_odd_drop_bit odd_iff_mod_2_eq_one)

lemma bitmap_word_disj:
  assumes "i < 256" "j < 256" "i div 64 \<noteq> j div 64"
  shows "disj_rng (bitmap_word bm i) 8 (bitmap_word bm j) 8"
proof -
  have "disj_rng (bm + 8 * of_nat a) 8 (bm + 8 * of_nat b) 8" if "a < 4" "b < 4" "a \<noteq> b" for a b :: nat
  proof -
    have "a \<in> {0, 1, 2, 3}" "b \<in> {0, 1, 2, 3}" using that by auto
    then show ?thesis using that(3) by (auto simp: disj_rng_def)
  qed
  then show ?thesis using assms by (simp add: bitmap_word_def less_mult_imp_div_less)
qed

lemma bitmap_word_cong: "i div 64 = j div 64 \<Longrightarrow> bitmap_word bm i = bitmap_word bm j"
  by (simp add: bitmap_word_def)

lemma bit_eq_div_mod: "i = j \<longleftrightarrow> i div 64 = j div 64 \<and> i mod 64 = j mod 64" for i j :: nat
  by (metis div_mult_mod_eq)

lemma bitmap_test_set:
  assumes "i < 256" "j < 256"
  shows "bitmap_test bm j (bitmap_set bm i m) \<longleftrightarrow> i = j \<or> bitmap_test bm j m"
proof (cases "i div 64 = j div 64")
  case True
  then show ?thesis
    using bit_eq_div_mod [of i j] bitmap_word_cong [OF True, of bm]
    by (auto simp: bitmap_test_bit bitmap_set_def mem_simps bit_simps)
next
  case False
  then show ?thesis
    using bitmap_word_disj [OF assms False]
    by (auto simp: bitmap_test_bit bitmap_set_def load_store_other)
qed

lemma bitmap_test_clear:
  assumes "i < 256" "j < 256"
  shows "bitmap_test bm j (bitmap_clear bm i m) \<longleftrightarrow> i \<noteq> j \<and> bitmap_test bm j m"
proof (cases "i div 64 = j div 64")
  case True
  then show ?thesis
    using bit_eq_div_mod [of i j] bitmap_word_cong [OF True, of bm]
    by (auto simp: bitmap_test_bit bitmap_clear_def mem_simps bit_simps)
next
  case False
  then show ?thesis
    using bitmap_word_disj [OF assms False]
    by (auto simp: bitmap_test_bit bitmap_clear_def load_store_other)
qed

section \<open>A new slab\<close>

definition slab_capacity :: "u64 \<Rightarrow> u32" where
  "slab_capacity osz = (if ucast ((PAGE_SIZE - 56) div osz) > (256 :: u32) then 256
     else ucast ((PAGE_SIZE - 56) div osz))"

definition slab_ok :: "u64 \<Rightarrow> mem \<Rightarrow> u64 \<Rightarrow> bool" where
  "slab_ok osz m p \<longleftrightarrow> hd_magic m p = SLAB_MAGIC \<and> hd_obj_size m p = ucast osz
     \<and> hd_total m p = slab_capacity osz
     \<and> unat (hd_free m p) = card {i. i < unat (slab_capacity osz) \<and> \<not> bitmap_test (hd_bitmap p) i m}"

definition obj_size_ok :: "u64 \<Rightarrow> bool" where
  "obj_size_ok osz \<longleftrightarrow> 16 \<le> osz \<and> osz \<le> 2048"

lemma slab_capacity_nat:
  assumes "obj_size_ok osz"
  shows "unat (slab_capacity osz) = min 256 (4040 div unat osz)"
proof -
  have "16 \<le> unat osz" using assms by (simp add: obj_size_ok_def word_le_nat_alt)
  then have "4040 div unat osz \<le> 4040" by simp
  then have "4040 div unat osz < 2 ^ 32" by (rule le_less_trans) simp
  then have "unat (ucast ((PAGE_SIZE - 56) div osz) :: u32) = 4040 div unat osz"
    by (simp add: unsigned_ucast_eq unat_div take_bit_nat_eq_self)
  then show ?thesis by (simp add: slab_capacity_def word_less_nat_alt)
qed

lemma slab_capacity_bounds:
  assumes "obj_size_ok osz"
  shows "0 < unat (slab_capacity osz)" "unat (slab_capacity osz) \<le> 256"
    "i < unat (slab_capacity osz) \<Longrightarrow> (i + 1) * unat osz \<le> 4040"
proof -
  have osz: "16 \<le> unat osz" "unat osz \<le> 2048"
    using assms by (simp_all add: obj_size_ok_def word_le_nat_alt)
  then have "0 < 4040 div unat osz" by (simp add: div_greater_zero_iff)
  then show "0 < unat (slab_capacity osz)" "unat (slab_capacity osz) \<le> 256"
    by (simp_all add: slab_capacity_nat assms)
  assume "i < unat (slab_capacity osz)"
  then have "i + 1 \<le> 4040 div unat osz" by (simp add: slab_capacity_nat assms)
  then have "(i + 1) * unat osz \<le> 4040 div unat osz * unat osz" by (rule mult_le_mono1)
  also have "\<dots> \<le> 4040" by simp
  finally show "(i + 1) * unat osz \<le> 4040" .
qed

lemma kmemset_far:
  "disj_rng d n b k \<Longrightarrow> agree (rng b k) (kmemset m d v n) m"
  using disj_rng_far [of d n b k "x - b" for x] by (force simp: agree_def kmemset_apply not_le [symmetric])

lemma load_kmemset_other:
  "disj_rng d n b 4 \<Longrightarrow> load32 (kmemset m d v n) b = load32 m b"
  "disj_rng d n b 8 \<Longrightarrow> load64 (kmemset m d v n) b = load64 m b"
  using agree_load32 [OF kmemset_far order_refl, of d n b 4 0 m v]
    agree_load64 [OF kmemset_far order_refl, of d n b 8 0 m v] by simp_all

lemma load64_kmemset_zero:
  assumes "unat i + 8 \<le> unat n"
  shows "load64 (kmemset m d 0 n) (d + i) = 0"
  using rng_sub [OF order_refl, of i 8 n d] assms by (intro load_zero) (auto simp: kmemset_apply)

lemma header_init_fields:
  "hd_magic (slab_header_init osz p m) p = SLAB_MAGIC"
  "hd_obj_size (slab_header_init osz p m) p = ucast osz"
  "hd_total (slab_header_init osz p m) p = slab_capacity osz"
  "hd_free (slab_header_init osz p m) p = slab_capacity osz"
  "hd_next (slab_header_init osz p m) p = 0"
  by (simp_all add: slab_header_init_def Let_def hd_defs slab_capacity_def mem_simps
      load_store_other load_kmemset_other disj_rng_def)

lemma header_init_bitmap:
  assumes "i < 256"
  shows "\<not> bitmap_test (hd_bitmap p) i (slab_header_init osz p m)"
proof -
  have "load64 (kmemset m' b 0 32) (bitmap_word b i) = 0" for m' b
    using assms load64_kmemset_zero [of 0 32] load64_kmemset_zero [of 8 32]
      load64_kmemset_zero [of 16 32] load64_kmemset_zero [of 24 32]
    by (cases rule: bitmap_word_off [of i b]) simp_all
  then show ?thesis by (simp add: bitmap_test_def slab_header_init_def Let_def)
qed

lemma header_init_outside: "a \<notin> rng p 56 \<Longrightarrow> slab_header_init osz p m a = m a"
proof -
  assume a: "a \<notin> rng p 56"
  note off = rng_outside [OF this]
  show ?thesis
    using off [of 0 4] off [of 4 4] off [of 8 4] off [of 12 4] off [of 48 8] off [of 16 32] off [of 0 56]
    by (simp add: slab_header_init_def Let_def mem_simps hd_bitmap_def not_less [symmetric])
qed

lemma slab_ok_init:
  "obj_size_ok osz \<Longrightarrow> slab_ok osz (slab_header_init osz p m) p"
proof -
  assume "obj_size_ok osz"
  then have "{i. i < unat (slab_capacity osz) \<and> \<not> bitmap_test (hd_bitmap p) i (slab_header_init osz p m)}
      = {..< unat (slab_capacity osz)}"
    using slab_capacity_bounds(2) [of osz] header_init_bitmap by fastforce
  then show ?thesis by (simp add: slab_ok_def header_init_fields)
qed

section \<open>Objects in a slab\<close>

lemma small_sint: "unat w \<le> 256 \<Longrightarrow> sint w = int (unat w)" for w :: u32
proof -
  assume "unat w \<le> 256"
  moreover have "uint w = int (unat w)" by simp
  ultimately have "uint w \<le> 256" "0 \<le> uint w" by linarith+
  then have "- (2 ^ 31) \<le> uint w" "uint w < 2 ^ 31"
    using order_trans [of "- (2 ^ 31)" 0 "uint w"] by simp_all
  then have "signed_take_bit 31 (uint w) = uint w" by (rule signed_take_bit_int_eq_self)
  then show ?thesis by (simp add: sint_uint)
qed

lemma slab_get_obj_nat:
  assumes "obj_size_ok osz" "slab_ok osz m p" "i < unat (slab_capacity osz)" "page_of p = p"
  shows "unat (slab_get_obj m p i) = unat p + 56 + i * unat osz"
    and "page_of (slab_get_obj m p i) = p"
proof -
  have osz: "unat osz \<le> 2048" using assms(1) by (simp add: obj_size_ok_def word_le_nat_alt)
  have le: "i * unat osz + unat osz \<le> 4040" using slab_capacity_bounds(3) [OF assms(1,3)] by simp
  have "unat (ucast osz :: u32) = unat osz"
    using osz by (simp add: unsigned_ucast_eq take_bit_nat_eq_self)
  moreover have "i \<le> 4040" using assms(3) slab_capacity_bounds(2) [OF assms(1)] by simp
  ultimately have "unat (of_nat i * ucast osz :: u32) = i * unat osz"
    using le by (simp add: unat_word_ariths unat_of_nat)
  then have "unat (ucast (of_nat i * hd_obj_size m p) :: u64) = i * unat osz"
    using assms(2) le by (simp add: slab_ok_def unsigned_ucast_eq take_bit_nat_eq_self)
  moreover define k where "k = 56 + (ucast (of_nat i * hd_obj_size m p) :: u64)"
  ultimately have k: "unat k = 56 + i * unat osz"
    using le unat_add_small [of 56 "ucast (of_nat i * hd_obj_size m p)"] by simp
  have eq: "slab_get_obj m p i = p + k" by (simp add: slab_get_obj_def k_def add.assoc)
  have "4096 dvd unat p" "unat k < 4096"
    using assms(1,4) k le by (auto simp: page_of_aligned obj_size_ok_def word_le_nat_alt)
  note page_of_add [OF this]
  then show "unat (slab_get_obj m p i) = unat p + 56 + i * unat osz"
    "page_of (slab_get_obj m p i) = p" by (simp_all add: eq k)
qed

lemma slab_find_get:
  assumes "obj_size_ok osz" "slab_ok osz m p" "i < unat (slab_capacity osz)" "page_of p = p"
  shows "slab_find_obj_idx m p (slab_get_obj m p i) = Some i"
proof -
  define ob where "ob = slab_get_obj m p i"
  have osz: "16 \<le> unat osz" "unat osz \<le> 2048"
    using assms(1) by (simp_all add: obj_size_ok_def word_le_nat_alt)
  have "unat (p + 56) = unat p + 56" using assms(4) page_of_add [of p 56] by (simp add: page_of_aligned)
  moreover have ob: "unat ob = unat p + 56 + i * unat osz"
    unfolding ob_def by (rule slab_get_obj_nat [OF assms])
  ultimately have base: "p + 56 \<le> ob" "unat (ob - (p + 56)) = i * unat osz"
    by (simp_all add: word_le_nat_alt unat_sub)
  have "unat (hd_obj_size m p) = unat osz"
    using assms(2) osz by (simp add: slab_ok_def unsigned_ucast_eq take_bit_nat_eq_self)
  then have hd: "unat (ucast (hd_obj_size m p) :: u64) = unat osz" by (simp only: unat_ucast_32_64)
  have "(ob - (p + 56)) mod ucast (hd_obj_size m p) = 0"
    by (simp add: word_unat_eq_iff unat_mod base hd)
  moreover have "unat ((ob - (p + 56)) div ucast (hd_obj_size m p)) = i"
    using osz by (simp add: unat_div base hd)
  moreover have "sint (hd_total m p) = int (unat (slab_capacity osz))"
    using assms(2) small_sint [of "slab_capacity osz"] slab_capacity_bounds(2) [OF assms(1)]
    by (simp add: slab_ok_def)
  moreover have "int i < int (unat (slab_capacity osz))" using assms(3) by (simp only: of_nat_less_iff)
  ultimately show ?thesis
    using base by (simp add: not_less not_le slab_find_obj_idx_def Let_def ob_def [symmetric])
qed

section \<open>Cache invariant\<close>

fun slab_list :: "mem \<Rightarrow> u64 \<Rightarrow> u64 list \<Rightarrow> bool" where
  "slab_list m h [] \<longleftrightarrow> h = 0"
| "slab_list m h (p # ps) \<longleftrightarrow> h = p \<and> p \<noteq> 0 \<and> slab_list m (hd_next m p) ps"

lemma slab_list_agree:
  "(\<And>p. p \<in> set ps \<Longrightarrow> hd_next m p = hd_next m' p) \<Longrightarrow> slab_list m h ps = slab_list m' h ps"
  by (induction ps arbitrary: h) auto

definition cache_inv :: "u64 \<Rightarrow> u64 list \<Rightarrow> u64 list \<Rightarrow> 'a slab_state_scheme \<Rightarrow> bool" where
  "cache_inv c ps fs s \<longleftrightarrow> c \<noteq> 0 \<and> obj_size_ok (c_obj_size (get_cache c s))
     \<and> slab_list (memory s) (c_partial (get_cache c s)) ps
     \<and> slab_list (memory s) (c_full (get_cache c s)) fs
     \<and> distinct (ps @ fs)
     \<and> (\<forall>p \<in> set (ps @ fs). own_page s p \<and> slab_ok (c_obj_size (get_cache c s)) (memory s) p)
     \<and> (\<forall>p \<in> set ps. hd_free (memory s) p \<noteq> 0) \<and> (\<forall>p \<in> set fs. hd_free (memory s) p = 0)
     \<and> c_num_slabs (get_cache c s) = of_nat (length (ps @ fs))"

text \<open>The objects in use.\<close>

definition slab_live :: "u64 \<Rightarrow> mem \<Rightarrow> u64 \<Rightarrow> u64 set" where
  "slab_live osz m p =
     slab_get_obj m p ` {i. i < unat (slab_capacity osz) \<and> bitmap_test (hd_bitmap p) i m}"

definition cache_live :: "u64 \<Rightarrow> u64 list \<Rightarrow> 'a slab_state_scheme \<Rightarrow> u64 set" where
  "cache_live c ps s = (\<Union>p \<in> set ps. slab_live (c_obj_size (get_cache c s)) (memory s) p)"

lemma slab_ok_agree:
  assumes "agree (rng p 48) m m'" "obj_size_ok osz"
  shows "slab_ok osz m p = slab_ok osz m' p" "slab_live osz m p = slab_live osz m' p"
proof -
  have "i < unat (slab_capacity osz) \<Longrightarrow> i < 256" for i
    using slab_capacity_bounds(2) [OF assms(2)] by simp
  note bm = hd_agree(5) [OF assms(1) this]
  show "slab_ok osz m p = slab_ok osz m' p"
    unfolding slab_ok_def hd_agree(1-4) [OF assms(1)] by (simp add: bm cong: conj_cong)
  show "slab_live osz m p = slab_live osz m' p"
    unfolding slab_live_def slab_get_obj_def hd_agree(1-4) [OF assms(1)]
    by (simp add: bm cong: conj_cong)
qed

text \<open>Taking and returning one object of a slab.\<close>

lemma bitmap_update_fields:
  assumes "i < 256"
  shows "hd_magic (store64 m (bitmap_word (hd_bitmap p) i) v) p = hd_magic m p"
    "hd_obj_size (store64 m (bitmap_word (hd_bitmap p) i) v) p = hd_obj_size m p"
    "hd_total (store64 m (bitmap_word (hd_bitmap p) i) v) p = hd_total m p"
    "hd_free (store64 m (bitmap_word (hd_bitmap p) i) v) p = hd_free m p"
    "hd_next (store64 m (bitmap_word (hd_bitmap p) i) v) p = hd_next m p"
  using assms
  by (cases rule: bitmap_word_off [of i "hd_bitmap p"];
      simp add: hd_defs load_store_other disj_rng_def)+

lemma free_update_fields:
  "hd_magic (store32 m (p + 12) v) p = hd_magic m p"
  "hd_obj_size (store32 m (p + 12) v) p = hd_obj_size m p"
  "hd_total (store32 m (p + 12) v) p = hd_total m p"
  "hd_free (store32 m (p + 12) v) p = v"
  "hd_next (store32 m (p + 12) v) p = hd_next m p"
  "i < 256 \<Longrightarrow> bitmap_test (hd_bitmap p) i (store32 m (p + 12) v) = bitmap_test (hd_bitmap p) i m"
proof -
  show "hd_magic (store32 m (p + 12) v) p = hd_magic m p"
    "hd_obj_size (store32 m (p + 12) v) p = hd_obj_size m p"
    "hd_total (store32 m (p + 12) v) p = hd_total m p"
    "hd_free (store32 m (p + 12) v) p = v"
    "hd_next (store32 m (p + 12) v) p = hd_next m p"
    by (simp_all add: hd_defs load_store_other disj_rng_def mem_simps)
  assume "i < 256"
  then show "bitmap_test (hd_bitmap p) i (store32 m (p + 12) v) = bitmap_test (hd_bitmap p) i m"
    unfolding bitmap_test_def
    by (cases rule: bitmap_word_off [of i "hd_bitmap p"])
      (simp_all add: hd_bitmap_def load_store_other disj_rng_def)
qed

lemma mark_obj_fields:
  assumes "i < 256"
  shows "hd_magic (mark_obj p i m) p = hd_magic m p" "hd_obj_size (mark_obj p i m) p = hd_obj_size m p"
    "hd_total (mark_obj p i m) p = hd_total m p" "hd_free (mark_obj p i m) p = hd_free m p - 1"
    "hd_next (mark_obj p i m) p = hd_next m p"
    "j < 256 \<Longrightarrow> bitmap_test (hd_bitmap p) j (mark_obj p i m) \<longleftrightarrow> i = j \<or> bitmap_test (hd_bitmap p) j m"
  using assms
  by (simp_all add: mark_obj_def Let_def free_update_fields bitmap_test_set)
    (simp_all add: bitmap_set_def bitmap_update_fields)

lemma unmark_obj_fields:
  assumes "i < 256"
  shows "hd_magic (unmark_obj p i m) p = hd_magic m p" "hd_obj_size (unmark_obj p i m) p = hd_obj_size m p"
    "hd_total (unmark_obj p i m) p = hd_total m p" "hd_free (unmark_obj p i m) p = hd_free m p + 1"
    "hd_next (unmark_obj p i m) p = hd_next m p"
    "j < 256 \<Longrightarrow> bitmap_test (hd_bitmap p) j (unmark_obj p i m) \<longleftrightarrow> i \<noteq> j \<and> bitmap_test (hd_bitmap p) j m"
  using assms
  by (simp_all add: unmark_obj_def Let_def free_update_fields bitmap_test_clear)
    (simp_all add: bitmap_clear_def bitmap_update_fields)

lemma mark_obj_outside:
  assumes "i < 256" "a \<notin> rng p 56"
  shows "mark_obj p i m a = m a" "unmark_obj p i m a = m a"
proof -
  have "8 \<le> a - bitmap_word (hd_bitmap p) i"
    using assms(1) rng_outside [OF assms(2), of 16 8] rng_outside [OF assms(2), of 24 8]
      rng_outside [OF assms(2), of 32 8] rng_outside [OF assms(2), of 40 8]
    by (cases rule: bitmap_word_off [of i "hd_bitmap p"]) (simp_all add: hd_bitmap_def add.assoc)
  moreover have "4 \<le> a - (p + 12)" using rng_outside [OF assms(2), of 12 4] by simp
  ultimately show "mark_obj p i m a = m a" "unmark_obj p i m a = m a"
    by (simp_all add: mark_obj_def unmark_obj_def bitmap_set_def bitmap_clear_def Let_def mem_simps)
qed

lemma slab_get_obj_mark:
  "i < 256 \<Longrightarrow> slab_get_obj (mark_obj p i m) p = slab_get_obj m p"
  "i < 256 \<Longrightarrow> slab_get_obj (unmark_obj p i m) p = slab_get_obj m p"
  by (simp_all add: slab_get_obj_def mark_obj_fields unmark_obj_fields fun_eq_iff)

lemma slab_get_obj_inj:
  assumes "obj_size_ok osz" "slab_ok osz m p" "page_of p = p"
    "i < unat (slab_capacity osz)" "j < unat (slab_capacity osz)"
  shows "slab_get_obj m p i = slab_get_obj m p j \<longleftrightarrow> i = j"
  using slab_find_get [OF assms(1,2,4,3)] slab_find_get [OF assms(1,2,5,3)] by (metis option.inject)

lemma mark_obj_ok:
  assumes "obj_size_ok osz" "slab_ok osz m p" "page_of p = p"
    and "i < unat (slab_capacity osz)" "\<not> bitmap_test (hd_bitmap p) i m"
  shows "slab_ok osz (mark_obj p i m) p" "hd_free m p \<noteq> 0"
    "slab_get_obj m p i \<notin> slab_live osz m p"
    "slab_live osz (mark_obj p i m) p = insert (slab_get_obj m p i) (slab_live osz m p)"
proof -
  have lt: "j < 256" if "j < unat (slab_capacity osz)" for j
    using that slab_capacity_bounds(2) [OF assms(1)] by simp
  note i = lt [OF assms(4)]
  let ?F = "{j. j < unat (slab_capacity osz) \<and> \<not> bitmap_test (hd_bitmap p) j m}"
  have "i \<in> ?F" using assms(4,5) by simp
  moreover have card: "unat (hd_free m p) = card ?F" using assms(2) by (simp add: slab_ok_def)
  ultimately have "0 < unat (hd_free m p)" by (auto simp: card_gt_0_iff)
  then show ne: "hd_free m p \<noteq> 0" by auto
  have "{j. j < unat (slab_capacity osz) \<and> \<not> bitmap_test (hd_bitmap p) j (mark_obj p i m)} = ?F - {i}"
    using lt i by (auto simp: mark_obj_fields)
  moreover have "unat (hd_free m p - 1) = card (?F - {i})"
    using ne card \<open>i \<in> ?F\<close> by (simp add: unat_minus_one card_Diff_singleton)
  ultimately show "slab_ok osz (mark_obj p i m) p"
    using assms(2) i by (simp add: slab_ok_def mark_obj_fields)
  show "slab_get_obj m p i \<notin> slab_live osz m p"
    using slab_get_obj_inj [OF assms(1-4)] assms(5) by (auto simp: slab_live_def)
  have "{j. j < unat (slab_capacity osz) \<and> bitmap_test (hd_bitmap p) j (mark_obj p i m)} =
      insert i {j. j < unat (slab_capacity osz) \<and> bitmap_test (hd_bitmap p) j m}"
    using lt i assms(4) by (auto simp: mark_obj_fields)
  then show "slab_live osz (mark_obj p i m) p = insert (slab_get_obj m p i) (slab_live osz m p)"
    unfolding slab_live_def slab_get_obj_mark(1) [OF i] by simp
qed

lemma unmark_obj_ok:
  assumes "obj_size_ok osz" "slab_ok osz m p" "page_of p = p"
    and "i < unat (slab_capacity osz)" "bitmap_test (hd_bitmap p) i m"
  shows "slab_ok osz (unmark_obj p i m) p" "hd_free (unmark_obj p i m) p \<noteq> 0"
    "slab_live osz (unmark_obj p i m) p = slab_live osz m p - {slab_get_obj m p i}"
proof -
  have lt: "j < 256" if "j < unat (slab_capacity osz)" for j
    using that slab_capacity_bounds(2) [OF assms(1)] by simp
  note i = lt [OF assms(4)]
  let ?F = "{j. j < unat (slab_capacity osz) \<and> \<not> bitmap_test (hd_bitmap p) j m}"
  have "i \<notin> ?F" using assms(5) by simp
  have card: "unat (hd_free m p) = card ?F" using assms(2) by (simp add: slab_ok_def)
  have "card ?F \<le> card {..< unat (slab_capacity osz)}" by (intro card_mono) auto
  then have "unat (hd_free m p) \<le> 256"
    unfolding card using slab_capacity_bounds(2) [OF assms(1)] by simp
  then have inc: "unat (hd_free m p + 1) = Suc (card ?F)" by (simp add: unat_word_ariths card)
  have "{j. j < unat (slab_capacity osz) \<and> \<not> bitmap_test (hd_bitmap p) j (unmark_obj p i m)} = insert i ?F"
    using lt i assms(4) by (auto simp: unmark_obj_fields)
  then show "slab_ok osz (unmark_obj p i m) p"
    using assms(2) i inc \<open>i \<notin> ?F\<close> by (simp add: slab_ok_def unmark_obj_fields)
  show "hd_free (unmark_obj p i m) p \<noteq> 0"
    using inc i by (auto simp: unmark_obj_fields)
  have "{j. j < unat (slab_capacity osz) \<and> bitmap_test (hd_bitmap p) j (unmark_obj p i m)} =
      {j. j < unat (slab_capacity osz) \<and> bitmap_test (hd_bitmap p) j m} - {i}"
    using lt i by (auto simp: unmark_obj_fields)
  then show "slab_live osz (unmark_obj p i m) p = slab_live osz m p - {slab_get_obj m p i}"
    unfolding slab_live_def slab_get_obj_mark(2) [OF i]
    using slab_get_obj_inj [OF assms(1-3) _ assms(4)] by auto
qed

section \<open>Linked lists of slabs\<close>

lemma slab_list_nonzero: "slab_list m h ps \<Longrightarrow> p \<in> set ps \<Longrightarrow> p \<noteq> 0"
  by (induction ps arbitrary: h) auto

lemma slab_find_prev_list:
  assumes "slab_list m h (ps @ [q, p] @ rs)" "p \<notin> set (ps @ [q])" "distinct (ps @ [q])"
  shows "slab_find_prev m h p = Some q"
  using assms
proof (induction ps arbitrary: h)
  case Nil
  then show ?case by (subst slab_find_prev.simps) simp
next
  case (Cons x ps)
  then have "hd_next m x \<noteq> p" by (cases ps) auto
  then show ?case using Cons by (subst slab_find_prev.simps) simp
qed

lemma hd_next_store: "hd_next (store64 m (q + 48) v) q = v"
  by (simp add: hd_next_def mem_simps)

lemma agree_link:
  assumes "page_of q = q"
  shows "agree (rng q 48) (store64 m (q + 48) v) m"
    "page_of r = r \<Longrightarrow> r \<noteq> q \<Longrightarrow> agree (rng r 56) (store64 m (q + 48) v) m"
    "page_of a \<noteq> q \<Longrightarrow> store64 m (q + 48) v a = m a"
proof -
  show "agree (rng q 48) (store64 m (q + 48) v) m" by (rule agree_store64) (simp add: disj_rng_def)
  have out: "store64 m (q + 48) v a = m a" if "page_of a \<noteq> q" for a
  proof (rule store64_other)
    have "a \<notin> rng q 4096" using that rng_page [OF assms] by blast
    then show "8 \<le> a - (q + 48)" by (rule rng_outside) simp
  qed
  then show "page_of a \<noteq> q \<Longrightarrow> store64 m (q + 48) v a = m a" .
  show "agree (rng r 56) (store64 m (q + 48) v) m" if "page_of r = r" "r \<noteq> q"
    using page_disj_agree [of q "store64 m (q + 48) v" m r 56] out that by simp
qed

lemma slab_list_link:
  assumes "\<forall>x \<in> set ps. page_of x = x" "page_of q = q" "q \<notin> set ps"
  shows "slab_list (store64 m (q + 48) v) h ps = slab_list m h ps"
  using assms by (intro slab_list_agree) (auto intro!: hd_next_agree agree_link)

lemma slab_list_relink:
  assumes "slab_list m h (ps @ [q, p] @ rs)" "distinct (ps @ [q, p] @ rs)"
    and "\<forall>x \<in> set (ps @ [q, p] @ rs). page_of x = x"
  shows "slab_list (store64 m (q + 48) (hd_next m p)) h (ps @ [q] @ rs)"
  using assms
proof (induction ps arbitrary: h)
  case Nil
  then show ?case by (simp add: hd_next_store slab_list_link)
next
  case (Cons x ps)
  have "hd_next (store64 m (q + 48) (hd_next m p)) x = hd_next m x"
    using Cons.prems by (intro hd_next_agree agree_link) auto
  with Cons show ?case by simp
qed

text \<open>Unlinking a slab removes it from the list and changes the link of at most one other slab of it.\<close>

lemma slab_unlink_list:
  assumes list: "slab_list m h ps" and p: "p \<in> set ps" and dist: "distinct ps"
    and pages: "\<forall>x \<in> set ps. page_of x = x"
  obtains h' m' where "slab_unlink h p m = Some (h', m')" "slab_list m' h' (remove1 p ps)"
    "\<And>x. page_of x = x \<Longrightarrow> agree (rng x 48) m' m"
    "\<And>x. page_of x = x \<Longrightarrow> x \<notin> set ps \<or> x = p \<Longrightarrow> agree (rng x 56) m' m"
    "\<And>a. page_of a \<notin> set ps \<Longrightarrow> m' a = m a"
proof (cases ps)
  case Nil
  with p show ?thesis by simp
next
  case (Cons q qs)
  show ?thesis
  proof (cases "q = p")
    case True
    with Cons list dist have "slab_unlink h p m = Some (hd_next m p, m)" "slab_list m (hd_next m p) (remove1 p ps)"
      by (auto simp: slab_unlink_def)
    then show ?thesis by (rule that) (auto simp: agree_def)
  next
    case False
    then have "h \<noteq> p" using Cons list by simp
    from p obtain as rs where ps: "ps = as @ p # rs" by (auto simp: in_set_conv_decomp)
    with False Cons obtain bs x where "as = bs @ [x]" by (cases as rule: rev_cases) auto
    then have ps: "ps = bs @ [x, p] @ rs" using ps by simp
    have x: "page_of x = x" "x \<noteq> p" "x \<in> set ps" "x \<noteq> 0" 
      using pages dist slab_list_nonzero [OF list] by (auto simp: ps)
    have "slab_find_prev m h p = Some x"
      using list dist unfolding ps by (intro slab_find_prev_list [of m h bs x p rs]) auto
    then have un: "slab_unlink h p m = Some (h, store64 m (x + 48) (hd_next m p))"
      using \<open>h \<noteq> p\<close> x by (simp add: slab_unlink_def)
    have rm: "remove1 p ps = bs @ [x] @ rs" using dist x by (simp add: ps remove1_append)
    show ?thesis
    proof (rule that [OF un])
      show "slab_list (store64 m (x + 48) (hd_next m p)) h (remove1 p ps)"
        unfolding rm using list dist pages unfolding ps by (intro slab_list_relink) auto
      show "agree (rng y 48) (store64 m (x + 48) (hd_next m p)) m" if "page_of y = y" for y
      proof (cases "y = x")
        case False
        from agree_link(2) [OF x(1) that False] show ?thesis by (auto simp: agree_def word_less_nat_alt)
      qed (simp add: agree_link(1) [OF x(1)])
      show "agree (rng y 56) (store64 m (x + 48) (hd_next m p)) m"
        if "page_of y = y" "y \<notin> set ps \<or> y = p" for y
        using that x by (intro agree_link) auto
      show "store64 m (x + 48) (hd_next m p) a = m a" if "page_of a \<notin> set ps" for a
        using that x by (intro agree_link) auto
    qed
  qed
qed

section \<open>Frames\<close>

lemma cache_inv_frame:
  assumes inv: "cache_inv c ps fs s" and frame: "own_frame X s s'" and disj: "set (ps @ fs) \<inter> X = {}"
    and cache: "get_cache c s' = get_cache c s"
  shows "cache_inv c ps fs s'" "cache_live c (ps @ fs) s' = cache_live c (ps @ fs) s"
proof -
  have q: "own_page s' q" "agree (rng q 56) (memory s') (memory s)" "agree (rng q 48) (memory s') (memory s)"
    if "q \<in> set (ps @ fs)" for q
  proof -
    have "own_page s q" "q \<notin> X" using inv disj that by (auto simp: cache_inv_def)
    then show "own_page s' q" "agree (rng q 56) (memory s') (memory s)" "agree (rng q 48) (memory s') (memory s)"
      using frame by (auto simp: own_frame_def intro: agree_sub)
  qed
  have osz: "obj_size_ok (c_obj_size (get_cache c s))" using inv by (simp add: cache_inv_def)
  have lists: "slab_list (memory s') h ps = slab_list (memory s) h ps"
    "slab_list (memory s') h fs = slab_list (memory s) h fs" for h
    by (auto intro!: slab_list_agree hd_next_agree q)
  have ok: "slab_ok (c_obj_size (get_cache c s)) (memory s') q = slab_ok (c_obj_size (get_cache c s)) (memory s) q"
    "slab_live (c_obj_size (get_cache c s)) (memory s') q = slab_live (c_obj_size (get_cache c s)) (memory s) q"
    "hd_free (memory s') q = hd_free (memory s) q"
    if "q \<in> set (ps @ fs)" for q
    using slab_ok_agree [OF q(3) [OF that] osz] hd_agree(4) [OF q(3) [OF that]] by auto
  show "cache_live c (ps @ fs) s' = cache_live c (ps @ fs) s"
    unfolding cache_live_def cache using ok(2) by simp
  show "cache_inv c ps fs s'"
    using inv q(1) ok unfolding cache_inv_def cache lists by auto
qed

lemma set_cache_fields [simp]:
  "memory (set_cache c f s) = memory s" "bitmap (set_cache c f s) = bitmap s"
  "total_pages (set_cache c f s) = total_pages s" "free_pages (set_cache c f s) = free_pages s"
  "bitmap_size (set_cache c f s) = bitmap_size s" "size_caches (set_cache c f s) = size_caches s"
  "get_cache c' (set_cache c f s) = (if c' = c then f (get_cache c s) else get_cache c' s)"
  "get_cache c' (s\<lparr>memory := m\<rparr>) = get_cache c' s"
  by (simp_all add: set_cache_def get_cache_def)

lemma slab_live_page:
  assumes "obj_size_ok osz" "slab_ok osz m q" "page_of q = q" "x \<in> slab_live osz m q"
  shows "page_of x = q"
  using assms slab_get_obj_nat(2) [OF assms(1,2) _ assms(3)] by (auto simp: slab_live_def)

lemma mark_obj_pages:
  assumes "i < 256" "page_of p = p" "page_of a \<noteq> p"
  shows "mark_obj p i m a = m a" "unmark_obj p i m a = m a"
proof -
  have "a \<notin> rng p 56" using assms(3) rng_page [OF assms(2), of a] by (auto simp: word_less_nat_alt)
  from mark_obj_outside [OF assms(1) this] show "mark_obj p i m a = m a" "unmark_obj p i m a = m a" .
qed

lemma UN_split: "(\<Union>q \<in> A. f q) = (if p \<in> A then f p else {}) \<union> (\<Union>q \<in> A - {p}. f q)"
  by auto

text \<open>
  A step inside the pages of a cache keeps the invariant of the cache, if it keeps the headers of all
  slabs but one, \<open>p\<close>, and the new lists hold these slabs.
\<close>

lemma cache_inv_step:
  fixes s s' :: "'a slab_state_scheme"
  assumes inv: "cache_inv c ps fs s" and pmm: "pmm_inv s"
    and fields: "bitmap s' = bitmap s" "total_pages s' = total_pages s" "free_pages s' = free_pages s"
      "bitmap_size s' = bitmap_size s"
    and only: "\<forall>a. page_of a \<notin> set (ps @ fs) \<longrightarrow> memory s' a = memory s a"
    and agr: "\<forall>q \<in> set (ps @ fs) - {p}. agree (rng q 48) (memory s') (memory s)"
    and ok: "p \<in> set (ps' @ fs') \<longrightarrow> slab_ok (c_obj_size (get_cache c s)) (memory s') p"
    and free: "p \<in> set ps' \<longrightarrow> hd_free (memory s') p \<noteq> 0" "p \<in> set fs' \<longrightarrow> hd_free (memory s') p = 0"
    and lists: "slab_list (memory s') (c_partial (get_cache c s')) ps'"
      "slab_list (memory s') (c_full (get_cache c s')) fs'"
    and sets: "set ps' - {p} = set ps - {p}" "set fs' - {p} = set fs - {p}" "distinct (ps' @ fs')"
      "set (ps' @ fs') \<subseteq> set (ps @ fs)"
    and cache: "c_obj_size (get_cache c s') = c_obj_size (get_cache c s)"
      "c_num_slabs (get_cache c s') = of_nat (length (ps' @ fs'))"
  shows "cache_inv c ps' fs' s'"
    "cache_live c (ps' @ fs') s' =
       (if p \<in> set (ps' @ fs') then slab_live (c_obj_size (get_cache c s)) (memory s') p else {})
       \<union> cache_live c (filter (\<lambda>q. q \<noteq> p) (ps @ fs)) s"
proof -
  let ?osz = "c_obj_size (get_cache c s)"
  have osz: "obj_size_ok ?osz" and pages: "\<forall>q \<in> set (ps @ fs). own_page s q"
    using inv by (auto simp: cache_inv_def)
  note step = page_step [OF pmm pages fields only]
  have q: "slab_ok ?osz (memory s') q" "hd_free (memory s') q = hd_free (memory s) q"
    "slab_live ?osz (memory s') q = slab_live ?osz (memory s) q"
    if "q \<in> set (ps @ fs)" "q \<noteq> p" for q
  proof -
    have "slab_ok ?osz (memory s) q" using inv that by (simp add: cache_inv_def)
    moreover have "agree (rng q 48) (memory s') (memory s)" using agr that by simp
    ultimately show "slab_ok ?osz (memory s') q" "hd_free (memory s') q = hd_free (memory s) q"
      "slab_live ?osz (memory s') q = slab_live ?osz (memory s) q"
      using slab_ok_agree [of q "memory s'" "memory s", OF _ osz] hd_agree(4) by auto
  qed
  have "own_page s' x \<and> slab_ok ?osz (memory s') x" if "x \<in> set (ps' @ fs')" for x
  proof
    show "own_page s' x" unfolding step(3) using pages sets(4) that by blast
    show "slab_ok ?osz (memory s') x" using that ok q(1) [of x] sets(4) by (cases "x = p") auto
  qed
  moreover have "hd_free (memory s') x \<noteq> 0" if "x \<in> set ps'" for x
  proof (cases "x = p")
    case False
    then have "x \<in> set ps" using that sets(1) by blast
    then show ?thesis using inv q(2) [of x] False by (simp add: cache_inv_def)
  qed (use free that in simp)
  moreover have "hd_free (memory s') x = 0" if "x \<in> set fs'" for x
  proof (cases "x = p")
    case False
    then have "x \<in> set fs" using that sets(2) by blast
    then show ?thesis using inv q(2) [of x] False by (simp add: cache_inv_def)
  qed (use free that in simp)
  ultimately show "cache_inv c ps' fs' s'"
    using inv lists sets(3) cache unfolding cache_inv_def by simp
  have "set (ps' @ fs') - {p} = {q \<in> set (ps @ fs). q \<noteq> p}" using sets(1,2) by auto
  then have "cache_live c (ps' @ fs') s' =
      (if p \<in> set (ps' @ fs') then slab_live ?osz (memory s') p else {})
      \<union> (\<Union>q \<in> {q \<in> set (ps @ fs). q \<noteq> p}. slab_live ?osz (memory s') q)"
    unfolding cache_live_def cache by (subst UN_split [of _ _ p]) (simp only:)
  also have "(\<Union>q \<in> {q \<in> set (ps @ fs). q \<noteq> p}. slab_live ?osz (memory s') q) =
      cache_live c (filter (\<lambda>q. q \<noteq> p) (ps @ fs)) s"
    unfolding cache_live_def set_filter by (rule SUP_cong) (auto simp: q(3))
  finally show "cache_live c (ps' @ fs') s' =
      (if p \<in> set (ps' @ fs') then slab_live ?osz (memory s') p else {})
      \<union> cache_live c (filter (\<lambda>q. q \<noteq> p) (ps @ fs)) s" .
qed

lemma slab_take_ok:
  assumes inv: "cache_inv c (p # ps) fs s" and pmm: "pmm_inv s"
    and i: "i < unat (slab_capacity (c_obj_size (get_cache c s)))"
    and clear: "\<not> bitmap_test (hd_bitmap p) i (memory s)"
  obtains s' ps' fs' where
    "slab_take c p i s = Some (slab_get_obj (memory s) p i, s')" "cache_inv c ps' fs' s'"
    "set (ps' @ fs') = set (p # ps @ fs)"
    "cache_live c (ps' @ fs') s' = insert (slab_get_obj (memory s) p i) (cache_live c (p # ps @ fs) s)"
    "slab_get_obj (memory s) p i \<notin> cache_live c (p # ps @ fs) s"
    "pmm_same s s'" "own_frame {p} s s'" "\<And>c'. c' \<noteq> c \<Longrightarrow> get_cache c' s' = get_cache c' s"
    "size_caches s' = size_caches s" "c_obj_size (get_cache c s') = c_obj_size (get_cache c s)"
proof -
  let ?osz = "c_obj_size (get_cache c s)" and ?m = "memory s" and ?m1 = "mark_obj p i (memory s)"
  have osz: "obj_size_ok ?osz" and page: "own_page s p" "page_of p = p" and ok: "slab_ok ?osz ?m p"
    and list: "slab_list ?m (hd_next ?m p) ps" "slab_list ?m (c_full (get_cache c s)) fs"
    and part: "c_partial (get_cache c s) = p" and dist: "distinct (p # ps @ fs)"
    and pages: "\<forall>q \<in> set (ps @ fs). page_of q = q"
    using inv by (auto simp: cache_inv_def own_page_def)
  have i256: "i < 256" using i slab_capacity_bounds(2) [OF osz] by simp
  note mark = mark_obj_ok [OF osz ok page(2) i clear] and fld = mark_obj_fields(4,5) [OF i256]
  have only1: "page_of a \<noteq> p \<Longrightarrow> ?m1 a = ?m a" for a
    using mark_obj_pages [OF i256 page(2)] by simp
  have agr1: "agree (rng q 56) m' ?m"
    if "q \<in> set (ps @ fs)" "\<forall>a. page_of a \<noteq> p \<longrightarrow> m' a = ?m a" for q m'
  proof (rule page_disj_agree)
    show "page_of q = q" "q \<noteq> p" using that(1) dist pages by auto
  qed (simp_all add: that(2))
  have agr48: "\<forall>q \<in> set ((p # ps) @ fs) - {p}. agree (rng q 48) m' ?m"
    if "\<forall>a. page_of a \<noteq> p \<longrightarrow> m' a = ?m a" for m'
  proof
    fix q assume "q \<in> set ((p # ps) @ fs) - {p}"
    then have "agree (rng q 56) m' ?m" using that by (intro agr1) auto
    then show "agree (rng q 48) m' ?m" by (rule agree_sub) simp
  qed
  have list1: "slab_list ?m1 h ps = slab_list ?m h ps" "slab_list ?m1 h fs = slab_list ?m h fs" for h
    using only1 by (auto intro!: slab_list_agree hd_next_agree agr1)
  have num: "c_num_slabs (get_cache c s) = of_nat (length (p # ps @ fs))"
    using inv by (simp add: cache_inv_def)
  have fresh: "slab_get_obj ?m p i \<notin> cache_live c (p # ps @ fs) s"
  proof
    assume "slab_get_obj ?m p i \<in> cache_live c (p # ps @ fs) s"
    then obtain q where q: "q \<in> set (p # ps @ fs)" "slab_get_obj ?m p i \<in> slab_live ?osz ?m q"
      by (auto simp: cache_live_def)
    from q(1) have "slab_ok ?osz ?m q" "page_of q = q"
      using inv unfolding cache_inv_def own_page_def by auto
    then have "page_of (slab_get_obj ?m p i) = q" using q(2) by (rule slab_live_page [OF osz])
    then have "q = p" using slab_get_obj_nat(2) [OF osz ok i page(2)] by (simp only:)
    then show False using q(2) mark(3) by (simp only:)
  qed
  have live: "slab_live ?osz ?m1 p \<union> cache_live c (filter (\<lambda>q. q \<noteq> p) ((p # ps) @ fs)) s =
      insert (slab_get_obj ?m p i) (cache_live c (p # ps @ fs) s)"
    using mark(4) dist by (auto simp: cache_live_def)
  define s1 where "s1 = set_cache c (\<lambda>c. c\<lparr>c_num_allocs := c_num_allocs c + 1\<rparr>) (s\<lparr>memory := ?m1\<rparr>)"
  show thesis
  proof (cases "hd_free ?m1 p = 0")
    case True
    define m2 where "m2 = store64 ?m1 (p + 48) (c_full (get_cache c s))"
    define s2 where "s2 = set_cache c (\<lambda>c. c\<lparr>c_partial := hd_next ?m p, c_full := p\<rparr>) (s1\<lparr>memory := m2\<rparr>)"
    have agr: "agree (rng p 48) m2 ?m1" unfolding m2_def by (rule agree_link [OF page(2)])
    have only2: "\<forall>a. page_of a \<noteq> p \<longrightarrow> m2 a = ?m a"
      using only1 agree_link(3) [OF page(2)] by (simp add: m2_def)
    have take: "slab_take c p i s = Some (slab_get_obj ?m p i, s2)"
      using True hd_agree(2) [OF agr] part
      by (simp add: slab_take_def Let_def slab_unlink_def s2_def s1_def m2_def slab_get_obj_def fld
          mark_obj_fields(2) [OF i256])
    have lists2: "slab_list m2 (hd_next ?m p) ps" "slab_list m2 p (p # fs)"
      using list dist pages page
      by (auto simp: m2_def slab_list_link list1 hd_next_store own_page_def)
    note agr48 [OF only2]
    then have step: "cache_inv c ps (p # fs) s2"
      "cache_live c (ps @ p # fs) s2 = slab_live ?osz (memory s2) p \<union> cache_live c (filter (\<lambda>q. q \<noteq> p) ((p # ps) @ fs)) s"
      using cache_inv_step [OF inv pmm, of s2 p ps "p # fs"] lists2 only2 dist mark(1) True hd_agree(4) [OF agr]
        slab_ok_agree(1) [OF agr osz] num
      by (simp_all add: s2_def s1_def)
    show ?thesis
    proof (rule that [OF take step(1)])
      show "cache_live c (ps @ p # fs) s2 = insert (slab_get_obj ?m p i) (cache_live c (p # ps @ fs) s)"
        unfolding step(2) live [symmetric] using slab_ok_agree(2) [OF agr osz] by (simp add: s2_def)
      show "slab_get_obj ?m p i \<notin> cache_live c (p # ps @ fs) s" by (rule fresh)
      show "pmm_same s s2" "own_frame {p} s s2"
        using page_step [OF pmm, of "{p}" s2] page(1) only2 by (simp_all add: s2_def s1_def)
    qed (auto simp: s2_def s1_def)
  next
    case False
    have take: "slab_take c p i s = Some (slab_get_obj ?m p i, s1)"
      using False slab_get_obj_mark(1) [OF i256]
      by (simp add: slab_take_def Let_def s1_def)
    have "\<forall>a. page_of a \<noteq> p \<longrightarrow> ?m1 a = ?m a" using only1 by simp
    note agr48 [OF this]
    then have step: "cache_inv c (p # ps) fs s1"
      "cache_live c ((p # ps) @ fs) s1 = slab_live ?osz (memory s1) p \<union> cache_live c (filter (\<lambda>q. q \<noteq> p) ((p # ps) @ fs)) s"
      using cache_inv_step [OF inv pmm, of s1 p "p # ps" fs] list list1 only1 dist mark(1) False part page fld num
      by (simp_all add: s1_def own_page_def)
    show ?thesis
    proof (rule that [OF take step(1)])
      show "cache_live c ((p # ps) @ fs) s1 = insert (slab_get_obj ?m p i) (cache_live c (p # ps @ fs) s)"
        unfolding step(2) live [symmetric] by (simp add: s1_def)
      show "slab_get_obj ?m p i \<notin> cache_live c (p # ps @ fs) s" by (rule fresh)
      show "pmm_same s s1" "own_frame {p} s s1"
        using page_step [OF pmm, of "{p}" s1] page(1) only1 by (simp_all add: s1_def)
    qed (auto simp: s1_def)
  qed
qed

section \<open>Growing a cache\<close>

lemma slab_grow_ok:
  assumes inv: "cache_inv c ps fs s" and pmm: "pmm_inv s"
  obtains (fail) "slab_grow c s = (0, s)" "free_frames s = {}"
  | (ok) p s' where "slab_grow c s = (p, s')" "p \<noteq> 0" "cache_inv c (p # ps) fs s'" "pmm_inv s'"
    "\<not> own_page s p" "cache_live c (p # ps @ fs) s' = cache_live c (ps @ fs) s"
    "own_frame {} s s'" "\<And>c'. c' \<noteq> c \<Longrightarrow> get_cache c' s' = get_cache c' s"
    "size_caches s' = size_caches s" "c_obj_size (get_cache c s') = c_obj_size (get_cache c s)"
    "\<And>i. i < 256 \<Longrightarrow> \<not> bitmap_test (hd_bitmap p) i (memory s')"
    "card (free_frames s) = Suc (card (free_frames s'))"
proof (cases "free_frames s = {}")
  case True
  then show ?thesis by (intro fail) (simp_all add: slab_grow_def slab_create_def pmm_alloc_first)
next
  case False
  define f where "f = Min (free_frames s)"
  have f: "f \<in> free_frames s" using False by (simp add: f_def)
  note D = free_framesD [OF pmm f] and C = own_page_claim [OF pmm f]
  define p where "p = f * PAGE_SIZE"
  let ?osz = "c_obj_size (get_cache c s)"
  have osz: "obj_size_ok ?osz" using inv by (simp add: cache_inv_def)
  have page: "page_of p = p" "p \<noteq> 0" "own_page (claim_frame f s) p" "\<not> own_page s p"
    using D C by (simp_all add: p_def)
  define m1 where "m1 = slab_header_init ?osz p (memory (claim_frame f s))"
  define m2 where "m2 = store64 m1 (p + 48) (c_partial (get_cache c s))"
  define s1 where "s1 = (claim_frame f s)\<lparr>memory := m2\<rparr>"
  define s2 where "s2 = set_cache c (\<lambda>c. c\<lparr>c_partial := p, c_num_slabs := c_num_slabs c + 1\<rparr>) s1"
  have caches: "get_cache c' (claim_frame f s) = get_cache c' s" for c'
    by (simp add: claim_frame_def bm_set_def get_cache_def)
  have grow: "slab_grow c s = (p, s2)"
    using False page(2) caches
    by (simp add: slab_grow_def slab_create_def pmm_alloc_first f_def [symmetric] p_def [symmetric]
        Let_def m1_def m2_def s1_def s2_def)
  have agr: "agree (rng p 48) m2 m1" unfolding m2_def by (rule agree_link [OF page(1)])
  have only: "\<forall>a. page_of a \<noteq> p \<longrightarrow> m2 a = memory (claim_frame f s) a"
  proof (intro allI impI)
    fix a assume a: "page_of a \<noteq> p"
    then have "a \<notin> rng p 56" using rng_page [OF page(1), of a] by (auto simp: word_less_nat_alt)
    then show "m2 a = memory (claim_frame f s) a"
      using agree_link(3) [OF page(1) a] by (simp add: m2_def m1_def header_init_outside)
  qed
  have pmm0: "pmm_inv (claim_frame f s)" by (rule pmm_inv_claim [OF pmm f])
  have step: "pmm_same (claim_frame f s) s2" "own_frame {p} (claim_frame f s) s2"
    "own_page s2 q = own_page (claim_frame f s) q" for q
    using page_step [OF pmm0, of "{p}" s2] page(3) only by (simp_all add: s2_def s1_def)
  have frame: "own_frame {} s s2" by (rule own_frame_new [OF C(3) step(2) page(4)])
  then have "own_frame {} s s1" by (simp add: own_frame_def own_page_def bm_test_def in_bitmap_def s2_def)
  then have keep: "cache_inv c ps fs s1" "cache_live c (ps @ fs) s1 = cache_live c (ps @ fs) s"
    by (rule cache_inv_frame [OF inv]; simp add: s1_def caches)+
  have new: "p \<notin> set (ps @ fs)" using inv page(4) by (auto simp: cache_inv_def)
  have pok: "slab_ok ?osz m2 p" "hd_free m2 p \<noteq> 0" "i < 256 \<Longrightarrow> \<not> bitmap_test (hd_bitmap p) i m2" for i
    using slab_ok_agree(1) [OF agr osz] slab_ok_init [OF osz] hd_agree(4) [OF agr] hd_agree(5) [OF agr]
      header_init_fields(4) header_init_bitmap slab_capacity_bounds(1) [OF osz]
    by (auto simp: m1_def)
  have "slab_live ?osz m2 p = {}"
    using pok(3) slab_capacity_bounds(2) [OF osz] by (auto simp: slab_live_def)
  then have live: "cache_live c (p # ps @ fs) s2 = cache_live c (ps @ fs) s"
    using keep(2) by (simp add: cache_live_def s2_def s1_def caches)
  have "slab_list m2 p (p # ps)" "slab_list m2 (c_full (get_cache c s)) fs"
    using keep(1) page(2) by (simp_all add: m2_def hd_next_store cache_inv_def s1_def caches)
  moreover have "own_page s2 q = own_page s1 q" for q
    by (simp add: own_page_def bm_test_def in_bitmap_def s2_def)
  ultimately have inv2: "cache_inv c (p # ps) fs s2"
    using keep(1) new pok(1,2) page(3) step(3) [of p] unfolding cache_inv_def
    by (simp add: s2_def s1_def caches)
  show ?thesis
  proof (rule ok [OF grow page(2) inv2 pmm_same_inv(1) [OF pmm0 step(1)] page(4) live frame])
    show "\<not> bitmap_test (hd_bitmap p) i (memory s2)" if "i < 256" for i
      using pok(3) [OF that] by (simp add: s2_def s1_def)
    show "size_caches s2 = size_caches s" by (simp add: s2_def s1_def claim_frame_def bm_set_def)
    show "card (free_frames s) = Suc (card (free_frames s2))"
      unfolding pmm_same_inv(2) [OF pmm0 step(1)] free_frames_claim
      by (simp only: card_Suc_Diff1 [OF free_frames_finite f])
  qed (simp_all add: s2_def s1_def caches)
qed

section \<open>Allocation\<close>

lemma find_free_ok:
  assumes "obj_size_ok osz" "slab_ok osz m p" "hd_free m p \<noteq> 0"
  obtains i where "bitmap_find_free (hd_bitmap p) (nat (sint (hd_total m p))) m = Some i"
    "i < unat (slab_capacity osz)" "\<not> bitmap_test (hd_bitmap p) i m"
proof -
  let ?F = "{i. i < unat (slab_capacity osz) \<and> \<not> bitmap_test (hd_bitmap p) i m}"
  have "unat (hd_free m p) = card ?F" using assms(2) by (simp add: slab_ok_def)
  then have "?F \<noteq> {}" using assms(3) by (metis card.empty unat_eq_0)
  moreover have "nat (sint (hd_total m p)) = unat (slab_capacity osz)"
    using assms(2) small_sint [of "slab_capacity osz"] slab_capacity_bounds(2) [OF assms(1)]
    by (simp add: slab_ok_def)
  ultimately obtain i where i: "bitmap_find_free (hd_bitmap p) (nat (sint (hd_total m p))) m = Some i"
      "find (\<lambda>i. \<not> bitmap_test (hd_bitmap p) i m) [0..<unat (slab_capacity osz)] = Some i"
    by (cases "find (\<lambda>i. \<not> bitmap_test (hd_bitmap p) i m) [0..<unat (slab_capacity osz)]")
      (auto simp: bitmap_find_free_def find_None_iff)
  then show ?thesis using that [OF i(1)] by (auto simp: find_Some_iff)
qed

text \<open>Taking the first free object of the first slab of the partial list.\<close>

lemma slab_take_first:
  assumes inv: "cache_inv c (p # ps) fs s" and pmm: "pmm_inv s"
  obtains i ob s' ps' fs' where
    "bitmap_find_free (hd_bitmap p) (nat (sint (hd_total (memory s) p))) (memory s) = Some i"
    "slab_take c p i s = Some (ob, s')" "ob \<noteq> 0" "cache_inv c ps' fs' s'" "pmm_inv s'"
    "set (ps' @ fs') = set (p # ps @ fs)"
    "cache_live c (ps' @ fs') s' = insert ob (cache_live c (p # ps @ fs) s)"
    "ob \<notin> cache_live c (p # ps @ fs) s" "own_frame {p} s s'"
    "\<And>c'. c' \<noteq> c \<Longrightarrow> get_cache c' s' = get_cache c' s"
    "size_caches s' = size_caches s" "c_obj_size (get_cache c s') = c_obj_size (get_cache c s)"
    "free_frames s' = free_frames s"
proof -
  let ?osz = "c_obj_size (get_cache c s)"
  have p: "obj_size_ok ?osz" "slab_ok ?osz (memory s) p" "hd_free (memory s) p \<noteq> 0" "page_of p = p"
    using inv by (auto simp: cache_inv_def own_page_def)
  obtain i where i: "bitmap_find_free (hd_bitmap p) (nat (sint (hd_total (memory s) p))) (memory s) = Some i"
    "i < unat (slab_capacity ?osz)" "\<not> bitmap_test (hd_bitmap p) i (memory s)"
    using find_free_ok [OF p(1-3)] .
  have nz: "slab_get_obj (memory s) p i \<noteq> 0"
    using slab_get_obj_nat(1) [OF p(1,2) i(2) p(4)] by (metis add_eq_0_iff_both_eq_0 unat_0 zero_neq_numeral)
  let ?ob = "slab_get_obj (memory s) p i"
  show thesis
  proof (rule slab_take_ok [OF inv pmm i(2,3)])
    fix s' ps' fs'
    assume a: "slab_take c p i s = Some (?ob, s')" "cache_inv c ps' fs' s'"
      "set (ps' @ fs') = set (p # ps @ fs)"
      "cache_live c (ps' @ fs') s' = insert ?ob (cache_live c (p # ps @ fs) s)"
      "?ob \<notin> cache_live c (p # ps @ fs) s" "pmm_same s s'" "own_frame {p} s s'"
      "\<And>c'. c' \<noteq> c \<Longrightarrow> get_cache c' s' = get_cache c' s"
      "size_caches s' = size_caches s" "c_obj_size (get_cache c s') = c_obj_size (get_cache c s)"
    show thesis
      by (rule that [OF i(1) a(1) nz a(2) pmm_same_inv(1) [OF pmm a(6)] a(3-5,7-10) pmm_same_inv(2) [OF pmm a(6)]])
  qed
qed

lemma slab_alloc_ok:
  assumes inv: "cache_inv c ps fs s" and pmm: "pmm_inv s"
  obtains (fail) "slab_alloc c s = Some (0, s)" "free_frames s = {}" "ps = []"
  | (ok) p s' ps' fs' where "slab_alloc c s = Some (p, s')" "p \<noteq> 0" "cache_inv c ps' fs' s'" "pmm_inv s'"
    "p \<notin> cache_live c (ps @ fs) s" "cache_live c (ps' @ fs') s' = insert p (cache_live c (ps @ fs) s)"
    "\<forall>q \<in> set (ps' @ fs') - set (ps @ fs). \<not> own_page s q" "own_frame (set ps) s s'"
    "\<And>c'. c' \<noteq> c \<Longrightarrow> get_cache c' s' = get_cache c' s"
    "size_caches s' = size_caches s" "c_obj_size (get_cache c s') = c_obj_size (get_cache c s)"
    "card (free_frames s) \<le> Suc (card (free_frames s'))"
proof (cases ps)
  case Nil
  then have part: "c_partial (get_cache c s) = 0" "c \<noteq> 0" using inv by (auto simp: cache_inv_def)
  show ?thesis
  proof (cases rule: slab_grow_ok [OF inv pmm])
    case 1
    then show ?thesis using part Nil by (intro fail) (simp_all add: slab_alloc_def)
  next
    case (2 p t)
    show ?thesis
    proof (rule slab_take_first [OF 2(3,4)])
      fix i ob s' ps' fs'
      assume take: "bitmap_find_free (hd_bitmap p) (nat (sint (hd_total (memory t) p))) (memory t) = Some i"
        "slab_take c p i t = Some (ob, s')" "ob \<noteq> 0" "cache_inv c ps' fs' s'" "pmm_inv s'"
        and sets: "set (ps' @ fs') = set (p # ps @ fs)"
        and live: "cache_live c (ps' @ fs') s' = insert ob (cache_live c (p # ps @ fs) t)"
          "ob \<notin> cache_live c (p # ps @ fs) t" and frame: "own_frame {p} t s'"
        and rest: "\<And>c'. c' \<noteq> c \<Longrightarrow> get_cache c' s' = get_cache c' t"
          "size_caches s' = size_caches t" "c_obj_size (get_cache c s') = c_obj_size (get_cache c t)"
        and frames: "free_frames s' = free_frames t"
      have "slab_alloc c s = Some (ob, s')" using part 2(1,2) take by (simp add: slab_alloc_def)
      moreover have "own_frame (set ps) s s'" using own_frame_new [OF 2(7) frame 2(5)] Nil by simp
      ultimately show ?thesis
        using take live 2 sets rest frames by (intro ok [of ob s' ps' fs']) auto
    qed
  qed
next
  case (Cons p qs)
  then have part: "c_partial (get_cache c s) = p" "c \<noteq> 0" "p \<noteq> 0" using inv by (auto simp: cache_inv_def)
  show ?thesis
  proof (rule slab_take_first [OF inv [unfolded Cons] pmm])
    fix i ob s' ps' fs'
    assume take: "bitmap_find_free (hd_bitmap p) (nat (sint (hd_total (memory s) p))) (memory s) = Some i"
      "slab_take c p i s = Some (ob, s')" "ob \<noteq> 0" "cache_inv c ps' fs' s'" "pmm_inv s'"
      and sets: "set (ps' @ fs') = set (p # qs @ fs)"
      and live: "cache_live c (ps' @ fs') s' = insert ob (cache_live c (p # qs @ fs) s)"
        "ob \<notin> cache_live c (p # qs @ fs) s" and frame: "own_frame {p} s s'"
      and rest: "\<And>c'. c' \<noteq> c \<Longrightarrow> get_cache c' s' = get_cache c' s"
        "size_caches s' = size_caches s" "c_obj_size (get_cache c s') = c_obj_size (get_cache c s)"
      and frames: "free_frames s' = free_frames s"
    have "slab_alloc c s = Some (ob, s')" using part take by (simp add: slab_alloc_def)
    moreover have "own_frame (set ps) s s'" using frame Cons by (auto simp: own_frame_def)
    ultimately show ?thesis
      using take live sets rest frames Cons by (intro ok [of ob s' ps' fs']) auto
  qed
qed

section \<open>Release\<close>

lemma unmark_relist_ok:
  assumes inv: "cache_inv c ps fs s" and pmm: "pmm_inv s" and p: "p \<in> set (ps @ fs)"
    and i: "i < unat (slab_capacity (c_obj_size (get_cache c s)))"
    and used: "bitmap_test (hd_bitmap p) i (memory s)"
    and s1: "s1 = set_cache c (\<lambda>c. c\<lparr>c_num_frees := c_num_frees c + 1\<rparr>) (s\<lparr>memory := unmark_obj p i (memory s)\<rparr>)"
  obtains s2 ps2 fs2 where
    "(if hd_free (memory s) p = 0 then slab_relist c p s1 else Some s1) = Some s2"
    "cache_inv c ps2 fs2 s2" "p \<in> set ps2" "set (ps2 @ fs2) = set (ps @ fs)"
    "cache_live c (ps2 @ fs2) s2 = cache_live c (ps @ fs) s - {slab_get_obj (memory s) p i}"
    "pmm_same s s2" "own_frame (set (ps @ fs)) s s2"
    "\<And>c'. c' \<noteq> c \<Longrightarrow> get_cache c' s2 = get_cache c' s" "size_caches s2 = size_caches s"
    "c_obj_size (get_cache c s2) = c_obj_size (get_cache c s)"
proof -
  let ?osz = "c_obj_size (get_cache c s)" and ?m = "memory s" and ?m1 = "unmark_obj p i (memory s)"
  let ?ob = "slab_get_obj (memory s) p i"
  have osz: "obj_size_ok ?osz" and page: "own_page s p" "page_of p = p" "p \<noteq> 0" and ok: "slab_ok ?osz ?m p"
    and list: "slab_list ?m (c_partial (get_cache c s)) ps" "slab_list ?m (c_full (get_cache c s)) fs"
    and dist: "distinct (ps @ fs)" and pages: "\<forall>q \<in> set (ps @ fs). page_of q = q"
    and slabs: "\<forall>q \<in> set (ps @ fs). own_page s q"
    and num: "c_num_slabs (get_cache c s) = of_nat (length (ps @ fs))"
    using inv p by (auto simp: cache_inv_def own_page_def)
  have i256: "i < 256" using i slab_capacity_bounds(2) [OF osz] by simp
  note unmark = unmark_obj_ok [OF osz ok page(2) i used]
  have only1: "\<forall>a. page_of a \<noteq> p \<longrightarrow> ?m1 a = ?m a"
    using mark_obj_pages [OF i256 page(2)] by simp
  have next1: "hd_next ?m1 q = hd_next ?m q" if "q \<in> set (ps @ fs)" for q
  proof (cases "q = p")
    case False
    then show ?thesis
      using only1 that pages page_disj_agree [of p ?m1 ?m q 56] by (intro hd_next_agree) simp
  qed (simp add: unmark_obj_fields [OF i256])
  then have list1: "slab_list ?m1 h ps = slab_list ?m h ps" "slab_list ?m1 h fs = slab_list ?m h fs" for h
    by (auto intro!: slab_list_agree)
  have others: "?ob \<notin> slab_live ?osz ?m q" if "q \<in> set (ps @ fs)" "q \<noteq> p" for q
  proof
    from that(1) have q: "slab_ok ?osz ?m q" "page_of q = q"
      using inv unfolding cache_inv_def own_page_def by auto
    assume "?ob \<in> slab_live ?osz ?m q"
    then have "page_of ?ob = q" by (rule slab_live_page [OF osz q])
    then have "q = p" using slab_get_obj_nat(2) [OF osz ok i page(2)] by (simp only:)
    with that(2) show False by (rule notE)
  qed
  have live: "slab_live ?osz ?m1 p \<union> cache_live c (filter (\<lambda>q. q \<noteq> p) (ps @ fs)) s
      = cache_live c (ps @ fs) s - {?ob}"
  proof -
    have "cache_live c (ps @ fs) s = slab_live ?osz ?m p \<union> cache_live c (filter (\<lambda>q. q \<noteq> p) (ps @ fs)) s"
      using p by (subst cache_live_def, subst UN_split [of _ _ p]) (auto simp: cache_live_def)
    moreover have "?ob \<notin> cache_live c (filter (\<lambda>q. q \<noteq> p) (ps @ fs)) s"
      using others by (auto simp: cache_live_def)
    ultimately show ?thesis unfolding unmark(3) by blast
  qed
  have agr1: "agree (rng q 48) ?m1 ?m" if "q \<in> set (ps @ fs) - {p}" for q
    using only1 that pages page_disj_agree [of p ?m1 ?m q 48] by simp
  have caches1: "get_cache c s1 = (get_cache c s)\<lparr>c_num_frees := c_num_frees (get_cache c s) + 1\<rparr>"
    "memory s1 = ?m1" by (simp_all add: s1)
  show thesis
  proof (cases "hd_free ?m p = 0")
    case False
    then have pin: "p \<in> set ps" "p \<notin> set fs" using inv p by (auto simp: cache_inv_def)
    have only: "\<forall>a. page_of a \<notin> set (ps @ fs) \<longrightarrow> memory s1 a = ?m a" using only1 p by (auto simp: caches1)
    have step: "cache_inv c ps fs s1" "cache_live c (ps @ fs) s1 = cache_live c (ps @ fs) s - {?ob}"
      unfolding live [symmetric]
      using cache_inv_step [OF inv pmm, of s1 p ps fs] only agr1 unmark(1,2) pin list list1 dist num
      by (simp_all add: s1)
    show ?thesis
      by (rule that [of s1, OF _ step(1) pin(1) refl step(2)])
        (use page_step [OF pmm slabs, of s1] only False in \<open>simp_all add: s1\<close>)
  next
    case True
    then have pin: "p \<in> set fs" "p \<notin> set ps" using inv p by (auto simp: cache_inv_def)
    have "slab_list ?m1 (c_full (get_cache c s)) fs" using list list1 by simp
    then obtain h' m' where un: "slab_unlink (c_full (get_cache c s)) p ?m1 = Some (h', m')"
      "slab_list m' h' (remove1 p fs)"
      and agr2: "\<And>x. page_of x = x \<Longrightarrow> agree (rng x 48) m' ?m1"
        "\<And>x. page_of x = x \<Longrightarrow> x \<notin> set fs \<or> x = p \<Longrightarrow> agree (rng x 56) m' ?m1"
      and only2: "\<And>a. page_of a \<notin> set fs \<Longrightarrow> m' a = ?m1 a"
      by (rule slab_unlink_list [OF _ pin(1)]) (use dist pages in auto)
    define m2 where "m2 = store64 m' (p + 48) (c_partial (get_cache c s))"
    define s2 where "s2 = set_cache c (\<lambda>c. c\<lparr>c_full := h', c_partial := p\<rparr>) (s1\<lparr>memory := m2\<rparr>)"
    have only: "\<forall>a. page_of a \<notin> set (ps @ fs) \<longrightarrow> memory s2 a = ?m a"
    proof (intro allI impI)
      fix a assume a: "page_of a \<notin> set (ps @ fs)"
      then have "page_of a \<noteq> p" using p by auto
      then show "memory s2 a = ?m a"
        using a only1 only2 [of a] agree_link(3) [OF page(2), of a] by (simp add: s2_def m2_def)
    qed
    have agr3: "agree (rng q 48) m2 ?m" if "q \<in> set (ps @ fs) - {p}" for q
    proof -
      have "page_of q = q" "q \<noteq> p" using that pages by auto
      then have "agree (rng q 48) m2 m'"
        using agree_sub [OF agree_link(2) [OF page(2)], of q 48] by (simp add: m2_def)
      from agree_trans [OF this agree_trans [OF agr2(1) [OF \<open>page_of q = q\<close>] agr1 [OF that]]]
      show ?thesis .
    qed
    have agrp: "agree (rng p 48) m2 ?m1"
      using agree_trans [OF agree_link(1) [OF page(2)] agr2(1) [OF page(2)]] by (simp add: m2_def)
    have "slab_list m' (c_partial (get_cache c s)) ps"
    proof -
      have "slab_list m' h ps = slab_list ?m1 h ps" for h
        using dist pages by (intro slab_list_agree hd_next_agree agr2(2)) auto
      then show ?thesis using list list1 by simp
    qed
    then have lists: "slab_list m2 p (p # ps)" "slab_list m2 h' (remove1 p fs)"
      using un(2) pages page dist pin
      by (auto simp: m2_def hd_next_store slab_list_link set_remove1_eq)
    have sets: "set (remove1 p fs) = set fs - {p}" "distinct ((p # ps) @ remove1 p fs)"
      "length ((p # ps) @ remove1 p fs) = length (ps @ fs)"
      using dist pin by (auto simp: set_remove1_eq length_remove1) (metis Suc_pred length_pos_if_in_set)
    have "set fs - {p} \<subseteq> set ps \<union> set fs"
      "(of_nat (length fs) :: u64) = 1 + of_nat (length (remove1 p fs))"
      using arg_cong [OF sets(3), of "of_nat :: nat \<Rightarrow> u64"] by auto
    then have step: "cache_inv c (p # ps) (remove1 p fs) s2"
      "cache_live c ((p # ps) @ remove1 p fs) s2 = cache_live c (ps @ fs) s - {?ob}"
      using cache_inv_step [OF inv pmm, of s2 p "p # ps" "remove1 p fs"] only agr3 lists sets pin num live
        slab_ok_agree [OF agrp osz] hd_agree(4) [OF agrp] unmark(1,2)
      by (simp_all add: s2_def s1)
    show ?thesis
      by (rule that [of s2, OF _ step(1) _ _ step(2)])
        (use page_step [OF pmm slabs, of s2] only True un(1) sets pin in \<open>auto simp: slab_relist_def s2_def s1 m2_def\<close>)
  qed
qed

lemma get_cache_free [simp]: "get_cache c (pmm_free p s) = get_cache c s"
  "size_caches (pmm_free p s) = size_caches s"
  by (simp_all add: get_cache_def pmm_free_def Let_def bm_clear_def)

lemma slab_empty_live:
  assumes "slab_ok osz m p" "hd_free m p = hd_total m p"
  shows "slab_live osz m p = {}"
proof -
  let ?F = "{i. i < unat (slab_capacity osz) \<and> \<not> bitmap_test (hd_bitmap p) i m}"
  have "card ?F = card {..< unat (slab_capacity osz)}"
    using assms unfolding slab_ok_def by (metis card_lessThan)
  then have "?F = {..< unat (slab_capacity osz)}" by (intro card_subset_eq) auto
  then show ?thesis by (auto simp: slab_live_def)
qed

text \<open>Returning the page of an empty slab to the frame allocator.\<close>

lemma slab_drop_ok:
  assumes inv: "cache_inv c ps fs s" and pmm: "pmm_inv s" and p: "p \<in> set ps"
    and empty: "hd_free (memory s) p = hd_total (memory s) p"
  obtains s' where
    "slab_shrink c p s = Some s'"
    "cache_inv c (remove1 p ps) fs s'" "pmm_inv s'"
    "cache_live c (remove1 p ps @ fs) s' = cache_live c (ps @ fs) s"
    "own_frame (set (ps @ fs)) s s'"
    "\<And>c'. c' \<noteq> c \<Longrightarrow> get_cache c' s' = get_cache c' s" "size_caches s' = size_caches s"
    "c_obj_size (get_cache c s') = c_obj_size (get_cache c s)"
proof -
  let ?osz = "c_obj_size (get_cache c s)" and ?m = "memory s"
  have osz: "obj_size_ok ?osz" and page: "own_page s p" "page_of p = p" and ok: "slab_ok ?osz ?m p"
    and list: "slab_list ?m (c_partial (get_cache c s)) ps" "slab_list ?m (c_full (get_cache c s)) fs"
    and dist: "distinct (ps @ fs)" and pages: "\<forall>q \<in> set (ps @ fs). page_of q = q"
    and slabs: "\<forall>q \<in> set (ps @ fs). own_page s q"
    and num: "c_num_slabs (get_cache c s) = of_nat (length (ps @ fs))"
    using inv p by (auto simp: cache_inv_def own_page_def)
  obtain h' m' where un: "slab_unlink (c_partial (get_cache c s)) p ?m = Some (h', m')"
    "slab_list m' h' (remove1 p ps)"
    and agr: "\<And>x. page_of x = x \<Longrightarrow> agree (rng x 48) m' ?m"
      "\<And>x. page_of x = x \<Longrightarrow> x \<notin> set ps \<or> x = p \<Longrightarrow> agree (rng x 56) m' ?m"
    and only: "\<And>a. page_of a \<notin> set ps \<Longrightarrow> m' a = ?m a"
    by (rule slab_unlink_list [OF list(1) p]) (use dist pages in auto)
  define s1 where "s1 = set_cache c (\<lambda>c. c\<lparr>c_partial := h', c_num_slabs := c_num_slabs c - 1\<rparr>) (s\<lparr>memory := m'\<rparr>)"
  have "slab_list m' h fs = slab_list ?m h fs" for h
    using dist pages by (intro slab_list_agree hd_next_agree agr(2)) auto
  then have full: "slab_list m' (c_full (get_cache c s)) fs" using list by simp
  have sets: "set (remove1 p ps) = set ps - {p}" "distinct (remove1 p ps @ fs)"
    "set ps - {p} \<subseteq> set (ps @ fs)" "set fs - {p} = set fs" "p \<notin> set fs"
    using dist p by (auto simp: set_remove1_eq)
  have "Suc (length (remove1 p ps @ fs)) = length (ps @ fs)"
    using p by (simp add: length_remove1) (metis Suc_pred length_pos_if_in_set)
  from arg_cong [OF this, of "of_nat :: nat \<Rightarrow> u64", symmetric]
  have num1: "c_num_slabs (get_cache c s) - 1 = of_nat (length (remove1 p ps @ fs))"
    by (simp only: num of_nat_Suc add_diff_cancel_left')
  have only1: "\<forall>a. page_of a \<notin> set (ps @ fs) \<longrightarrow> memory s1 a = ?m a" using only by (simp add: s1_def)
  have agr1: "\<forall>q \<in> set (ps @ fs) - {p}. agree (rng q 48) (memory s1) ?m"
    using agr(1) pages by (simp add: s1_def)
  have step: "cache_inv c (remove1 p ps) fs s1"
      "cache_live c (remove1 p ps @ fs) s1 = cache_live c (filter (\<lambda>q. q \<noteq> p) (ps @ fs)) s"
    using cache_inv_step [OF inv pmm, of s1 p "remove1 p ps" fs] only1 agr1 un(2) full sets num1 dist p
    by (simp_all add: s1_def)
  have live: "cache_live c (filter (\<lambda>q. q \<noteq> p) (ps @ fs)) s = cache_live c (ps @ fs) s"
    using slab_empty_live [OF ok empty] by (auto simp: cache_live_def)
  note pg = page_step [OF pmm slabs, of s1]
  have same: "pmm_same s s1" and frame1: "own_frame (set (ps @ fs)) s s1" and page1: "own_page s1 p"
    using pg only1 page(1) by (simp_all add: s1_def)
  have pmm1: "pmm_inv s1" by (rule pmm_same_inv [OF pmm same])
  note drop = cache_inv_frame [OF step(1) own_frame_free [OF pmm1 page(2)]]
  have "set (remove1 p ps @ fs) \<inter> {p} = {}" using dist p by (auto simp: set_remove1_eq)
  note drop = drop [OF this get_cache_free(1)]
  show ?thesis
  proof (rule that [of "pmm_free p s1"])
    show "pmm_inv (pmm_free p s1)"
      using own_page_frame [OF page1] by (intro pmm_inv_free [OF pmm1]) auto
    show "own_frame (set (ps @ fs)) s (pmm_free p s1)"
      using own_frame_trans [OF frame1 own_frame_free [OF pmm1 page(2)]] p by (simp add: insert_absorb)
  qed (use un(1) drop step(2) live in \<open>simp_all add: slab_shrink_def s1_def\<close>)
qed

lemma slab_free_ok:
  assumes inv: "cache_inv c ps fs s" and pmm: "pmm_inv s" and ptr: "ptr \<in> cache_live c (ps @ fs) s"
  obtains s' ps' fs' where "slab_free c ptr s = Some s'" "cache_inv c ps' fs' s'" "pmm_inv s'"
    "cache_live c (ps' @ fs') s' = cache_live c (ps @ fs) s - {ptr}"
    "set (ps' @ fs') \<subseteq> set (ps @ fs)" "own_frame (set (ps @ fs)) s s'"
    "\<And>c'. c' \<noteq> c \<Longrightarrow> get_cache c' s' = get_cache c' s" "size_caches s' = size_caches s"
    "c_obj_size (get_cache c s') = c_obj_size (get_cache c s)"
proof -
  let ?osz = "c_obj_size (get_cache c s)" and ?m = "memory s"
  from ptr obtain p i where p: "p \<in> set (ps @ fs)" and i: "i < unat (slab_capacity ?osz)"
    and used: "bitmap_test (hd_bitmap p) i ?m" and ob: "ptr = slab_get_obj ?m p i"
    by (auto simp: cache_live_def slab_live_def)
  have osz: "obj_size_ok ?osz" and ok: "slab_ok ?osz ?m p" and page: "page_of p = p" and c: "c \<noteq> 0"
    using inv p by (auto simp: cache_inv_def own_page_def)
  have nz: "ptr \<noteq> 0" "page_of ptr = p" "slab_find_obj_idx ?m p ptr = Some i"
    using slab_get_obj_nat [OF osz ok i page] slab_find_get [OF osz ok i page] by (auto simp: ob)
  have magic: "hd_magic ?m p = SLAB_MAGIC" using ok by (simp add: slab_ok_def)
  define s1 where "s1 = set_cache c (\<lambda>c. c\<lparr>c_num_frees := c_num_frees c + 1\<rparr>) (s\<lparr>memory := unmark_obj p i ?m\<rparr>)"
  obtain s2 ps2 fs2 where A: "(if hd_free ?m p = 0 then slab_relist c p s1 else Some s1) = Some s2"
    and inv2: "cache_inv c ps2 fs2 s2" "p \<in> set ps2" and set2: "set (ps2 @ fs2) = set (ps @ fs)"
    and live2: "cache_live c (ps2 @ fs2) s2 = cache_live c (ps @ fs) s - {ptr}"
    and same: "pmm_same s s2" and frame2: "own_frame (set (ps @ fs)) s s2"
    and rest: "\<And>c'. c' \<noteq> c \<Longrightarrow> get_cache c' s2 = get_cache c' s" "size_caches s2 = size_caches s"
      "c_obj_size (get_cache c s2) = c_obj_size (get_cache c s)"
    using unmark_relist_ok [OF inv pmm p i used s1_def] unfolding ob by metis
  have pmm2: "pmm_inv s2" by (rule pmm_same_inv [OF pmm same])
  have free: "slab_free c ptr s = (if hd_free (memory s2) p = hd_total (memory s2) p
      \<and> c_num_slabs (get_cache c s2) > 2 then slab_shrink c p s2 else Some s2)"
    using nz c magic used A by (simp add: slab_free_def Let_def s1_def [symmetric])
  show thesis
  proof (cases "hd_free (memory s2) p = hd_total (memory s2) p \<and> c_num_slabs (get_cache c s2) > 2")
    case False
    show ?thesis
      by (rule that [OF _ inv2(1) pmm2 live2 _ frame2 rest]) (use False free set2 in auto)
  next
    case True
    then have "hd_free (memory s2) p = hd_total (memory s2) p" by simp
    then obtain s3 where B: "slab_shrink c p s2 = Some s3" "cache_inv c (remove1 p ps2) fs2 s3" "pmm_inv s3"
      "cache_live c (remove1 p ps2 @ fs2) s3 = cache_live c (ps2 @ fs2) s2"
      "own_frame (set (ps2 @ fs2)) s2 s3"
      and rest3: "\<And>c'. c' \<noteq> c \<Longrightarrow> get_cache c' s3 = get_cache c' s2" "size_caches s3 = size_caches s2"
        "c_obj_size (get_cache c s3) = c_obj_size (get_cache c s2)"
      using slab_drop_ok [OF inv2(1) pmm2 inv2(2)] by metis
    show ?thesis
    proof (rule that [OF _ B(2,3)])
      show "slab_free c ptr s = Some s3" using True free B(1) by simp
      show "set (remove1 p ps2 @ fs2) \<subseteq> set (ps @ fs)"
        using set2 set_remove1_subset [of p ps2] by auto
      show "own_frame (set (ps @ fs)) s s3"
        using own_frame_trans [OF frame2 B(5)] set2 by simp
    qed (use live2 B(4) rest rest3 in auto)
  qed
qed

end
