(* ===== verification/SlabHeap.thy ===== *)
theory SlabHeap
  imports SlabInv
begin

text \<open>
  The general purpose heap: the eight size caches together.  \<open>kmalloc_slab\<close> and \<open>kfree_slab\<close> keep an
  invariant over all of them, and the objects in use never overlap.
\<close>

section \<open>The heap invariant\<close>

definition heap_inv :: "(nat \<Rightarrow> u64 list) \<Rightarrow> (nat \<Rightarrow> u64 list) \<Rightarrow> 'a slab_state_scheme \<Rightarrow> bool" where
  "heap_inv P F s \<longleftrightarrow> pmm_inv s
     \<and> (\<forall>i<8. cache_inv (size_cache_addr i s) (P i) (F i) s
          \<and> c_obj_size (get_cache (size_cache_addr i s) s) = slab_sizes ! i)
     \<and> (\<forall>i<8. \<forall>j<8. i \<noteq> j \<longrightarrow> set (P i @ F i) \<inter> set (P j @ F j) = {})"

definition heap_live :: "(nat \<Rightarrow> u64 list) \<Rightarrow> (nat \<Rightarrow> u64 list) \<Rightarrow> 'a slab_state_scheme \<Rightarrow> u64 set" where
  "heap_live P F s = (\<Union>i<8. cache_live (size_cache_addr i s) (P i @ F i) s)"

lemma less8: "i < 8 \<longleftrightarrow> i \<in> {0, 1, 2, 3, 4, 5, 6, 7}" for i :: nat
  by auto

lemma size_cache_addr_inj:
  assumes "i < 8" "j < 8"
  shows "size_cache_addr i s = size_cache_addr j s \<longleftrightarrow> i = j"
  using assms by (auto simp: less8 size_cache_addr_def)

lemma slab_sizes_ok: "i < 8 \<Longrightarrow> obj_size_ok (slab_sizes ! i)"
  by (auto simp: less8 slab_sizes_def obj_size_ok_def)

lemma slab_sizes_inj: "i < 8 \<Longrightarrow> j < 8 \<Longrightarrow> slab_sizes ! i = slab_sizes ! j \<longleftrightarrow> i = j"
  by (auto simp: less8 slab_sizes_def)

text \<open>A step of the cache \<open>i\<close> that keeps the other caches.\<close>

lemma heap_inv_step:
  assumes inv: "heap_inv P F s" and i: "i < 8" and pmm: "pmm_inv s'"
    and cache: "cache_inv (size_cache_addr i s) ps fs s'"
      "c_obj_size (get_cache (size_cache_addr i s) s') = c_obj_size (get_cache (size_cache_addr i s) s)"
    and new: "\<forall>q \<in> set (ps @ fs) - set (P i @ F i). \<not> own_page s q"
    and frame: "own_frame (set (P i @ F i)) s s'"
    and rest: "\<forall>c'. c' \<noteq> size_cache_addr i s \<longrightarrow> get_cache c' s' = get_cache c' s"
      "size_caches s' = size_caches s"
  shows "heap_inv (P(i := ps)) (F(i := fs)) s'"
    and "heap_live (P(i := ps)) (F(i := fs)) s' = cache_live (size_cache_addr i s) (ps @ fs) s'
       \<union> (\<Union>j \<in> {..<8} - {i}. cache_live (size_cache_addr j s) (P j @ F j) s)"
    and "\<lbrakk>j < 8; j \<noteq> i\<rbrakk> \<Longrightarrow> cache_live (size_cache_addr j s') (P j @ F j) s'
       = cache_live (size_cache_addr j s) (P j @ F j) s"
proof -
  have addr: "size_cache_addr j s' = size_cache_addr j s" for j
    using rest(2) by (simp add: size_cache_addr_def)
  have other: "cache_inv (size_cache_addr j s) (P j) (F j) s'"
    "cache_live (size_cache_addr j s) (P j @ F j) s' = cache_live (size_cache_addr j s) (P j @ F j) s"
    "c_obj_size (get_cache (size_cache_addr j s) s') = slab_sizes ! j"
    "set (ps @ fs) \<inter> set (P j @ F j) = {}" if j: "j < 8" "j \<noteq> i" for j
  proof -
    have g: "get_cache (size_cache_addr j s) s' = get_cache (size_cache_addr j s) s"
      using rest(1) size_cache_addr_inj [OF j(1) i, of s] j(2) by simp
    have disj: "set (P j @ F j) \<inter> set (P i @ F i) = {}" using inv j i unfolding heap_inv_def by blast
    have c: "cache_inv (size_cache_addr j s) (P j) (F j) s" using inv j by (simp add: heap_inv_def)
    show "cache_inv (size_cache_addr j s) (P j) (F j) s'"
      "cache_live (size_cache_addr j s) (P j @ F j) s' = cache_live (size_cache_addr j s) (P j @ F j) s"
      using cache_inv_frame [OF c frame disj g] .
    show "c_obj_size (get_cache (size_cache_addr j s) s') = slab_sizes ! j"
      using inv j by (simp add: g heap_inv_def)
    have "\<forall>q \<in> set (P j @ F j). own_page s q" using c by (simp add: cache_inv_def)
    then show "set (ps @ fs) \<inter> set (P j @ F j) = {}" using new disj by blast
  qed
  then show "\<lbrakk>j < 8; j \<noteq> i\<rbrakk> \<Longrightarrow> cache_live (size_cache_addr j s') (P j @ F j) s'
      = cache_live (size_cache_addr j s) (P j @ F j) s"
    by (simp add: addr)
  have "c_obj_size (get_cache (size_cache_addr i s) s') = slab_sizes ! i"
    using cache(2) inv i by (simp add: heap_inv_def)
  moreover have "set (P a @ F a) \<inter> set (P b @ F b) = {}" if "a < 8" "b < 8" "a \<noteq> b" for a b
    using inv that unfolding heap_inv_def by blast
  ultimately show "heap_inv (P(i := ps)) (F(i := fs)) s'"
    unfolding heap_inv_def addr using pmm cache(1) other by (simp add: Int_commute)
  show "heap_live (P(i := ps)) (F(i := fs)) s' = cache_live (size_cache_addr i s) (ps @ fs) s'
       \<union> (\<Union>j \<in> {..<8} - {i}. cache_live (size_cache_addr j s) (P j @ F j) s)"
    unfolding heap_live_def addr by (subst UN_split [of _ _ i]) (use i other(2) in simp)
qed

lemma heap_live_split:
  "i < 8 \<Longrightarrow> heap_live P F s = cache_live (size_cache_addr i s) (P i @ F i) s
     \<union> (\<Union>j \<in> {..<8} - {i}. cache_live (size_cache_addr j s) (P j @ F j) s)"
  unfolding heap_live_def by (subst UN_split [of _ _ i]) simp

text \<open>Every object in use lies in the page of exactly one slab.\<close>

lemma cache_live_page:
  assumes "cache_inv c ps fs s" "x \<in> cache_live c (ps @ fs) s"
  shows "page_of x \<in> set (ps @ fs)" "x \<in> slab_live (c_obj_size (get_cache c s)) (memory s) (page_of x)"
proof -
  obtain p where p: "p \<in> set (ps @ fs)" "x \<in> slab_live (c_obj_size (get_cache c s)) (memory s) p"
    using assms(2) by (auto simp: cache_live_def)
  have "page_of x = p"
    using assms(1) p by (intro slab_live_page [OF _ _ _ p(2)]) (auto simp: cache_inv_def own_page_def)
  with p show "page_of x \<in> set (ps @ fs)"
    "x \<in> slab_live (c_obj_size (get_cache c s)) (memory s) (page_of x)" by simp_all
qed

lemma heap_live_unique:
  assumes "heap_inv P F s" "i < 8" "j < 8"
    "x \<in> cache_live (size_cache_addr i s) (P i @ F i) s" "x \<in> cache_live (size_cache_addr j s) (P j @ F j) s"
  shows "i = j"
proof -
  have "page_of x \<in> set (P i @ F i)" "page_of x \<in> set (P j @ F j)"
    using assms cache_live_page(1) unfolding heap_inv_def by blast+
  then show ?thesis using assms(1-3) unfolding heap_inv_def by blast
qed

section \<open>Allocation and release\<close>

lemma size_cache_find:
  assumes inv: "heap_inv P F s" and sz: "sz \<le> 2048"
  obtains i where "i < 8" "sz \<le> slab_sizes ! i"
    "find (\<lambda>i. sz \<le> c_obj_size (get_cache (size_cache_addr i s) s)) [0..<8] = Some i"
proof -
  have sizes: "c_obj_size (get_cache (size_cache_addr i s) s) = slab_sizes ! i" if "i < 8" for i
    using inv that by (simp add: heap_inv_def)
  let ?f = "find (\<lambda>i. sz \<le> c_obj_size (get_cache (size_cache_addr i s) s)) [0..<8]"
  have "sz \<le> c_obj_size (get_cache (size_cache_addr 7 s) s)" using sz sizes [of 7] by (simp add: slab_sizes_def)
  then obtain i where i: "?f = Some i" by (cases ?f) (auto simp: find_None_iff)
  then have "i < 8" "sz \<le> c_obj_size (get_cache (size_cache_addr i s) s)" by (auto simp: find_Some_iff)
  with i sizes that show thesis by auto
qed

lemma kmalloc_slab_ok:
  assumes inv: "heap_inv P F s" and sz: "0 < sz" "sz \<le> 2048"
  obtains (fail) "kmalloc_slab sz s = Some (0, s)" "free_frames s = {}"
  | (ok) p s' P' F' i where "kmalloc_slab sz s = Some (p, s')" "p \<noteq> 0" "heap_inv P' F' s'"
    "p \<notin> heap_live P F s" "heap_live P' F' s' = insert p (heap_live P F s)"
    "i < 8" "sz \<le> slab_sizes ! i" "p \<in> cache_live (size_cache_addr i s') (P' i @ F' i) s'"
    "card (free_frames s) \<le> Suc (card (free_frames s'))"
proof -
  obtain i where i: "i < 8" "sz \<le> slab_sizes ! i"
    and find: "find (\<lambda>i. sz \<le> c_obj_size (get_cache (size_cache_addr i s) s)) [0..<8] = Some i"
    by (rule size_cache_find [OF inv sz(2)])
  let ?c = "size_cache_addr i s"
  have alloc: "kmalloc_slab sz s = slab_alloc ?c s"
    using sz find by (simp add: kmalloc_slab_def not_less [symmetric] word_gt_0)
  have c: "cache_inv ?c (P i) (F i) s" and pmm: "pmm_inv s" using inv i by (simp_all add: heap_inv_def)
  show thesis
  proof (cases rule: slab_alloc_ok [OF c pmm])
    case 1
    then show ?thesis using alloc by (intro fail) simp_all
  next
    case (2 p s' ps fs)
    have frame: "own_frame (set (P i @ F i)) s s'" using 2(8) by (simp add: own_frame_def)
    have "\<forall>c'. c' \<noteq> ?c \<longrightarrow> get_cache c' s' = get_cache c' s" using 2(9) by simp
    note step = heap_inv_step [OF inv i(1) 2(4,3,11,7) frame this 2(10)]
    have "p \<notin> cache_live (size_cache_addr j s) (P j @ F j) s" if "j < 8" "j \<noteq> i" for j
    proof
      assume p: "p \<in> cache_live (size_cache_addr j s) (P j @ F j) s"
      have "p \<in> cache_live (size_cache_addr j s') (((P(i := ps)) j) @ ((F(i := fs)) j)) s'"
        using p step(3) [OF that] that by simp
      moreover have "p \<in> cache_live (size_cache_addr i s') (((P(i := ps)) i) @ ((F(i := fs)) i)) s'"
        using 2(6,10) by (simp add: size_cache_addr_def)
      ultimately show False using heap_live_unique [OF step(1) that(1) i(1)] that(2) by blast
    qed
    then have new: "p \<notin> heap_live P F s" using 2(5) heap_live_split [OF i(1), of P F s] by auto
    show ?thesis
      by (rule ok [OF _ 2(2) step(1) new _ i])
        (use alloc 2(1,6,10,12) step(2) heap_live_split [OF i(1), of P F s] in
          \<open>auto simp: size_cache_addr_def\<close>)
  qed
qed

lemma kfree_slab_ok:
  assumes inv: "heap_inv P F s" and p: "p \<in> heap_live P F s"
  obtains s' P' F' where "kfree_slab p s = Some s'" "heap_inv P' F' s'"
    "heap_live P' F' s' = heap_live P F s - {p}"
proof -
  from p obtain i where i: "i < 8" "p \<in> cache_live (size_cache_addr i s) (P i @ F i) s"
    by (auto simp: heap_live_def)
  let ?c = "size_cache_addr i s"
  have c: "cache_inv ?c (P i) (F i) s" and pmm: "pmm_inv s" using inv i by (simp_all add: heap_inv_def)
  have sizes: "c_obj_size (get_cache (size_cache_addr j s) s) = slab_sizes ! j" if "j < 8" for j
    using inv that by (simp add: heap_inv_def)
  let ?q = "page_of p"
  have "?q \<in> set (P i @ F i)" "p \<in> slab_live (slab_sizes ! i) (memory s) ?q"
    using cache_live_page [OF c i(2)] sizes [OF i(1)] by simp_all
  then have ok: "slab_ok (slab_sizes ! i) (memory s) ?q" and page: "page_of ?q = ?q"
    using c sizes [OF i(1)] by (auto simp: cache_inv_def)
  note osz = slab_sizes_ok [OF i(1)]
  obtain k where "k < unat (slab_capacity (slab_sizes ! i))" "p = slab_get_obj (memory s) ?q k"
    using \<open>p \<in> slab_live _ _ _\<close> by (auto simp: slab_live_def)
  then have nz: "p \<noteq> 0" using slab_get_obj_nat(1) [OF osz ok _ page, of k] by auto
  have "unat (hd_obj_size (memory s) ?q) = unat (slab_sizes ! i)"
    using ok osz by (simp add: slab_ok_def obj_size_ok_def word_le_nat_alt unsigned_ucast_eq take_bit_nat_eq_self)
  then have hd: "ucast (hd_obj_size (memory s) ?q) = slab_sizes ! i"
    by (simp only: word_unat_eq_iff unat_ucast_32_64)
  have "find (\<lambda>j. c_obj_size (get_cache (size_cache_addr j s) s) = slab_sizes ! i) [0..<8] = Some i"
    (is "?f = _")
  proof -
    have "c_obj_size (get_cache ?c s) = slab_sizes ! i" by (rule sizes [OF i(1)])
    then obtain j where j: "?f = Some j" using i(1) by (cases ?f) (auto simp: find_None_iff)
    then have "j < 8" "c_obj_size (get_cache (size_cache_addr j s) s) = slab_sizes ! i"
      by (auto simp: find_Some_iff)
    then show ?thesis using j sizes [of j] slab_sizes_inj [OF _ i(1), of j] by simp
  qed
  then have free: "kfree_slab p s = slab_free ?c p s"
    using nz ok hd by (simp add: kfree_slab_def slab_ok_def Let_def)
  obtain s' ps fs where A: "slab_free ?c p s = Some s'" "cache_inv ?c ps fs s'" "pmm_inv s'"
    "cache_live ?c (ps @ fs) s' = cache_live ?c (P i @ F i) s - {p}"
    "set (ps @ fs) \<subseteq> set (P i @ F i)" "own_frame (set (P i @ F i)) s s'"
    and B: "\<And>c'. c' \<noteq> ?c \<Longrightarrow> get_cache c' s' = get_cache c' s" "size_caches s' = size_caches s"
      "c_obj_size (get_cache ?c s') = c_obj_size (get_cache ?c s)"
    using slab_free_ok [OF c pmm i(2)] by metis
  have "\<forall>c'. c' \<noteq> ?c \<longrightarrow> get_cache c' s' = get_cache c' s"
    "\<forall>q \<in> set (ps @ fs) - set (P i @ F i). \<not> own_page s q" using A(5) B(1) by auto
  note step = heap_inv_step [OF inv i(1) A(3,2) B(3) this(2) A(6) this(1) B(2)]
  have "p \<notin> cache_live (size_cache_addr j s) (P j @ F j) s" if "j < 8" "j \<noteq> i" for j
    using heap_live_unique [OF inv that(1) i(1) _ i(2)] that(2) by blast
  then have "heap_live (P(i := ps)) (F(i := fs)) s' = heap_live P F s - {p}"
    unfolding step(2) A(4) using heap_live_split [OF i(1), of P F s] by auto
  with step(1) free A(1) show thesis by (intro that) auto
qed

section \<open>Objects in use do not overlap\<close>

lemma disj_rng_below:
  assumes "unat a + unat j \<le> unat b" "unat b + unat k \<le> 2 ^ 64" "0 < unat j"
  shows "disj_rng a j b k"
proof -
  have "a \<noteq> b" using assms by auto
  then have "unat (a - b) + unat (b - a) = 2 ^ 64" by (rule unat_sub_both)
  moreover have "unat (b - a) = unat b - unat a" using assms(1) by (intro unat_sub) (simp add: word_le_nat_alt)
  ultimately show ?thesis unfolding disj_rng_def word_le_nat_alt using assms by linarith
qed

lemma aligned_below:
  assumes "4096 dvd p" "4096 dvd q" "p < q"
  shows "p + 4096 \<le> (q :: nat)"
  using assms by (elim dvdE) auto

lemma live_object_place:
  assumes "heap_inv P F s" "i < 8" "x \<in> cache_live (size_cache_addr i s) (P i @ F i) s"
  obtains k where "unat x = unat (page_of x) + 56 + k * unat (slab_sizes ! i)"
    "k * unat (slab_sizes ! i) + unat (slab_sizes ! i) \<le> 4040" "page_of x \<in> set (P i @ F i)"
proof -
  have c: "cache_inv (size_cache_addr i s) (P i) (F i) s"
    and osz: "c_obj_size (get_cache (size_cache_addr i s) s) = slab_sizes ! i"
    using assms by (simp_all add: heap_inv_def)
  note pg = cache_live_page [OF c assms(3), unfolded osz] and ok8 = slab_sizes_ok [OF assms(2)]
  have ok: "slab_ok (slab_sizes ! i) (memory s) (page_of x)" using c pg(1) osz by (auto simp: cache_inv_def)
  obtain k where k: "k < unat (slab_capacity (slab_sizes ! i))" "x = slab_get_obj (memory s) (page_of x) k"
    using pg(2) by (auto simp: slab_live_def)
  have "unat x = unat (page_of x) + 56 + k * unat (slab_sizes ! i)"
    using slab_get_obj_nat(1) [OF ok8 ok k(1) page_of_idem] k(2) by simp
  then show thesis using slab_capacity_bounds(3) [OF ok8 k(1)] pg(1) by (intro that) auto
qed

lemma mult_gap: "(a :: nat) < b \<Longrightarrow> a * n + n \<le> b * n"
  by (metis Suc_leI add.commute mult_Suc mult_le_mono1)

lemma page_top: "unat (page_of x) + 4096 \<le> 2 ^ 64"
proof -
  have "4096 dvd unat (page_of x)" "4096 dvd (2 ^ 64 :: nat)" by (simp_all add: page_of_div)
  then show ?thesis using aligned_below [of "unat (page_of x)" "2 ^ 64"] unat_bound [of "page_of x"] by simp
qed

section \<open>Properties\<close>

abbreviation new_cache :: "u64 list \<Rightarrow> nat \<Rightarrow> slab_cache" where
  "new_cache names i \<equiv> \<lparr>c_name = names ! i, c_obj_size = slab_sizes ! i, c_align = 16, c_partial = 0,
     c_full = 0, c_num_allocs = 0, c_num_frees = 0, c_num_slabs = 0\<rparr>"

definition init_upto :: "u64 list \<Rightarrow> nat \<Rightarrow> 'a slab_state_scheme \<Rightarrow> 'a slab_state_scheme" where
  "init_upto names n s = fold (\<lambda>i s. set_cache (size_cache_addr i s) (\<lambda>_. new_cache names i) s) [0..<n] s"

lemma init_upto_fields [simp]:
  "memory (init_upto names n s) = memory s" "bitmap (init_upto names n s) = bitmap s"
  "total_pages (init_upto names n s) = total_pages s" "free_pages (init_upto names n s) = free_pages s"
  "bitmap_size (init_upto names n s) = bitmap_size s" "size_caches (init_upto names n s) = size_caches s"
  by (induction n) (simp_all add: init_upto_def)

lemma init_upto_cache:
  "n \<le> 8 \<Longrightarrow> j < n \<Longrightarrow> get_cache (size_cache_addr j s) (init_upto names n s) = new_cache names j"
proof (induction n)
  case (Suc n)
  have step: "init_upto names (Suc n) s =
      set_cache (size_cache_addr n s) (\<lambda>_. new_cache names n) (init_upto names n s)"
    using init_upto_fields(6) [of names n s] by (simp add: init_upto_def size_cache_addr_def)
  show ?case
    using Suc size_cache_addr_inj [of j n s] unfolding step by (cases "j = n") auto
qed simp

lemma slab_init_upto: "slab_init names s = init_upto names 8 s"
  by (simp only: slab_init_def init_upto_def)

lemma slab_init_fields [simp]:
  "memory (slab_init names s) = memory s" "bitmap (slab_init names s) = bitmap s"
  "total_pages (slab_init names s) = total_pages s" "free_pages (slab_init names s) = free_pages s"
  "bitmap_size (slab_init names s) = bitmap_size s" "size_caches (slab_init names s) = size_caches s"
  by (simp_all add: slab_init_upto)

lemma slab_init_cache:
  "i < 8 \<Longrightarrow> get_cache (size_cache_addr i s) (slab_init names s) = new_cache names i"
  unfolding slab_init_upto by (rule init_upto_cache) simp_all

lemma slab_init_ok:
  assumes "pmm_inv s" and "\<And>i. i < 8 \<Longrightarrow> size_cache_addr i s \<noteq> 0"
  shows "heap_inv (\<lambda>_. []) (\<lambda>_. []) (slab_init names s)
    \<and> heap_live (\<lambda>_. []) (\<lambda>_. []) (slab_init names s) = {}"
proof
  have "pmm_inv (slab_init names s)"
    using assms(1) by (rule pmm_same_inv(1)) (simp add: pmm_same_def)
  moreover have "size_cache_addr i (slab_init names s) = size_cache_addr i s" for i
    by (simp add: size_cache_addr_def)
  ultimately show "heap_inv (\<lambda>_. []) (\<lambda>_. []) (slab_init names s)"
    using assms(2) by (simp add: heap_inv_def cache_inv_def slab_init_cache slab_sizes_ok)
  show "heap_live (\<lambda>_. []) (\<lambda>_. []) (slab_init names s) = {}"
    by (simp add: heap_live_def cache_live_def)
qed

text \<open>A machine with eight frames, five of them free, and no cache set up yet.\<close>

definition heap_demo :: slab_state where
  "heap_demo = \<lparr>memory = memory pmm_demo, bitmap = bitmap pmm_demo, total_pages = total_pages pmm_demo,
     free_pages = free_pages pmm_demo, bitmap_size = bitmap_size pmm_demo,
     slab_caches = (\<lambda>_. \<lparr>c_name = 0, c_obj_size = 0, c_align = 0, c_partial = 0, c_full = 0,
       c_num_allocs = 0, c_num_frees = 0, c_num_slabs = 0\<rparr>),
     size_caches = 0x600, caches = replicate 32 0, num_caches = 0\<rparr>"

lemma heap_demo_frames: "free_frames heap_demo = {3, 4, 5, 6, 7}"
  using pmm_demo_free by (simp add: free_frames_def bm_test_def heap_demo_def)

lemma heap_demo_pmm: "pmm_inv heap_demo"
  using pmm_demo_inv unfolding pmm_inv_def heap_demo_frames pmm_demo_free by (simp add: heap_demo_def)

lemma heap_demo_addr: "i < 8 \<Longrightarrow> size_cache_addr i heap_demo \<noteq> 0"
  by (auto simp: less8 size_cache_addr_def heap_demo_def)

abbreviation "heap_demo1 \<equiv> slab_init (replicate 8 0) heap_demo"

lemma heap_demo_inv: "heap_inv (\<lambda>_. []) (\<lambda>_. []) heap_demo1"
  using slab_init_ok [OF heap_demo_pmm heap_demo_addr] by blast

lemma heap_demo_free: "free_frames heap_demo1 = {3, 4, 5, 6, 7}"
  using heap_demo_frames by (simp add: free_frames_def bm_test_def)

text \<open>C29. \<open>slab_init\<close> establishes the heap invariant: eight empty caches, no object in use.\<close>

theorem slab_init_heap:
  assumes "pmm_inv s" and "\<And>i. i < 8 \<Longrightarrow> size_cache_addr i s \<noteq> 0"
  shows "heap_inv (\<lambda>_. []) (\<lambda>_. []) (slab_init names s)
    \<and> heap_live (\<lambda>_. []) (\<lambda>_. []) (slab_init names s) = {}"
  using assms by (rule slab_init_ok)

theorem slab_init_heap_witness: "heap_inv (\<lambda>_. []) (\<lambda>_. []) heap_demo1"
  using slab_init_heap [OF heap_demo_pmm heap_demo_addr] by blast

text \<open>C2. \<open>kmalloc_slab\<close> refines allocation of a fresh object: for every request of up to 2048 bytes it
  returns; it returns \<open>NULL\<close> only when no frame is free, and then changes nothing; otherwise it returns
  an object that was not in use, taking at most one frame, of a cache whose objects are at least as large as the request, and the
  objects in use afterwards are the old ones and this one.  The invariant of all eight caches is kept.\<close>

theorem kmalloc_slab_fresh:
  assumes "heap_inv P F s" and "0 < sz" and "sz \<le> 2048"
  shows "\<exists>p s'. kmalloc_slab sz s = Some (p, s') \<and>
    (if p = 0 then s' = s \<and> free_frames s = {}
     else p \<notin> heap_live P F s \<and> card (free_frames s) \<le> Suc (card (free_frames s')) \<and>
       (\<exists>P' F'. heap_inv P' F' s' \<and> heap_live P' F' s' = insert p (heap_live P F s) \<and>
         (\<exists>i<8. sz \<le> slab_sizes ! i \<and> p \<in> cache_live (size_cache_addr i s') (P' i @ F' i) s')))"
  by (cases rule: kmalloc_slab_ok [OF assms]) auto

theorem kmalloc_slab_fresh_witness:
  "\<exists>p s' P' F'. kmalloc_slab 100 heap_demo1 = Some (p, s') \<and> p \<noteq> 0 \<and> heap_inv P' F' s'
     \<and> heap_live P' F' s' = {p}"
proof -
  have "heap_live (\<lambda>_. []) (\<lambda>_. []) heap_demo1 = {}" by (simp add: heap_live_def cache_live_def)
  then show ?thesis
    using kmalloc_slab_fresh [OF heap_demo_inv, of 100] heap_demo_free by (auto split: if_splits)
qed

text \<open>C3. \<open>kfree_slab\<close> releases an object that is in use: it returns, keeps the invariant of all eight
  caches, and the objects in use afterwards are the others, also when the slab was full (it moves back
  to the partial list) and when it becomes empty (its page goes back to the frame allocator).\<close>

theorem kfree_slab_releases:
  assumes "heap_inv P F s" and "p \<in> heap_live P F s"
  shows "\<exists>s' P' F'. kfree_slab p s = Some s' \<and> heap_inv P' F' s'
    \<and> heap_live P' F' s' = heap_live P F s - {p}"
  using kfree_slab_ok [OF assms] by metis

theorem kfree_slab_releases_witness:
  "\<exists>p s s' P' F'. kmalloc_slab 100 heap_demo1 = Some (p, s) \<and> kfree_slab p s = Some s'
     \<and> heap_inv P' F' s' \<and> heap_live P' F' s' = {}"
proof (cases rule: kmalloc_slab_ok [OF heap_demo_inv, of 100])
  case 3
  then show ?thesis using heap_demo_free by simp
next
  case (4 p s P' F' i)
  have "heap_live (\<lambda>_. []) (\<lambda>_. []) heap_demo1 = {}" by (simp add: heap_live_def cache_live_def)
  then have "heap_live P' F' s = {p}" using 4(5) by simp
  then show ?thesis using kfree_slab_releases [OF 4(3), of p] 4(1) by auto
qed simp_all

text \<open>C1. Memory safety of the heap: two different objects in use occupy disjoint byte ranges, each of the
  object size of its cache, whether they share a slab, a cache, or neither.\<close>

theorem heap_objects_disjoint:
  assumes "heap_inv P F s" and "i < 8" and "j < 8" and "x \<noteq> y"
    and "x \<in> cache_live (size_cache_addr i s) (P i @ F i) s"
    and "y \<in> cache_live (size_cache_addr j s) (P j @ F j) s"
  shows "disj_rng x (slab_sizes ! i) y (slab_sizes ! j)"
proof -
  have main: "disj_rng x (slab_sizes ! i) y (slab_sizes ! j)"
    if *: "i < 8" "j < 8" "unat x < unat y" "x \<in> cache_live (size_cache_addr i s) (P i @ F i) s"
      "y \<in> cache_live (size_cache_addr j s) (P j @ F j) s" for i j x y
  proof -
    obtain a where a: "unat x = unat (page_of x) + 56 + a * unat (slab_sizes ! i)"
      "a * unat (slab_sizes ! i) + unat (slab_sizes ! i) \<le> 4040" "page_of x \<in> set (P i @ F i)"
      by (rule live_object_place [OF assms(1) *(1,4)])
    obtain b where b: "unat y = unat (page_of y) + 56 + b * unat (slab_sizes ! j)"
      "b * unat (slab_sizes ! j) + unat (slab_sizes ! j) \<le> 4040" "page_of y \<in> set (P j @ F j)"
      by (rule live_object_place [OF assms(1) *(2,5)])
    have "unat x + unat (slab_sizes ! i) \<le> unat y"
    proof (cases "page_of x = page_of y")
      case True
      then have "i = j" using a(3) b(3) assms(1) *(1,2) unfolding heap_inv_def by (metis disjoint_iff)
      then have "a * unat (slab_sizes ! i) < b * unat (slab_sizes ! i)"
        using *(3) a(1) b(1) True by simp
      then have "a < b" by (simp add: mult_less_cancel2)
      then show ?thesis using mult_gap [of a b "unat (slab_sizes ! i)"] a(1) b(1) True \<open>i = j\<close> by simp
    next
      case False
      have "unat (page_of x) < unat (page_of y)"
        using False *(3) by (auto simp: page_of_eq_iff page_of_div word_unat_eq_iff div_le_mono le_neq_trans)
      then have "unat (page_of x) + 4096 \<le> unat (page_of y)"
        by (intro aligned_below) (simp_all add: page_of_div)
      then show ?thesis using a(1,2) b(1) by simp
    qed
    moreover have "unat y + unat (slab_sizes ! j) \<le> 2 ^ 64" using b(1,2) page_top [of y] by simp
    moreover have "0 < unat (slab_sizes ! i)"
      using slab_sizes_ok [OF *(1)] by (simp add: obj_size_ok_def word_le_nat_alt)
    ultimately show ?thesis by (rule disj_rng_below)
  qed
  have "unat x < unat y \<or> unat y < unat x" using assms(4) by (auto simp: word_unat_eq_iff)
  then show ?thesis using main [of i j x y] main [of j i y x] assms disj_rng_sym by blast
qed

theorem heap_objects_disjoint_witness:
  "\<exists>P F s i j x y. heap_inv P F (s :: slab_state) \<and> i < 8 \<and> j < 8 \<and> x \<noteq> y
     \<and> x \<in> cache_live (size_cache_addr i s) (P i @ F i) s
     \<and> y \<in> cache_live (size_cache_addr j s) (P j @ F j) s \<and> disj_rng x (slab_sizes ! i) y (slab_sizes ! j)"
proof (cases rule: kmalloc_slab_ok [OF heap_demo_inv, of 100])
  case 3
  then show ?thesis using heap_demo_free by simp
next
  case (4 p s P F i)
  have some: "free_frames s \<noteq> {}" using 4(9) unfolding heap_demo_free by auto
  have live: "heap_live P F s = {p}" using 4(5) by (simp add: heap_live_def cache_live_def)
  show ?thesis
  proof (cases rule: kmalloc_slab_ok [OF 4(3), of 100])
    case (4 q t P' F' j)
    have "p \<in> heap_live P' F' t" using 4(5) live by simp
    then obtain k where k: "k < 8" "p \<in> cache_live (size_cache_addr k t) (P' k @ F' k) t"
      unfolding heap_live_def by auto
    have "q \<noteq> p" using 4(4) live by auto
    from heap_objects_disjoint [OF 4(3,6) k(1) this 4(8) k(2)] show ?thesis
      using 4(3,6,8) k \<open>q \<noteq> p\<close> by blast
  qed (use some in simp_all)
qed simp_all

text \<open>C30. A request of two pages takes the two lowest free frames \<open>f\<close> and \<open>g\<close> but returns the address of
  \<open>f\<close> alone: unless \<open>g\<close> happens to follow \<open>f\<close>, the second half of the buffer is a frame that was not
  free, so it belongs to someone else; and releasing the buffer gives back \<open>f\<close> only, so \<open>g\<close> is lost.\<close>

theorem kmalloc_large_leaks:
  assumes "pmm_inv s" and "PAGE_SIZE < sz" and "sz \<le> 2 * PAGE_SIZE"
    and "f = Min (free_frames s)" and "g = Min (free_frames s - {f})" and "free_frames s - {f} \<noteq> {}"
  shows "\<exists>s'. kmalloc_slab sz s = Some (f * PAGE_SIZE, s') \<and> free_frames s' = free_frames s - {f, g}
    \<and> (g \<noteq> f + 1 \<longrightarrow> f + 1 \<notin> free_frames s)
    \<and> (hd_magic (memory s') (f * PAGE_SIZE) \<noteq> SLAB_MAGIC \<longrightarrow>
       (\<exists>s''. kfree_slab (f * PAGE_SIZE) s' = Some s'' \<and> free_frames s'' = free_frames s - {g}))"
proof -
  let ?F = "free_frames s"
  have "?F \<noteq> {}" using assms(6) by blast
  then have f: "f \<in> ?F" using assms(4) by simp
  have g: "g \<in> ?F" "g \<noteq> f" "\<And>h. h \<in> ?F \<Longrightarrow> h \<noteq> f \<Longrightarrow> g \<le> h"
    using assms(5,6) Min_in [of "?F - {f}"] by auto
  define s1 where "s1 = claim_frame f s"
  define s2 where "s2 = claim_frame g s1"
  have pmm1: "pmm_inv s1" unfolding s1_def by (rule pmm_inv_claim [OF assms(1) f])
  have F1: "free_frames s1 = ?F - {f}" by (simp add: s1_def)
  note D = free_framesD [OF assms(1) f]
  have sz: "4096 < unat sz" "unat sz \<le> 8192" using assms(2,3) by (simp_all add: word_less_nat_alt word_le_nat_alt)
  have "unat (sz + 4095) = unat sz + 4095"
    using sz by (intro trans [OF unat_add_small]) simp_all
  moreover have "(unat sz + 4095) div 4096 = 2" using sz by (intro div_nat_eqI) simp_all
  ultimately have "unat ((sz + 4095) div PAGE_SIZE) = 2" by (simp only: unat_div) simp
  then have "(sz + 4095) div PAGE_SIZE = of_nat 2" by (rule word_eq_of_nat)
  then have pages: "(sz + PAGE_SIZE - 1) div PAGE_SIZE = 2" by (simp add: add.commute)
  have g1: "g \<in> free_frames s1" "Min (free_frames s1) = g" using g F1 assms(5) by simp_all
  note G = free_framesD [OF pmm1 g1(1)]
  have "pmm_alloc s1 = (g * PAGE_SIZE, s2)" using g1 by (auto simp: pmm_alloc_first s2_def)
  then have large: "alloc_large (f * PAGE_SIZE) 1 2 s1 = (f * PAGE_SIZE, s2)"
    using G(2) by (subst alloc_large.simps) (simp, subst alloc_large.simps, simp)
  have "pmm_alloc s = (f * PAGE_SIZE, s1)" using f assms(4) by (auto simp: pmm_alloc_first s1_def)
  moreover have "\<not> sz \<le> 2048" "sz \<noteq> 0" using sz by (auto simp: word_le_nat_alt)
  ultimately have alloc: "kmalloc_slab sz s = Some (f * PAGE_SIZE, s2)"
    using pages large D(2) by (simp add: kmalloc_slab_def)
  have F2: "free_frames s2 = ?F - {f, g}" using F1 by (auto simp: s2_def)
  have "f + 1 \<notin> ?F" if "g \<noteq> f + 1"
  proof
    assume "f + 1 \<in> ?F"
    then have "g \<le> f + 1" using g(3) [of "f + 1"] by simp
    moreover have "f \<le> g" using assms(4) g(1) by simp
    moreover from this have "f < g" using g(2) by simp
    ultimately have "f + 1 \<le> g" "g \<le> f + 1" using frame_not_last [of f g g] g(2) by auto
    then have "g = f + 1" by (intro antisym)
    with that show False by simp
  qed
  moreover have "\<exists>s''. kfree_slab (f * PAGE_SIZE) s2 = Some s'' \<and> free_frames s'' = ?F - {g}"
    if "hd_magic (memory s2) (f * PAGE_SIZE) \<noteq> SLAB_MAGIC"
  proof (intro exI conjI)
    show "kfree_slab (f * PAGE_SIZE) s2 = Some (pmm_free (f * PAGE_SIZE) s2)"
      using that D(2,3) by (simp add: kfree_slab_def)
    show "free_frames (pmm_free (f * PAGE_SIZE) s2) = ?F - {g}"
      using D(1,4) f g by (auto simp: free_frames_free F2) (auto simp: s2_def s1_def)
  qed
  ultimately show ?thesis using alloc F2 by blast
qed

theorem kmalloc_large_leaks_witness:
  "\<exists>s'. kmalloc_slab 0x2000 heap_demo = Some (0x3000, s') \<and> free_frames s' = {5, 6, 7}"
proof -
  have min: "3 = Min (free_frames heap_demo)" "4 = Min (free_frames heap_demo - {3})"
    "free_frames heap_demo - {3} \<noteq> {}" by (simp_all add: heap_demo_frames min_def)
  have "PAGE_SIZE < (0x2000 :: u64)" "(0x2000 :: u64) \<le> 2 * PAGE_SIZE" by simp_all
  from kmalloc_large_leaks [OF heap_demo_pmm this min]
  obtain s' where "kmalloc_slab 0x2000 heap_demo = Some (3 * PAGE_SIZE, s')"
    "free_frames s' = free_frames heap_demo - {3, 4}" by (elim exE conjE) (rule that)
  then show ?thesis by (simp add: heap_demo_frames)
qed

end
