(* ===== verification/Vmm.thy ===== *)
theory Vmm
  imports Slab
begin

text \<open>
  The virtual memory manager, \<open>mm/vmm.c\<close>: four-level page tables stored in the physical memory, and
  the kernel heap entry points.  The TLB (\<open>invlpg\<close>) is not part of the model; \<open>cr3\<close> is a field of the
  state.
\<close>

section \<open>State and entries\<close>

record vmm_state = slab_state +
  kernel_pml4 :: u64
  slab_ready :: bool
  heap_cur :: u64
  heap_left :: u64
  cr3 :: u64

abbreviation VMM_PRESENT :: u64 where "VMM_PRESENT \<equiv> 1"
abbreviation VMM_WRITABLE :: u64 where "VMM_WRITABLE \<equiv> 2"
abbreviation VMM_USER :: u64 where "VMM_USER \<equiv> 4"
abbreviation VMM_NX :: u64 where "VMM_NX \<equiv> 0x8000000000000000"

definition pt_load :: "mem \<Rightarrow> u64 \<Rightarrow> nat \<Rightarrow> u64" where
  "pt_load m table idx = load64 m (table + 8 * of_nat idx)"

definition pt_store :: "mem \<Rightarrow> u64 \<Rightarrow> nat \<Rightarrow> u64 \<Rightarrow> mem" where
  "pt_store m table idx e = store64 m (table + 8 * of_nat idx) e"

definition present :: "u64 \<Rightarrow> bool" where
  "present e \<longleftrightarrow> e AND VMM_PRESENT \<noteq> 0"

definition p4_idx :: "u64 \<Rightarrow> nat" where "p4_idx virt = unat (drop_bit 39 virt AND 0x1FF)"
definition p3_idx :: "u64 \<Rightarrow> nat" where "p3_idx virt = unat (drop_bit 30 virt AND 0x1FF)"
definition p2_idx :: "u64 \<Rightarrow> nat" where "p2_idx virt = unat (drop_bit 21 virt AND 0x1FF)"
definition p1_idx :: "u64 \<Rightarrow> nat" where "p1_idx virt = unat (drop_bit 12 virt AND 0x1FF)"

section \<open>Mapping\<close>

definition get_or_alloc :: "u64 \<Rightarrow> nat \<Rightarrow> u64 \<Rightarrow> 'a pmm_scheme \<Rightarrow> u64 \<times> 'a pmm_scheme" where
  "get_or_alloc table idx flags s =
     (if \<not> present (pt_load (memory s) table idx) then
        let (page, s) = pmm_alloc s in
        if page = 0 then (0, s) else
        let m = kmemset (memory s) page 0 PAGE_SIZE;
            m = pt_store m table idx (page OR flags)
        in (page_of (pt_load m table idx), s\<lparr>memory := m\<rparr>)
      else (page_of (pt_load (memory s) table idx), s))"

definition vmm_map :: "u64 \<Rightarrow> u64 \<Rightarrow> u64 \<Rightarrow> u64 \<Rightarrow> 'a pmm_scheme \<Rightarrow> 'a pmm_scheme" where
  "vmm_map pml4 virt phys flags s =
     (let tbl_flags = VMM_PRESENT OR VMM_WRITABLE;
          tbl_flags = (if flags AND VMM_USER \<noteq> 0 then tbl_flags OR VMM_USER else tbl_flags);
          (pdpt, s) = get_or_alloc pml4 (p4_idx virt) tbl_flags s;
          (pdt, s) = get_or_alloc pdpt (p3_idx virt) tbl_flags s;
          (pt, s) = get_or_alloc pdt (p2_idx virt) tbl_flags s;
          m = pt_store (memory s) pt (p1_idx virt)
                (page_of phys OR (flags AND 0xFFF) OR VMM_PRESENT);
          m = (if flags AND VMM_NX \<noteq> 0
               then pt_store m pt (p1_idx virt) (pt_load m pt (p1_idx virt) OR VMM_NX) else m)
      in s\<lparr>memory := m\<rparr>)"

definition vmm_unmap :: "u64 \<Rightarrow> u64 \<Rightarrow> 'a pmm_scheme \<Rightarrow> 'a pmm_scheme" where
  "vmm_unmap pml4 virt s =
     (let m = memory s; e4 = pt_load m pml4 (p4_idx virt) in
      if \<not> present e4 then s else
      let e3 = pt_load m (page_of e4) (p3_idx virt) in
      if \<not> present e3 then s else
      let e2 = pt_load m (page_of e3) (p2_idx virt) in
      if \<not> present e2 then s else
      s\<lparr>memory := pt_store m (page_of e2) (p1_idx virt) 0\<rparr>)"

definition vmm_get_phys :: "u64 \<Rightarrow> u64 \<Rightarrow> mem \<Rightarrow> u64" where
  "vmm_get_phys pml4 virt m =
     (let e4 = pt_load m pml4 (p4_idx virt) in
      if \<not> present e4 then 0 else
      let e3 = pt_load m (page_of e4) (p3_idx virt) in
      if \<not> present e3 then 0 else
      let e2 = pt_load m (page_of e3) (p2_idx virt) in
      if \<not> present e2 then 0 else
      page_of (pt_load m (page_of e2) (p1_idx virt)))"

partial_function (option) map_range_loop ::
  "u64 \<Rightarrow> u64 \<Rightarrow> u64 \<Rightarrow> u64 \<Rightarrow> u64 \<Rightarrow> u64 \<Rightarrow> 'a pmm_scheme \<Rightarrow> 'a pmm_scheme option" where
  "map_range_loop pml4 virt phys sz flags off s =
     (if off < sz
      then map_range_loop pml4 virt phys sz flags (off + PAGE_SIZE) (vmm_map pml4 (virt + off) (phys + off) flags s)
      else Some s)"

definition vmm_map_range ::
  "u64 \<Rightarrow> u64 \<Rightarrow> u64 \<Rightarrow> u64 \<Rightarrow> u64 \<Rightarrow> 'a pmm_scheme \<Rightarrow> 'a pmm_scheme option" where
  "vmm_map_range pml4 virt phys sz flags s = map_range_loop pml4 virt phys sz flags 0 s"

section \<open>Address spaces\<close>

definition vmm_kernel_pml4 :: "'a vmm_state_scheme \<Rightarrow> u64" where
  "vmm_kernel_pml4 s = kernel_pml4 s"

definition vmm_current :: "'a vmm_state_scheme \<Rightarrow> u64" where
  "vmm_current s = page_of (cr3 s)"

definition vmm_switch :: "u64 \<Rightarrow> 'a vmm_state_scheme \<Rightarrow> 'a vmm_state_scheme" where
  "vmm_switch pml4 s = s\<lparr>cr3 := pml4\<rparr>"

definition vmm_new_pml4 :: "'a vmm_state_scheme \<Rightarrow> u64 \<times> 'a vmm_state_scheme" where
  "vmm_new_pml4 s =
     (let (pml4, s) = pmm_alloc s in
      if pml4 = 0 then (0, s) else
      let m = kmemset (memory s) pml4 0 PAGE_SIZE;
          m = (if kernel_pml4 s \<noteq> 0
               then fold (\<lambda>i m. pt_store m pml4 i (pt_load m (kernel_pml4 s) i)) [256..<512] m
               else m)
      in (pml4, s\<lparr>memory := m\<rparr>))"

text \<open>The three inner loops of \<open>vmm_destroy_pml4\<close>, innermost first.\<close>

definition destroy_pt :: "u64 \<Rightarrow> 'a pmm_scheme \<Rightarrow> 'a pmm_scheme" where
  "destroy_pt pt s = pmm_free pt (fold (\<lambda>p1 s.
     let e = pt_load (memory s) pt p1
     in if present e then pmm_free (page_of e) s else s) [0..<512] s)"

definition destroy_pdt :: "u64 \<Rightarrow> 'a pmm_scheme \<Rightarrow> 'a pmm_scheme" where
  "destroy_pdt pdt s = pmm_free pdt (fold (\<lambda>p2 s.
     let e = pt_load (memory s) pdt p2
     in if present e then destroy_pt (page_of e) s else s) [0..<512] s)"

definition destroy_pdpt :: "u64 \<Rightarrow> 'a pmm_scheme \<Rightarrow> 'a pmm_scheme" where
  "destroy_pdpt pdpt s = pmm_free pdpt (fold (\<lambda>p3 s.
     let e = pt_load (memory s) pdpt p3
     in if present e then destroy_pdt (page_of e) s else s) [0..<512] s)"

definition vmm_destroy_pml4 :: "u64 \<Rightarrow> 'a pmm_scheme \<Rightarrow> 'a pmm_scheme" where
  "vmm_destroy_pml4 pml4 s =
     (if pml4 = 0 then s else
      pmm_free pml4 (fold (\<lambda>p4 s.
        let e = pt_load (memory s) pml4 p4
        in if present e then destroy_pdpt (page_of e) s else s) [0..<256] s))"

text \<open>
  \<open>vmm_clone_pml4\<close>: a failed allocation destroys the copy and leaves the loops; \<open>Inl\<close> is the state
  after that, \<open>Inr\<close> the state of a loop that goes on.
\<close>

definition clone_loop :: "(nat \<Rightarrow> 's \<Rightarrow> 's + 's) \<Rightarrow> nat \<Rightarrow> 's \<Rightarrow> 's + 's" where
  "clone_loop body n s = fold (\<lambda>i r. case r of Inl s \<Rightarrow> Inl s | Inr s \<Rightarrow> body i s) [0..<n] (Inr s)"

definition clone_virt :: "nat \<Rightarrow> nat \<Rightarrow> nat \<Rightarrow> nat \<Rightarrow> u64" where
  "clone_virt p4 p3 p2 p1 = push_bit 39 (of_nat p4) OR push_bit 30 (of_nat p3)
     OR push_bit 21 (of_nat p2) OR push_bit 12 (of_nat p1)"

definition clone_page :: "u64 \<Rightarrow> u64 \<Rightarrow> nat \<Rightarrow> nat \<Rightarrow> nat \<Rightarrow> nat \<Rightarrow> 'a pmm_scheme \<Rightarrow> 'a pmm_scheme + 'a pmm_scheme" where
  "clone_page dst src_pt p4 p3 p2 p1 s =
     (let e = pt_load (memory s) src_pt p1 in
      if \<not> present e then Inr s else
      let (new_page, s) = pmm_alloc s in
      if new_page = 0 then Inl (vmm_destroy_pml4 dst s) else
      let s = s\<lparr>memory := kmemcpy (memory s) new_page (page_of e) PAGE_SIZE\<rparr>
      in Inr (vmm_map dst (clone_virt p4 p3 p2 p1) new_page (e AND 0xFFF) s))"

definition vmm_clone_pml4 :: "u64 \<Rightarrow> 'a vmm_state_scheme \<Rightarrow> u64 \<times> 'a vmm_state_scheme" where
  "vmm_clone_pml4 src s =
     (let (dst, s) = vmm_new_pml4 s in
      if dst = 0 then (0, s) else
      case clone_loop (\<lambda>p4 s.
        let e4 = pt_load (memory s) src p4 in if \<not> present e4 then Inr s else
        clone_loop (\<lambda>p3 s.
          let e3 = pt_load (memory s) (page_of e4) p3 in if \<not> present e3 then Inr s else
          clone_loop (\<lambda>p2 s.
            let e2 = pt_load (memory s) (page_of e3) p2 in if \<not> present e2 then Inr s else
            clone_loop (clone_page dst (page_of e2) p4 p3 p2) 512 s) 512 s) 512 s) 256 s
      of Inl s \<Rightarrow> (0, s) | Inr s \<Rightarrow> (dst, s))"

definition vmm_init :: "u64 list \<Rightarrow> 'a vmm_state_scheme \<Rightarrow> 'a vmm_state_scheme" where
  "vmm_init names s = (slab_init names (s\<lparr>kernel_pml4 := page_of (cr3 s)\<rparr>))\<lparr>slab_ready := True\<rparr>"

section \<open>The kernel heap\<close>

text \<open>The loop that refills the boot heap with contiguous pages.\<close>

function heap_extend :: "u64 \<Rightarrow> u64 \<Rightarrow> u64 \<Rightarrow> 'a pmm_scheme \<Rightarrow> u64 \<times> 'a pmm_scheme" where
  "heap_extend first got pages s =
     (if got < pages then
        let (extra, s') = pmm_alloc s in
        if extra = 0 \<or> extra \<noteq> first + got * PAGE_SIZE
        then (got, if extra \<noteq> 0 then pmm_free extra s' else s')
        else heap_extend first (got + 1) pages s'
      else (got, s))"
  by pat_completeness auto
termination
  by (relation "measure (\<lambda>(first, got, pages, s). unat pages - unat got)")
    (auto simp: word_less_nat_alt unat_Suc_less intro!: diff_less_mono2)

declare heap_extend.simps [simp del]

definition kmalloc :: "u64 \<Rightarrow> 'a vmm_state_scheme \<Rightarrow> (u64 \<times> 'a vmm_state_scheme) option" where
  "kmalloc sz s =
     (if slab_ready s then kmalloc_slab sz s else
      let sz = (sz + 15) AND NOT 15;
          bump = (\<lambda>s. Some (heap_cur s, s\<lparr>heap_cur := heap_cur s + sz, heap_left := heap_left s - sz\<rparr>)) in
      if heap_left s < sz then
        let pages = (sz + PAGE_SIZE - 1) div PAGE_SIZE;
            (first, s) = pmm_alloc s in
        if first = 0 then Some (0, s) else
        let (got, s) = heap_extend first 1 pages s in
        if got < pages then Some (0, free_large first 0 got s)
        else bump (s\<lparr>heap_cur := first, heap_left := pages * PAGE_SIZE\<rparr>)
      else bump s)"

definition kmalloc_zero :: "u64 \<Rightarrow> 'a vmm_state_scheme \<Rightarrow> (u64 \<times> 'a vmm_state_scheme) option" where
  "kmalloc_zero sz s = Option.bind (kmalloc sz s) (\<lambda>(p, s).
     Some (p, if p \<noteq> 0 then s\<lparr>memory := kmemset (memory s) p 0 sz\<rparr> else s))"

definition kfree :: "u64 \<Rightarrow> 'a vmm_state_scheme \<Rightarrow> 'a vmm_state_scheme option" where
  "kfree ptr s = (if ptr = 0 then Some s else if slab_ready s then kfree_slab ptr s else Some s)"

end
