(* ===== verification/VmmInv.thy ===== *)
theory VmmInv
  imports Vmm Frames "HOL-Library.Sublist"
begin

text \<open>
  Page tables as a finite map: the tables below a root form a tree of pages in use, and \<open>vmm_map\<close>,
  \<open>vmm_unmap\<close> and \<open>vmm_new_pml4\<close> act on the map from user pages to entries.
\<close>

section \<open>Entries of a table\<close>

lemma idx_addr:
  assumes "i < 512"
  shows "unat (8 * of_nat i :: u64) = 8 * i"
  using assms by (simp add: unat_word_ariths unat_of_nat)

lemma entry_aligned:
  assumes "page_of t = t" "i < 512"
  shows "8 dvd unat (t + 8 * of_nat i)" "page_of (t + 8 * of_nat i) = t"
    "unat (t + 8 * of_nat i) = unat t + 8 * i"
proof -
  have t: "4096 dvd unat t" using assms(1) by (simp add: page_of_aligned)
  have i: "unat (8 * of_nat i :: u64) < 4096" using idx_addr [OF assms(2)] assms(2) by simp
  note page_of_add [OF t i]
  then show "page_of (t + 8 * of_nat i) = t" "unat (t + 8 * of_nat i) = unat t + 8 * i"
    using idx_addr [OF assms(2)] by simp_all
  then show "8 dvd unat (t + 8 * of_nat i)" using t by (auto intro: dvd_trans [of 8 4096])
qed

lemma entry_inj:
  assumes "page_of t = t" "page_of u = u" "i < 512" "j < 512"
  shows "t + 8 * of_nat i = u + 8 * of_nat j \<longleftrightarrow> t = u \<and> i = j"
proof
  assume eq: "t + 8 * of_nat i = u + 8 * of_nat j"
  have "t = page_of (t + 8 * of_nat i)" by (rule entry_aligned(2) [OF assms(1,3), symmetric])
  also have "\<dots> = u" unfolding eq by (rule entry_aligned(2) [OF assms(2,4)])
  finally have tu: "t = u" .
  have "unat u + 8 * i = unat u + 8 * j"
    using entry_aligned(3) [OF assms(1,3)] entry_aligned(3) [OF assms(2,4)] unfolding eq unfolding tu
    by (rule trans [OF sym])
  with tu show "t = u \<and> i = j" by simp
qed simp

lemma pt_load_store:
  assumes "page_of t = t" "page_of u = u" "i < 512" "j < 512"
  shows "pt_load (pt_store m t i e) u j = (if t = u \<and> i = j then e else pt_load m u j)"
proof (cases "t = u \<and> i = j")
  case False
  then have "disj_rng (t + 8 * of_nat i) 8 (u + 8 * of_nat j) 8"
    using assms entry_inj [OF assms] by (intro aligned_disj entry_aligned) auto
  then show ?thesis using False by (auto simp: pt_load_def pt_store_def load_store_other)
qed (simp add: pt_load_def pt_store_def mem_simps)

lemma pt_store_outside:
  assumes "page_of t = t" "i < 512" "page_of a \<noteq> t"
  shows "pt_store m t i e a = m a"
proof -
  have "a \<notin> rng t 4096" using assms(3) rng_page [OF assms(1)] by blast
  then have "8 \<le> a - (t + 8 * of_nat i)"
    using idx_addr [OF assms(2)] assms(2) rng_outside [of a t 4096 "8 * of_nat i" 8] by simp
  then show ?thesis by (simp add: pt_store_def mem_simps)
qed

lemma pt_load_agree:
  assumes "agree (rng t 4096) m m'" "i < 512"
  shows "pt_load m t i = pt_load m' t i"
  unfolding pt_load_def using idx_addr [OF assms(2)] assms(2)
    agree_load64 [OF assms(1), of t 4096 "8 * of_nat i"] by simp

lemma pt_load_zero:
  assumes "\<And>a. page_of a = t \<Longrightarrow> m a = 0" "page_of t = t" "i < 512"
  shows "pt_load m t i = 0"
proof -
  have "agree (rng t 4096) m (\<lambda>_. 0)" using assms(1) rng_page [OF assms(2)] by (auto simp: agree_def)
  from pt_load_agree [OF this assms(3)] show ?thesis by (simp add: pt_load_def load64_bytes)
qed

lemma idx_less: "p4_idx v < 512" "p3_idx v < 512" "p2_idx v < 512" "p1_idx v < 512"
proof -
  have "unat (x AND 0x1FF) < 512" for x :: u64
  proof -
    have "x AND 0x1FF \<le> 0x1FF" by (rule word_and_le1)
    then show ?thesis by (simp add: word_le_nat_alt)
  qed
  then show "p4_idx v < 512" "p3_idx v < 512" "p2_idx v < 512" "p1_idx v < 512"
    unfolding p4_idx_def p3_idx_def p2_idx_def p1_idx_def by blast+
qed

section \<open>Walks\<close>

fun walk :: "mem \<Rightarrow> u64 \<Rightarrow> nat list \<Rightarrow> u64 option" where
  "walk m t [] = Some t"
| "walk m t (i # is) = (if present (pt_load m t i) then walk m (page_of (pt_load m t i)) is else None)"

lemma walk_snoc:
  "walk m t (is @ [i]) = (case walk m t is of None \<Rightarrow> None
     | Some u \<Rightarrow> if present (pt_load m u i) then Some (page_of (pt_load m u i)) else None)"
  by (induction "is" arbitrary: t) auto

text \<open>Paths below the user half of a root.\<close>

definition user_path :: "nat list \<Rightarrow> bool" where
  "user_path q \<longleftrightarrow> length q \<le> 3 \<and> (\<forall>i \<in> set q. i < 512) \<and> (q \<noteq> [] \<longrightarrow> hd q < 256)"

definition pt_wf :: "u64 \<Rightarrow> 'a pmm_scheme \<Rightarrow> bool" where
  "pt_wf pml4 s \<longleftrightarrow> (\<forall>q t. user_path q \<longrightarrow> walk (memory s) pml4 q = Some t \<longrightarrow> own_page s t)
     \<and> (\<forall>q r t. user_path q \<longrightarrow> user_path r \<longrightarrow> walk (memory s) pml4 q = Some t
          \<longrightarrow> walk (memory s) pml4 r = Some t \<longrightarrow> q = r)"

definition user_virt :: "u64 \<Rightarrow> bool" where
  "user_virt v \<longleftrightarrow> v < 0x800000000000"

definition dir_path :: "u64 \<Rightarrow> nat list" where
  "dir_path v = [p4_idx v, p3_idx v, p2_idx v]"

definition pte :: "u64 \<Rightarrow> u64 \<Rightarrow> mem \<Rightarrow> u64" where
  "pte pml4 v m = (case walk m pml4 (dir_path v) of None \<Rightarrow> 0 | Some pt \<Rightarrow> pt_load m pt (p1_idx v))"

lemma vmm_get_phys_pte: "vmm_get_phys pml4 v m = page_of (pte pml4 v m)"
  by (simp add: vmm_get_phys_def pte_def dir_path_def Let_def page_of_def)

lemma user_path_snocD: "user_path (q @ [i]) \<Longrightarrow> user_path q \<and> i < 512"
  by (cases q) (auto simp: user_path_def)

lemma idx_div: "unat (drop_bit n v AND 0x1FF) = unat v div 2 ^ n mod 512" for v :: u64
proof -
  have eq: "(0x1FF::u64) = mask 9" by (simp add: mask_eq_exp_minus_1)
  have "unat (take_bit 9 (drop_bit n v)) = take_bit 9 (drop_bit n (unat v))"
    unfolding unsigned_take_bit_eq unat_drop_bit_eq ..
  then show ?thesis unfolding eq take_bit_eq_mask [symmetric]
    by (simp only: take_bit_eq_mod drop_bit_eq_div) simp
qed

lemma idx_frame:
  fixes v :: u64
  defines "x \<equiv> unat v div 4096"
  shows "p1_idx v = x mod 512" "p2_idx v = x div 512 mod 512" "p3_idx v = x div 512 div 512 mod 512"
    "p4_idx v = x div 512 div 512 div 512 mod 512"
  unfolding x_def p1_idx_def p2_idx_def p3_idx_def p4_idx_def idx_div
  by (simp_all add: div_mult2_eq [symmetric])

lemma user_frame: "user_virt v \<Longrightarrow> unat v div 4096 div 512 div 512 div 512 < 256"
  by (simp add: user_virt_def word_less_nat_alt div_mult2_eq [symmetric] div_less_iff_less_mult)

lemma user_idx: "user_virt v \<Longrightarrow> p4_idx v < 256"
  unfolding idx_frame using user_frame [of v] by simp

lemma user_path_dir: "user_virt v \<Longrightarrow> user_path (dir_path v)"
  by (simp add: user_path_def dir_path_def user_idx idx_less)

text \<open>The four indices of a user address name its page.\<close>

lemma page_idx_eq:
  assumes "user_virt v" "user_virt w"
  shows "dir_path v = dir_path w \<and> p1_idx v = p1_idx w \<longleftrightarrow> page_of v = page_of w"
proof -
  have digit: "x = y \<longleftrightarrow> x div 512 = y div 512 \<and> x mod 512 = y mod (512::nat)" for x y
    by (metis div_mult_mod_eq)
  define x y where "x = unat v div 4096" and "y = unat w div 4096"
  have "x div 512 div 512 div 512 mod 512 = x div 512 div 512 div 512"
    "y div 512 div 512 div 512 mod 512 = y div 512 div 512 div 512"
    using user_frame [OF assms(1)] user_frame [OF assms(2)] by (simp_all add: x_def y_def)
  then have "dir_path v = dir_path w \<and> p1_idx v = p1_idx w \<longleftrightarrow> x = y"
    unfolding digit [of x] digit [of "x div 512"] digit [of "x div 512 div 512"] dir_path_def idx_frame
      x_def [symmetric] y_def [symmetric] by auto
  then show ?thesis by (simp add: page_of_eq_iff x_def y_def)
qed

section \<open>Allocating a table\<close>

lemma present_or: "present fl \<Longrightarrow> present (r OR fl)"
  by (auto simp: present_def bit_eq_iff bit_simps)

lemma page_of_or: "page_of r = r \<Longrightarrow> page_of fl = 0 \<Longrightarrow> page_of (r OR fl) = r"
  by (auto simp: page_of_def bit_eq_iff bit_simps)

lemma page_of_flags: "page_of ((flags AND 0xFFF) OR VMM_PRESENT) = 0"
proof -
  have "(flags AND 0xFFF) AND NOT 0xFFF = 0" by (simp add: and.assoc)
  then show ?thesis by (simp add: page_of_def bit.conj_disj_distrib2)
qed

lemma alloc_card:
  assumes "pmm_inv s" "free_frames s \<noteq> {}" "pmm_alloc s = (p, s')"
  shows "p \<noteq> 0" "card (free_frames s) = card (free_frames s') + 1"
proof -
  let ?f = "Min (free_frames s)"
  have f: "?f \<in> free_frames s" using assms(2) by simp
  have eq: "p = ?f * PAGE_SIZE" "s' = claim_frame ?f s" using assms(2,3) by (auto simp: pmm_alloc_first)
  show "p \<noteq> 0" unfolding eq by (rule free_framesD(2) [OF assms(1) f])
  show "card (free_frames s) = card (free_frames s') + 1"
    unfolding eq free_frames_claim using card_Suc_Diff1 [OF free_frames_finite f] by simp
qed

lemma get_or_alloc_new:
  assumes inv: "pmm_inv s" and t: "own_page s t" and i: "i < 512"
    and absent: "\<not> present (pt_load (memory s) t i)" and room: "free_frames s \<noteq> {}"
    and fl: "page_of fl = 0" and step: "get_or_alloc t i fl s = (r, s')"
  shows "pmm_inv s'" "own_page s' r" "\<not> own_page s r" "\<And>a. page_of a = r \<Longrightarrow> memory s' a = 0"
    "\<And>j. j < 512 \<Longrightarrow> pt_load (memory s') t j = (if i = j then r OR fl else pt_load (memory s) t j)"
    "own_frame {t} s s'" "own_page s' t" "card (free_frames s) = card (free_frames s') + 1"
proof -
  obtain p s1 where al: "pmm_alloc s = (p, s1)" by fastforce
  note p = alloc_card [OF inv room al]
  define s2 where "s2 = s1\<lparr>memory := kmemset (memory s1) p 0 4096\<rparr>"
  note z = fa.alloc_zero [OF inv al p(1), folded s2_def]
  have tp: "t \<noteq> p" and t2: "own_page s2 t" and ag: "agree (rng t 4096) (memory s2) (memory s)"
    using z(5) [OF t] by auto
  have al_t: "page_of t = t" and al_p: "page_of p = p" using t z(2) by (simp_all add: own_page_def)
  define m where "m = pt_store (memory s2) t i (p OR fl)"
  have load: "pt_load m t j = (if i = j then p OR fl else pt_load (memory s) t j)" if "j < 512" for j
    using pt_load_store [OF al_t al_t i that] pt_load_agree [OF ag that] by (simp add: m_def)
  have r: "r = p" and s': "s' = s2\<lparr>memory := m\<rparr>"
    using step absent al p(1) load [OF i] page_of_or [OF al_p fl]
    by (auto simp: get_or_alloc_def Let_def m_def s2_def)
  have only: "\<forall>a. page_of a \<noteq> t \<longrightarrow> m a = memory s2 a" using pt_store_outside [OF al_t i] by (simp add: m_def)
  note w = fa.write_own [OF z(1) t2 only, folded s']
  show "pmm_inv s'" "own_page s' r" "own_page s' t" using w z(2) t2 by (simp_all add: r)
  show "\<not> own_page s r" using z(3) by (simp add: r)
  show "memory s' a = 0" if "page_of a = r" for a using only z(4) [of a] that tp by (simp add: r s')
  show "pt_load (memory s') t j = (if i = j then r OR fl else pt_load (memory s) t j)" if "j < 512" for j
    using load [OF that] by (simp add: r s')
  have "own_page s' q \<and> agree (rng q 4096) (memory s') (memory s)" if "own_page s q" "q \<noteq> t" for q
    using z(5) [OF that(1)] w fa.write_keep [OF z(1) _ that(2) only] by (auto simp: s' intro: agree_trans)
  then show "own_frame {t} s s'" by (simp add: own_frame_def)
  have "free_frames s2 = free_frames s1"
    using fa.alloc_own [OF inv al p(1)] p(1) al_p unfolding s2_def
    by (intro free_frames_agree) (auto simp: kmemset_apply own_page_def rng_page [OF al_p, simplified])
  moreover have "free_frames s' = free_frames s2"
    unfolding s' using only t2 by (intro free_frames_agree z(1)) (auto simp: own_page_def)
  ultimately show "card (free_frames s) = card (free_frames s') + 1" using p(2) by simp
qed

text \<open>The walks after a new table was hung below \<open>p\<close> at index \<open>i\<close>.\<close>

lemma pt_wfD:
  assumes "pt_wf pml4 s" "user_path q" "walk (memory s) pml4 q = Some t"
  shows "own_page s t" "user_path r \<Longrightarrow> walk (memory s) pml4 r = Some t \<Longrightarrow> r = q"
  using assms unfolding pt_wf_def by blast+

lemma pt_wfI:
  assumes "\<And>q t. user_path q \<Longrightarrow> walk (memory s) pml4 q = Some t \<Longrightarrow> own_page s t"
    and "\<And>q r t. user_path q \<Longrightarrow> user_path r \<Longrightarrow> walk (memory s) pml4 q = Some t
      \<Longrightarrow> walk (memory s) pml4 r = Some t \<Longrightarrow> q = r"
  shows "pt_wf pml4 s"
  unfolding pt_wf_def using assms by blast

lemma walk_new:
  assumes wf: "pt_wf pml4 s" and p: "walk (memory s) pml4 p = Some t" "user_path (p @ [i])"
    and absent: "\<not> present (pt_load (memory s) t i)" and zero: "\<forall>j < 512. pt_load m r j = 0"
    and entry: "\<forall>j < 512. pt_load m t j = (if i = j then r OR fl else pt_load (memory s) t j)"
    and fl: "present fl" "page_of fl = 0" "page_of r = r"
    and keep: "\<forall>q. own_page s q \<longrightarrow> q \<noteq> t \<longrightarrow> agree (rng q 4096) m (memory s)"
    and q: "user_path q"
  shows "walk m pml4 q =
    (if q = p @ [i] then Some r else if prefix (p @ [i]) q then None else walk (memory s) pml4 q)"
  using q
proof (induction q rule: rev_induct)
  case (snoc j q)
  have q: "user_path q" and j: "j < 512" using user_path_snocD [OF snoc.prems] by simp_all
  have up: "user_path p" and i: "i < 512" using user_path_snocD [OF p(2)] by simp_all
  note IH = snoc.IH [OF q]
  consider "q = p @ [i]" | "q \<noteq> p @ [i]" "prefix (p @ [i]) q" | "\<not> prefix (p @ [i]) q" "walk (memory s) pml4 q = None"
    | u where "\<not> prefix (p @ [i]) q" "walk (memory s) pml4 q = Some u" "u = t"
    | u where "\<not> prefix (p @ [i]) q" "walk (memory s) pml4 q = Some u" "u \<noteq> t"
    by (cases "walk (memory s) pml4 q") auto
  then show ?case
  proof cases
    case 1
    then have "walk m pml4 q = Some r" using IH by simp
    then have "walk m pml4 (q @ [j]) = None" using zero j by (simp add: walk_snoc present_def)
    then show ?thesis using 1 by simp
  next
    case 2
    then have "q \<noteq> p" by auto
    then show ?thesis using 2 IH by (simp add: walk_snoc)
  next
    case 3
    then have "q \<noteq> p" using p by auto
    then show ?thesis using 3 IH by (auto simp: walk_snoc)
  next
    case 4
    then have "q = p" using pt_wfD(2) [OF wf up p(1) q] by simp
    then show ?thesis
      using IH p(1) entry j absent present_or [OF fl(1)] page_of_or [OF fl(3,2)] by (auto simp: walk_snoc)
  next
    case 5
    then have "q \<noteq> p" using p(1) by auto
    moreover have "pt_load m u j = pt_load (memory s) u j"
      using keep 5 pt_wfD(1) [OF wf q 5(2)] j by (intro pt_load_agree) auto
    ultimately show ?thesis using 5 IH by (auto simp: walk_snoc)
  qed
qed simp

lemma walk_prefix: "walk m t q \<noteq> None \<Longrightarrow> prefix p q \<Longrightarrow> walk m t p \<noteq> None"
proof (induction q rule: rev_induct)
  case (snoc j q)
  have "walk m t q \<noteq> None" using snoc.prems(1) by (auto simp: walk_snoc split: option.splits)
  then show ?case using snoc by auto
qed simp

text \<open>The tables of the user half, and what an update of the page tables leaves alone.\<close>

definition tables :: "u64 \<Rightarrow> 'a pmm_scheme \<Rightarrow> u64 set" where
  "tables pml4 s = {t. \<exists>q. user_path q \<and> walk (memory s) pml4 q = Some t}"

definition pt_step :: "u64 \<Rightarrow> 'a pmm_scheme \<Rightarrow> 'a pmm_scheme \<Rightarrow> bool" where
  "pt_step pml4 s s' \<longleftrightarrow> pmm_inv s' \<and> pt_wf pml4 s' \<and> own_frame (tables pml4 s) s s'
     \<and> tables pml4 s \<subseteq> tables pml4 s' \<and> (\<forall>t \<in> tables pml4 s'. own_page s t \<longrightarrow> t \<in> tables pml4 s)
     \<and> (\<forall>i. 256 \<le> i \<longrightarrow> i < 512 \<longrightarrow> pt_load (memory s') pml4 i = pt_load (memory s) pml4 i)"

lemma pt_step_trans:
  assumes "pt_step pml4 s s'" "pt_step pml4 s' s''" "pt_wf pml4 s"
  shows "pt_step pml4 s s''"
proof -
  have "own_page s'' q \<and> agree (rng q 4096) (memory s'') (memory s)"
    if "own_page s q" "q \<notin> tables pml4 s" for q
  proof -
    have 1: "own_page s' q" "agree (rng q 4096) (memory s') (memory s)" "q \<notin> tables pml4 s'"
      using assms(1) that unfolding pt_step_def own_frame_def by blast+
    then have "own_page s'' q" "agree (rng q 4096) (memory s'') (memory s')"
      using assms(2) unfolding pt_step_def own_frame_def by blast+
    with 1 show ?thesis by (blast intro: agree_trans)
  qed
  moreover have "t \<in> tables pml4 s" if "t \<in> tables pml4 s''" "own_page s t" for t
  proof -
    have "own_page s' t"
    proof (cases "t \<in> tables pml4 s")
      case True
      then have "t \<in> tables pml4 s'" using assms(1) unfolding pt_step_def by blast
      then show ?thesis using assms(1) unfolding pt_step_def tables_def by (blast dest: pt_wfD(1))
    next
      case False
      then show ?thesis using assms(1) that(2) unfolding pt_step_def own_frame_def by blast
    qed
    then show ?thesis using assms that unfolding pt_step_def by blast
  qed
  ultimately show ?thesis using assms(1,2) unfolding pt_step_def own_frame_def by auto
qed

lemma pt_step_refl: "pmm_inv s \<Longrightarrow> pt_wf pml4 s \<Longrightarrow> pt_step pml4 s s"
  by (simp add: pt_step_def own_frame_refl)

lemma user_path_Nil [simp]: "user_path []"
  by (simp add: user_path_def)

lemma root_entry:
  assumes wf: "pt_wf pml4 s" and p: "walk (memory s) pml4 p = Some t" "user_path p" "p = [] \<Longrightarrow> i < 256"
    and entry: "\<And>j. j < 512 \<Longrightarrow> j \<noteq> i \<Longrightarrow> pt_load m t j = pt_load (memory s) t j"
    and keep: "\<And>q. own_page s q \<Longrightarrow> q \<noteq> t \<Longrightarrow> agree (rng q 4096) m (memory s)"
    and k: "256 \<le> k" "k < 512"
  shows "pt_load m pml4 k = pt_load (memory s) pml4 k"
proof (cases "p = []")
  case True
  then show ?thesis using p k entry [of k] by simp
next
  case False
  then have "t \<noteq> pml4" using pt_wfD(2) [OF wf p(2,1), of "[]"] by auto
  then show ?thesis using pt_wfD(1) [OF wf user_path_Nil] keep k by (intro pt_load_agree) auto
qed

lemma dir_new:
  assumes inv: "pmm_inv s" and wf: "pt_wf pml4 s"
    and p: "walk (memory s) pml4 p = Some t" "user_path (p @ [i])" and room: "free_frames s \<noteq> {}"
    and fl: "present fl" "page_of fl = 0" and step: "get_or_alloc t i fl s = (r, s')"
    and absent: "\<not> present (pt_load (memory s) t i)"
  shows "pt_step pml4 s s'" "walk (memory s') pml4 (p @ [i]) = Some r"
    "user_virt v \<Longrightarrow> pte pml4 v (memory s') = pte pml4 v (memory s)"
proof -
  have up: "user_path p" and i: "i < 512" using user_path_snocD [OF p(2)] by simp_all
  have t: "own_page s t" by (rule pt_wfD(1) [OF wf up p(1)])
  note new = get_or_alloc_new [OF inv t i absent room fl(2) step]
  have r: "page_of r = r" using new(2) by (simp add: own_page_def)
  have zero: "\<forall>j < 512. pt_load (memory s') r j = 0" using new(4) r by (auto intro: pt_load_zero)
  have keep: "agree (rng q 4096) (memory s') (memory s)" if "own_page s q" "q \<noteq> t" for q
    using new(6) that by (simp add: own_frame_def)
  have own: "own_page s' q" if "own_page s q" for q
    using new(6,7) that by (cases "q = t") (simp_all add: own_frame_def)
  have W: "walk (memory s') pml4 q = (if q = p @ [i] then Some r else if prefix (p @ [i]) q then None
    else walk (memory s) pml4 q)" if "user_path q" for q
    using new(5) keep by (intro walk_new [OF wf p absent zero _ fl r _ that]) auto
  then show "walk (memory s') pml4 (p @ [i]) = Some r" using p(2) by simp
  have old: "\<not> prefix (p @ [i]) q" if "walk (memory s) pml4 q = Some u" for q u
    using walk_prefix [of "memory s" pml4 q "p @ [i]"] that p(1) absent by (auto simp: walk_snoc)
  have origin: "u = r \<and> q = p @ [i] \<or> walk (memory s) pml4 q = Some u \<and> own_page s u \<and> u \<noteq> r"
    if "user_path q" "walk (memory s') pml4 q = Some u" for q u
    using W [OF that(1)] that pt_wfD(1) [OF wf that(1)] new(3) by (auto split: if_splits)
  have "pt_wf pml4 s'"
  proof (rule pt_wfI)
    show "own_page s' u" if "user_path q" "walk (memory s') pml4 q = Some u" for q u
      using origin [OF that] new(2) own by blast
    show "q = q'" if "user_path q" "user_path q'" "walk (memory s') pml4 q = Some u"
      "walk (memory s') pml4 q' = Some u" for q q' u
      using origin [OF that(1,3)] origin [OF that(2,4)] pt_wfD(2) [OF wf that(2) _ that(1)] by blast
  qed
  moreover have "tables pml4 s \<subseteq> tables pml4 s'"
    unfolding tables_def using W old by force
  moreover have "\<forall>u \<in> tables pml4 s'. own_page s u \<longrightarrow> u \<in> tables pml4 s"
    unfolding tables_def using origin new(3) by blast
  moreover have "own_frame (tables pml4 s) s s'"
    using up p(1) own keep by (auto simp: own_frame_def tables_def)
  moreover have "pt_load (memory s') pml4 k = pt_load (memory s) pml4 k" if "256 \<le> k" "k < 512" for k
    using p(2) new(5) by (intro root_entry [OF wf p(1) up, of i]) (auto simp: user_path_def keep that)
  ultimately show "pt_step pml4 s s'" using new(1) by (simp add: pt_step_def)
  show "pte pml4 v (memory s') = pte pml4 v (memory s)" if v: "user_virt v"
  proof (cases "walk (memory s) pml4 (dir_path v)")
    case None
    then show ?thesis using W [OF user_path_dir [OF v]] zero idx_less(4) [of v] by (simp add: pte_def)
  next
    case (Some u)
    have "dir_path v \<noteq> p" using p(2) by (auto simp: dir_path_def user_path_def)
    then have "u \<noteq> t" using pt_wfD(2) [OF wf up p(1) user_path_dir [OF v]] Some by auto
    then have "pt_load (memory s') u j = pt_load (memory s) u j" if "j < 512" for j
      using pt_wfD(1) [OF wf user_path_dir [OF v] Some] that by (intro pt_load_agree keep)
    then show ?thesis using W [OF user_path_dir [OF v]] old [OF Some] Some idx_less(4) [of v]
      by (auto simp: pte_def)
  qed
qed

lemma dir_step:
  assumes inv: "pmm_inv s" and wf: "pt_wf pml4 s"
    and p: "walk (memory s) pml4 p = Some t" "user_path (p @ [i])" and room: "free_frames s \<noteq> {}"
    and fl: "present fl" "page_of fl = 0" and step: "get_or_alloc t i fl s = (r, s')"
  shows "pt_step pml4 s s'" "walk (memory s') pml4 (p @ [i]) = Some r"
    "user_virt v \<Longrightarrow> pte pml4 v (memory s') = pte pml4 v (memory s)"
    "card (free_frames s) \<le> card (free_frames s') + 1"
proof -
  have "pt_step pml4 s s' \<and> walk (memory s') pml4 (p @ [i]) = Some r
    \<and> (user_virt v \<longrightarrow> pte pml4 v (memory s') = pte pml4 v (memory s))
    \<and> card (free_frames s) \<le> card (free_frames s') + 1"
  proof (cases "present (pt_load (memory s) t i)")
    case True
    then have "r = page_of (pt_load (memory s) t i)" "s' = s" using step by (auto simp: get_or_alloc_def)
    then show ?thesis using True p(1) pt_step_refl [OF inv wf] by (simp add: walk_snoc)
  next
    case False
    have "own_page s t" "i < 512" using user_path_snocD [OF p(2)] pt_wfD(1) [OF wf _ p(1)] by simp_all
    then show ?thesis using dir_new [OF assms False] get_or_alloc_new(8) [OF inv _ _ False room fl(2) step] by simp
  qed
  then show "pt_step pml4 s s'" "walk (memory s') pml4 (p @ [i]) = Some r"
    "user_virt v \<Longrightarrow> pte pml4 v (memory s') = pte pml4 v (memory s)"
    "card (free_frames s) \<le> card (free_frames s') + 1" by simp_all
qed

section \<open>Writing an entry\<close>

lemma walk_leaf:
  assumes wf: "pt_wf pml4 s" and d: "walk (memory s) pml4 d = Some t" "user_path d" "length d = 3"
    and keep: "\<And>q. own_page s q \<Longrightarrow> q \<noteq> t \<Longrightarrow> agree (rng q 4096) m (memory s)"
    and q: "user_path q"
  shows "walk m pml4 q = walk (memory s) pml4 q"
  using q
proof (induction q rule: rev_induct)
  case (snoc j q)
  have q: "user_path q" and j: "j < 512" using user_path_snocD [OF snoc.prems] by simp_all
  have "pt_load m u j = pt_load (memory s) u j" if u: "walk (memory s) pml4 q = Some u" for u
  proof -
    have "q \<noteq> d" using snoc.prems d(3) by (auto simp: user_path_def)
    then have "u \<noteq> t" using pt_wfD(2) [OF wf d(2,1) q] u by auto
    then show ?thesis using pt_wfD(1) [OF wf q u] j by (intro pt_load_agree keep)
  qed
  then show ?case using snoc.IH [OF q] by (auto simp: walk_snoc split: option.split)
qed simp

lemma leaf_step:
  assumes inv: "pmm_inv s" and wf: "pt_wf pml4 s" and u: "user_virt virt"
    and t: "walk (memory s) pml4 (dir_path virt) = Some t"
    and s': "s' = s\<lparr>memory := pt_store (memory s) t (p1_idx virt) e\<rparr>"
  shows "pt_step pml4 s s'" "free_frames s' = free_frames s"
    "user_virt v \<Longrightarrow> pte pml4 v (memory s') = (if page_of v = page_of virt then e else pte pml4 v (memory s))"
    "user_path q \<Longrightarrow> walk (memory s') pml4 q = walk (memory s) pml4 q"
proof -
  let ?d = "dir_path virt"
  have d: "user_path ?d" "length ?d = 3" using user_path_dir [OF u] by (simp_all add: dir_path_def)
  have own: "own_page s t" by (rule pt_wfD(1) [OF wf d(1) t])
  then have al: "page_of t = t" by (simp add: own_page_def)
  have only: "\<forall>a. page_of a \<noteq> t \<longrightarrow> pt_store (memory s) t (p1_idx virt) e a = memory s a"
    using pt_store_outside [OF al idx_less(4)] by simp
  note w = fa.write_own [OF inv own only, folded s']
  have keep: "agree (rng q 4096) (memory s') (memory s)" if "own_page s q" "q \<noteq> t" for q
    using fa.write_keep [OF inv that only] by (simp add: s')
  have W: "walk (memory s') pml4 q = walk (memory s) pml4 q" if "user_path q" for q
    by (rule walk_leaf [OF wf t d keep that])
  then show "user_path q \<Longrightarrow> walk (memory s') pml4 q = walk (memory s) pml4 q" .
  have load: "pt_load (memory s') t j = (if p1_idx virt = j then e else pt_load (memory s) t j)" if "j < 512" for j
    using pt_load_store [OF al al idx_less(4) that] by (simp add: s')
  have "pt_wf pml4 s'" using pt_wfD [OF wf] W w by (intro pt_wfI) auto
  moreover have T: "tables pml4 s' = tables pml4 s" using W by (auto simp: tables_def)
  moreover have "own_frame (tables pml4 s) s s'"
    using d(1) t w keep by (auto simp: own_frame_def tables_def)
  moreover have "pt_load (memory s') pml4 k = pt_load (memory s) pml4 k" if "256 \<le> k" "k < 512" for k
    using load d by (intro root_entry [OF wf t d(1), of "p1_idx virt"]) (auto simp: keep that)
  ultimately show "pt_step pml4 s s'" using w by (simp add: pt_step_def)
  show "free_frames s' = free_frames s"
    unfolding s' using only own by (intro free_frames_agree inv) (auto simp: own_page_def)
  show "pte pml4 v (memory s') = (if page_of v = page_of virt then e else pte pml4 v (memory s))"
    if v: "user_virt v"
  proof (cases "walk (memory s) pml4 (dir_path v)")
    case None
    then have "page_of v \<noteq> page_of virt" using t page_idx_eq [OF v u] by auto
    then show ?thesis using None W [OF user_path_dir [OF v]] by (simp add: pte_def)
  next
    case (Some x)
    show ?thesis
    proof (cases "dir_path v = ?d")
      case True
      then have "page_of v = page_of virt \<longleftrightarrow> p1_idx v = p1_idx virt" using page_idx_eq [OF v u] by blast
      then show ?thesis using True W [OF user_path_dir [OF v]] t load [OF idx_less(4)] by (auto simp: pte_def)
    next
      case False
      then have "page_of v \<noteq> page_of virt" using page_idx_eq [OF v u] by blast
      moreover have "x \<noteq> t" using pt_wfD(2) [OF wf d(1) t user_path_dir [OF v]] Some False by auto
      then have "pt_load (memory s') x (p1_idx v) = pt_load (memory s) x (p1_idx v)"
        using pt_wfD(1) [OF wf user_path_dir [OF v] Some] idx_less(4) by (intro pt_load_agree keep)
      ultimately show ?thesis using Some W [OF user_path_dir [OF v]] by (simp add: pte_def)
    qed
  qed
qed

section \<open>Mapping a page\<close>

definition map_entry :: "u64 \<Rightarrow> u64 \<Rightarrow> u64" where
  "map_entry phys flags = page_of phys OR (flags AND 0xFFF) OR VMM_PRESENT
     OR (if flags AND VMM_NX \<noteq> 0 then VMM_NX else 0)"

lemma pt_step_inv: "pt_step pml4 s s' \<Longrightarrow> pmm_inv s'" "pt_step pml4 s s' \<Longrightarrow> pt_wf pml4 s'"
  by (simp_all add: pt_step_def)

lemma leaf_map:
  assumes inv: "pmm_inv s" and wf: "pt_wf pml4 s" and u: "user_virt virt"
    and t: "walk (memory s) pml4 (dir_path virt) = Some t"
    and m1: "m1 = pt_store (memory s) t (p1_idx virt) (page_of phys OR (flags AND 0xFFF) OR VMM_PRESENT)"
    and m: "m = (if flags AND VMM_NX \<noteq> 0
      then pt_store m1 t (p1_idx virt) (pt_load m1 t (p1_idx virt) OR VMM_NX) else m1)"
  shows "pt_step pml4 s (s\<lparr>memory := m\<rparr>)" "free_frames (s\<lparr>memory := m\<rparr>) = free_frames s"
    "user_virt v \<Longrightarrow> pte pml4 v m = (if page_of v = page_of virt then map_entry phys flags else pte pml4 v (memory s))"
proof -
  let ?s1 = "s\<lparr>memory := m1\<rparr>"
  have al: "page_of t = t"
    using pt_wfD(1) [OF wf user_path_dir [OF u] t] by (simp add: own_page_def)
  have s1: "?s1 = s\<lparr>memory := pt_store (memory s) t (p1_idx virt) (page_of phys OR (flags AND 0xFFF) OR VMM_PRESENT)\<rparr>"
    by (simp add: m1)
  note 1 = leaf_step [OF inv wf u t s1]
  have "pt_step pml4 s (s\<lparr>memory := m\<rparr>) \<and> free_frames (s\<lparr>memory := m\<rparr>) = free_frames s
    \<and> (\<forall>v. user_virt v \<longrightarrow> pte pml4 v m
         = (if page_of v = page_of virt then map_entry phys flags else pte pml4 v (memory s)))"
  proof (cases "flags AND VMM_NX = 0")
    case True
    then show ?thesis using 1(1,2,3) m by (simp add: map_entry_def)
  next
    case False
    have "pt_load m1 t (p1_idx virt) = page_of phys OR (flags AND 0xFFF) OR VMM_PRESENT"
      using pt_load_store [OF al al idx_less(4) idx_less(4)] by (simp add: m1)
    then have s2: "s\<lparr>memory := m\<rparr> = ?s1\<lparr>memory := pt_store (memory ?s1) t (p1_idx virt) (map_entry phys flags)\<rparr>"
      using False m by (simp add: map_entry_def or.assoc)
    have t1: "walk (memory ?s1) pml4 (dir_path virt) = Some t" using 1(4) [OF user_path_dir [OF u]] t by simp
    note 2 = leaf_step [OF pt_step_inv [OF 1(1)] u t1 s2]
    then show ?thesis using 1(2,3) pt_step_trans [OF 1(1) 2(1) wf] by simp
  qed
  then show "pt_step pml4 s (s\<lparr>memory := m\<rparr>)" "free_frames (s\<lparr>memory := m\<rparr>) = free_frames s"
    "user_virt v \<Longrightarrow> pte pml4 v m = (if page_of v = page_of virt then map_entry phys flags else pte pml4 v (memory s))"
    by simp_all
qed

lemma vmm_map_ok:
  assumes inv: "pmm_inv s" and wf: "pt_wf pml4 s" and u: "user_virt virt" and room: "3 \<le> card (free_frames s)"
  shows "pt_step pml4 s (vmm_map pml4 virt phys flags s)"
    "card (free_frames s) \<le> card (free_frames (vmm_map pml4 virt phys flags s)) + 3"
    "user_virt v \<Longrightarrow> pte pml4 v (memory (vmm_map pml4 virt phys flags s))
      = (if page_of v = page_of virt then map_entry phys flags else pte pml4 v (memory s))"
proof -
  define fl where "fl = (if flags AND VMM_USER \<noteq> 0 then VMM_PRESENT OR VMM_WRITABLE OR VMM_USER
    else VMM_PRESENT OR VMM_WRITABLE)"
  have fl: "present fl" "page_of fl = 0" by (auto simp: fl_def present_def page_of_def)
  obtain t3 s1 where 1: "get_or_alloc pml4 (p4_idx virt) fl s = (t3, s1)" by fastforce
  obtain t2 s2 where 2: "get_or_alloc t3 (p3_idx virt) fl s1 = (t2, s2)" by fastforce
  obtain t1 s3 where 3: "get_or_alloc t2 (p2_idx virt) fl s2 = (t1, s3)" by fastforce
  have up: "user_path ([] @ [p4_idx virt])" "user_path (([] @ [p4_idx virt]) @ [p3_idx virt])"
    "user_path ((([] @ [p4_idx virt]) @ [p3_idx virt]) @ [p2_idx virt])"
    using user_path_dir [OF u] by (simp_all add: dir_path_def user_path_def)
  have ne: "free_frames s \<noteq> {}" using room by auto
  note A = dir_step [OF inv wf walk.simps(1) up(1) ne fl 1]
  have ne1: "free_frames s1 \<noteq> {}" using A(4) room by auto
  note B = dir_step [OF pt_step_inv [OF A(1)] A(2) up(2) ne1 fl 2]
  have ne2: "free_frames s2 \<noteq> {}" using A(4) B(4) room by auto
  note C = dir_step [OF pt_step_inv [OF B(1)] B(2) up(3) ne2 fl 3]
  have path: "walk (memory s3) pml4 (dir_path virt) = Some t1" using C(2) by (simp add: dir_path_def)
  note D = leaf_map [OF pt_step_inv [OF C(1)] u path refl refl, where flags = flags and phys = phys]
  have eq: "vmm_map pml4 virt phys flags s = s3\<lparr>memory :=
    let m1 = pt_store (memory s3) t1 (p1_idx virt) (page_of phys OR (flags AND 0xFFF) OR VMM_PRESENT)
    in if flags AND VMM_NX \<noteq> 0 then pt_store m1 t1 (p1_idx virt) (pt_load m1 t1 (p1_idx virt) OR VMM_NX) else m1\<rparr>"
    using 1 2 3 by (simp add: vmm_map_def Let_def fl_def or.assoc split: if_splits)
  show "pt_step pml4 s (vmm_map pml4 virt phys flags s)"
    unfolding eq Let_def
    by (intro pt_step_trans [OF A(1) _ wf] pt_step_trans [OF B(1) _ pt_step_inv(2) [OF A(1)]]
      pt_step_trans [OF C(1) _ pt_step_inv(2) [OF B(1)]] D(1))
  show "card (free_frames s) \<le> card (free_frames (vmm_map pml4 virt phys flags s)) + 3"
    unfolding eq Let_def D(2) using A(4) B(4) C(4) by simp
  show "user_virt v \<Longrightarrow> pte pml4 v (memory (vmm_map pml4 virt phys flags s))
      = (if page_of v = page_of virt then map_entry phys flags else pte pml4 v (memory s))"
    unfolding eq Let_def using A(3) B(3) C(3) D(3) by simp
qed

lemma vmm_unmap_ok:
  assumes inv: "pmm_inv s" and wf: "pt_wf pml4 s" and u: "user_virt virt"
  shows "pt_step pml4 s (vmm_unmap pml4 virt s)" "free_frames (vmm_unmap pml4 virt s) = free_frames s"
    "user_virt v \<Longrightarrow> pte pml4 v (memory (vmm_unmap pml4 virt s))
      = (if page_of v = page_of virt then 0 else pte pml4 v (memory s))"
proof -
  have eq: "vmm_unmap pml4 virt s = (case walk (memory s) pml4 (dir_path virt) of None \<Rightarrow> s
     | Some t \<Rightarrow> s\<lparr>memory := pt_store (memory s) t (p1_idx virt) 0\<rparr>)"
    by (simp add: vmm_unmap_def dir_path_def Let_def)
  have "pt_step pml4 s (vmm_unmap pml4 virt s) \<and> free_frames (vmm_unmap pml4 virt s) = free_frames s
    \<and> (user_virt v \<longrightarrow> pte pml4 v (memory (vmm_unmap pml4 virt s))
      = (if page_of v = page_of virt then 0 else pte pml4 v (memory s)))"
  proof (cases "walk (memory s) pml4 (dir_path virt)")
    case None
    then have "pte pml4 v (memory s) = 0" if "user_virt v" "page_of v = page_of virt"
      using page_idx_eq [OF that(1) u] that(2) by (simp add: pte_def)
    then show ?thesis using None pt_step_refl [OF inv wf] by (simp add: eq)
  next
    case (Some t)
    then show ?thesis using leaf_step [OF inv wf u Some refl, where e = 0] by (simp add: eq)
  qed
  then show "pt_step pml4 s (vmm_unmap pml4 virt s)" "free_frames (vmm_unmap pml4 virt s) = free_frames s"
    "user_virt v \<Longrightarrow> pte pml4 v (memory (vmm_unmap pml4 virt s))
      = (if page_of v = page_of virt then 0 else pte pml4 v (memory s))" by simp_all
qed

section \<open>A fresh address space\<close>

lemma copy_entries:
  fixes m :: mem
  assumes "page_of t = t" "page_of k = k" "k \<noteq> t" "n \<le> 512"
  defines "m' \<equiv> fold (\<lambda>i m. pt_store m t i (pt_load m k i)) [256..<n] m"
  shows "page_of a \<noteq> t \<Longrightarrow> m' a = m a"
    "j < 512 \<Longrightarrow> pt_load m' t j = (if 256 \<le> j \<and> j < n then pt_load m k j else pt_load m t j)"
proof -
  have "(\<forall>a. page_of a \<noteq> t \<longrightarrow> m' a = m a) \<and>
    (\<forall>j < 512. pt_load m' t j = (if 256 \<le> j \<and> j < n then pt_load m k j else pt_load m t j))"
    unfolding m'_def using assms(4)
  proof (induction n)
    case (Suc n)
    show ?case
    proof (cases "n < 256")
      case False
      define m1 where "m1 = fold (\<lambda>i m. pt_store m t i (pt_load m k i)) [256..<n] m"
      have IH: "\<forall>a. page_of a \<noteq> t \<longrightarrow> m1 a = m a"
        "\<forall>j < 512. pt_load m1 t j = (if 256 \<le> j \<and> j < n then pt_load m k j else pt_load m t j)"
        using Suc unfolding m1_def by auto
      have n: "n < 512" using Suc.prems by simp
      have "pt_load m1 k n = pt_load m k n"
        using IH(1) assms(2,3) n by (intro pt_load_agree page_disj_agree) auto
      moreover have "fold (\<lambda>i m. pt_store m t i (pt_load m k i)) [256..<Suc n] m = pt_store m1 t n (pt_load m1 k n)"
        using False by (simp add: m1_def)
      ultimately show ?thesis
        using IH False n pt_store_outside [OF assms(1) n] pt_load_store [OF assms(1,1) n] by auto
    qed auto
  qed simp
  then show "page_of a \<noteq> t \<Longrightarrow> m' a = m a"
    "j < 512 \<Longrightarrow> pt_load m' t j = (if 256 \<le> j \<and> j < n then pt_load m k j else pt_load m t j)" by auto
qed

lemma empty_root:
  assumes own: "own_page s t" and empty: "\<And>j. j < 256 \<Longrightarrow> pt_load (memory s) t j = 0"
  shows "pt_wf t s" "user_virt v \<Longrightarrow> pte t v (memory s) = 0"
proof -
  have W: "walk (memory s) t q = (if q = [] then Some t else None)" if "user_path q" for q
    using that empty by (cases q) (auto simp: user_path_def present_def)
  show "pt_wf t s" using own W by (intro pt_wfI) (auto split: if_splits)
  show "user_virt v \<Longrightarrow> pte t v (memory s) = 0"
    using W [OF user_path_dir] by (simp add: pte_def dir_path_def)
qed

lemma alloc_kernel_pml4: "pmm_alloc s = (p, s') \<Longrightarrow> kernel_pml4 s' = kernel_pml4 s"
  by (auto simp: pmm_alloc_first claim_frame_def bm_set_def split: if_splits)

lemma vmm_new_pml4_ok:
  assumes inv: "pmm_inv s" and k: "kernel_pml4 s \<noteq> 0 \<longrightarrow> own_page s (kernel_pml4 s)"
    and step: "vmm_new_pml4 s = (r, s')" and r: "r \<noteq> 0"
  shows "pmm_inv s'" "pt_wf r s'" "own_frame {} s s'" "\<not> own_page s r"
    "user_virt v \<Longrightarrow> pte r v (memory s') = 0"
    "256 \<le> i \<Longrightarrow> i < 512 \<Longrightarrow> pt_load (memory s') r i
      = (if kernel_pml4 s = 0 then 0 else pt_load (memory s) (kernel_pml4 s) i)"
proof -
  obtain p s1 where al: "pmm_alloc s = (p, s1)" by fastforce
  then have pr: "p = r" and p: "p \<noteq> 0" using step r by (auto simp: vmm_new_pml4_def Let_def simp del: upt_rec_numeral split: if_splits)
  define s2 where "s2 = s1\<lparr>memory := kmemset (memory s1) p 0 4096\<rparr>"
  note z = fa.alloc_zero [OF inv al p, folded s2_def]
  have al_p: "page_of p = p" using z(2) by (simp add: own_page_def)
  define k where "k = kernel_pml4 s"
  define m where "m = (if k \<noteq> 0 then fold (\<lambda>i m. pt_store m p i (pt_load m k i)) [256..<512] (memory s2) else memory s2)"
  have s': "s' = s2\<lparr>memory := m\<rparr>"
    using step al p alloc_kernel_pml4 [OF al] by (auto simp: vmm_new_pml4_def Let_def s2_def m_def k_def simp del: upt_rec_numeral)
  have k: "page_of k = k" "k \<noteq> p" "agree (rng k 4096) (memory s2) (memory s)" if "k \<noteq> 0"
    using assms(2) z(5) [of k] that by (auto simp: k_def own_page_def)
  have only: "\<forall>a. page_of a \<noteq> p \<longrightarrow> m a = memory s2 a"
    using copy_entries(1) [OF al_p k(1,2) order_refl] by (simp add: m_def del: upt_rec_numeral)
  have zero: "pt_load (memory s2) p j = 0" if "j < 512" for j using z(4) al_p that by (rule pt_load_zero)
  have load: "pt_load m p j = (if 256 \<le> j \<and> k \<noteq> 0 then pt_load (memory s) k j else 0)" if "j < 512" for j
    using copy_entries(2) [OF al_p k(1,2) order_refl that] zero [OF that] pt_load_agree [OF k(3) that] that
    by (simp add: m_def del: upt_rec_numeral)
  note w = fa.write_own [OF z(1,2) only, folded s']
  show "pmm_inv s'" "\<not> own_page s r" using w z(3) by (simp_all add: pr)
  have "own_page s' r" "\<And>j. j < 256 \<Longrightarrow> pt_load (memory s') r j = 0"
    using w z(2) load by (simp_all add: pr s')
  note E = empty_root [OF this]
  show "pt_wf r s'" "user_virt v \<Longrightarrow> pte r v (memory s') = 0" using E by simp_all
  show "256 \<le> i \<Longrightarrow> i < 512 \<Longrightarrow> pt_load (memory s') r i
      = (if kernel_pml4 s = 0 then 0 else pt_load (memory s) (kernel_pml4 s) i)"
    using load [of i] by (simp add: pr s' k_def)
  have "own_page s' q \<and> agree (rng q 4096) (memory s') (memory s)" if "own_page s q" for q
    using z(5) [OF that] w fa.write_keep [OF z(1) _ _ only, of q] by (auto simp: s' intro: agree_trans)
  then show "own_frame {} s s'" by (simp add: own_frame_def)
qed

section \<open>Mapping a range\<close>

lemma range_head:
  assumes "4096 dvd P" "4096 dvd (B :: nat)"
  shows "B \<le> P \<and> P < E \<longleftrightarrow> B + 4096 \<le> P \<and> P < E \<or> P = B \<and> B < E"
proof -
  obtain p b where "P = 4096 * p" "B = 4096 * b" using assms by (auto elim!: dvdE)
  then show ?thesis by auto
qed

lemma page_of_dvd: "4096 dvd unat (page_of v)"
  by (simp add: page_of_div)

lemma map_range_loop_ok:
  assumes virt: "4096 dvd unat virt" "unat virt + unat sz \<le> 2 ^ 47"
  shows "\<lbrakk>pmm_inv s; pt_wf pml4 s; 4096 dvd unat off; 3 * n \<le> card (free_frames s);
     unat sz \<le> unat off + 4096 * n\<rbrakk> \<Longrightarrow>
   \<exists>s'. map_range_loop pml4 virt phys sz flags off s = Some s' \<and> pt_step pml4 s s' \<and>
     (\<forall>v. user_virt v \<longrightarrow> pte pml4 v (memory s') =
       (if unat virt + unat off \<le> unat (page_of v) \<and> unat (page_of v) < unat virt + unat sz
        then map_entry (phys + (page_of v - virt)) flags else pte pml4 v (memory s)))"
proof (induction n arbitrary: off s)
  case 0
  then show ?case
    using pt_step_refl by (subst map_range_loop.simps) (auto simp: word_less_nat_alt)
next
  case (Suc n)
  show ?case
  proof (cases "off < sz")
    case False
    then show ?thesis using Suc.prems pt_step_refl
      by (subst map_range_loop.simps) (auto simp: word_less_nat_alt)
  next
    case True
    have less: "unat off < unat sz" using True by (simp add: word_less_nat_alt)
    have off: "unat (off + 4096) = unat off + 4096" and va: "unat (virt + off) = unat virt + unat off"
      using less virt(2) by (simp_all add: unat_add_small)
    have dv: "4096 dvd unat (virt + off)" using va virt(1) Suc.prems(3) by (simp add: dvd_add)
    then have pg: "page_of (virt + off) = virt + off" by (simp add: page_of_aligned)
    have u: "user_virt (virt + off)" using va less virt(2) by (simp add: user_virt_def word_less_nat_alt)
    let ?s = "vmm_map pml4 (virt + off) (phys + off) flags s"
    have room: "3 \<le> card (free_frames s)" using Suc.prems(4) by simp
    note M = vmm_map_ok [OF Suc.prems(1,2) u room, where phys = "phys + off" and flags = flags]
    obtain s' where s': "map_range_loop pml4 virt phys sz flags (off + 4096) ?s = Some s'" "pt_step pml4 ?s s'"
      and pte: "\<And>v. user_virt v \<Longrightarrow> pte pml4 v (memory s') =
       (if unat virt + unat (off + 4096) \<le> unat (page_of v) \<and> unat (page_of v) < unat virt + unat sz
        then map_entry (phys + (page_of v - virt)) flags else pte pml4 v (memory ?s))"
      using Suc.IH [OF pt_step_inv [OF M(1)], of "off + 4096"] Suc.prems(3,4,5) M(2) off by auto
    have "pte pml4 v (memory s') =
       (if unat virt + unat off \<le> unat (page_of v) \<and> unat (page_of v) < unat virt + unat sz
        then map_entry (phys + (page_of v - virt)) flags else pte pml4 v (memory s))" if v: "user_virt v" for v
    proof -
      have "page_of v = virt + off \<longleftrightarrow> unat (page_of v) = unat virt + unat off"
        by (simp add: word_unat_eq_iff va)
      then show ?thesis
        using pte [OF v] M(3) [OF v] range_head [OF page_of_dvd, of "unat virt + unat off" v "unat virt + unat sz"]
          virt(1) Suc.prems(3) less by (auto simp: off pg)
    qed
    then show ?thesis
      using s' pt_step_trans [OF M(1) s'(2) Suc.prems(2)] True by (subst map_range_loop.simps) auto
  qed
qed

section \<open>Properties\<close>

text \<open>A machine for the witnesses: 16 frames, the bitmap in frame 1, an empty root in frame 2.\<close>

definition vm_demo :: vmm_state where
  "vm_demo = \<lparr>memory = (\<lambda>_. 0)(0x1000 := 7), bitmap = 0x1000, total_pages = 16,
     free_pages = 13, bitmap_size = 2,
     slab_caches = (\<lambda>_. \<lparr>c_name = 0, c_obj_size = 0, c_align = 0, c_partial = 0, c_full = 0,
       c_num_allocs = 0, c_num_frees = 0, c_num_slabs = 0\<rparr>),
     size_caches = 0x600, caches = replicate 32 0, num_caches = 0,
     kernel_pml4 = 0x2000, slab_ready = False, heap_cur = 0, heap_left = 0, cr3 = 0x2000\<rparr>"

lemma vm_demo_free: "free_frames vm_demo = {3, 4, 5, 6, 7, 8, 9, 10, 11, 12, 13, 14, 15}"
  unfolding free_frames_code by (simp add: vm_demo_def bm_test_def upt_rec)

lemma vm_demo_card: "card (free_frames vm_demo) = 13"
  unfolding vm_demo_free by simp

lemma word_less_2: "k < 2 \<longleftrightarrow> k = 0 \<or> k = 1" for k :: u64
  by (auto simp: word_less_nat_alt word_unat_eq_iff)

lemma vm_demo_inv: "pmm_inv vm_demo"
proof -
  have "(0x1000 + k) div PAGE_SIZE = 1" if "k < 2" for k :: u64 using that by (auto simp: word_less_2)
  then show ?thesis unfolding pmm_inv_def vm_demo_free by (simp add: vm_demo_def BITMAP_MAX_PAGES_def)
qed

lemma vm_demo_root: "own_page vm_demo 0x2000"
proof -
  have "\<not> in_bitmap a vm_demo" if "page_of a = 0x2000" for a
    using that by (auto simp: in_bitmap_def vm_demo_def page_of_def word_less_2 diff_eq_eq)
  then show ?thesis by (auto simp: own_page_def) (simp_all add: vm_demo_def bm_test_def page_of_def)
qed

lemma vm_demo_wf: "pt_wf 0x2000 vm_demo" and vm_demo_pte: "user_virt v \<Longrightarrow> pte 0x2000 v (memory vm_demo) = 0"
proof -
  have "pt_load (memory vm_demo) 0x2000 j = 0" if "j < 256" for j
    using that by (intro pt_load_zero) (auto simp: vm_demo_def page_of_def)
  from empty_root [OF vm_demo_root this]
  show "pt_wf 0x2000 vm_demo" "user_virt v \<Longrightarrow> pte 0x2000 v (memory vm_demo) = 0" by simp_all
qed

text \<open>C6. \<open>vmm_map\<close> on a well-formed address space with three free frames updates the page map at
  exactly one page: afterwards the page of \<open>virt\<close> has the entry made of \<open>phys\<close> and \<open>flags\<close>, and every
  other user page its old entry.  The tables stay well-formed (each is a page in use, no table is
  shared), the allocator invariant holds, the kernel half of the root is unchanged, and no page in
  use that is not a table of this address space changes a byte.\<close>

theorem vmm_map_refines:
  assumes "pmm_inv s" "pt_wf pml4 s" "user_virt virt" "3 \<le> card (free_frames s)"
    and s': "s' = vmm_map pml4 virt phys flags s"
  shows "pmm_inv s' \<and> pt_wf pml4 s'
    \<and> (\<forall>v. user_virt v \<longrightarrow> pte pml4 v (memory s') =
         (if page_of v = page_of virt then map_entry phys flags else pte pml4 v (memory s)))
    \<and> (flags AND VMM_NX = 0 \<longrightarrow> vmm_get_phys pml4 virt (memory s') = page_of phys)
    \<and> (\<forall>i. 256 \<le> i \<longrightarrow> i < 512 \<longrightarrow> pt_load (memory s') pml4 i = pt_load (memory s) pml4 i)
    \<and> own_frame (tables pml4 s) s s'"
proof -
  note M = vmm_map_ok [OF assms(1-4), where phys = phys and flags = flags, folded s']
  have "page_of (map_entry phys flags) = page_of phys" if "flags AND VMM_NX = 0"
    using that page_of_or [of "page_of phys" "(flags AND 0xFFF) OR VMM_PRESENT"]
    by (simp add: map_entry_def or.assoc page_of_flags)
  then have "vmm_get_phys pml4 virt (memory s') = page_of phys" if "flags AND VMM_NX = 0"
    using M(3) [OF assms(3)] that by (simp add: vmm_get_phys_pte)
  then show ?thesis using M(1,3) by (simp add: pt_step_def)
qed

theorem vmm_map_refines_witness:
  "vmm_get_phys 0x2000 0x400123 (memory (vmm_map 0x2000 0x400000 0x9000 7 vm_demo)) = 0x9000
    \<and> vmm_get_phys 0x2000 0x401000 (memory (vmm_map 0x2000 0x400000 0x9000 7 vm_demo)) = 0"
proof -
  have u: "user_virt 0x400000" "user_virt 0x400123" "user_virt 0x401000" by (simp_all add: user_virt_def)
  from vmm_map_refines [OF vm_demo_inv vm_demo_wf u(1) _ refl, where phys = "0x9000" and flags = 7]
  show ?thesis using u vm_demo_pte [OF u(3)]
    by (simp add: vm_demo_card vmm_get_phys_pte map_entry_def) (simp add: page_of_def)
qed

text \<open>C25. \<open>vmm_unmap\<close> takes exactly one page out of the map: the page of \<open>virt\<close> translates to \<open>NULL\<close>
  afterwards, every other user page keeps its entry, the tables stay well-formed, no frame is
  released, and no page in use that is not a table changes.\<close>

theorem vmm_unmap_refines:
  assumes "pmm_inv s" "pt_wf pml4 s" "user_virt virt" and s': "s' = vmm_unmap pml4 virt s"
  shows "pmm_inv s' \<and> pt_wf pml4 s' \<and> vmm_get_phys pml4 virt (memory s') = 0
    \<and> (\<forall>v. user_virt v \<longrightarrow> page_of v \<noteq> page_of virt \<longrightarrow> pte pml4 v (memory s') = pte pml4 v (memory s))
    \<and> free_frames s' = free_frames s \<and> own_frame (tables pml4 s) s s'"
  using vmm_unmap_ok [OF assms(1-3)] assms(3) by (simp add: s' vmm_get_phys_pte pt_step_def) (simp add: page_of_def)

theorem vmm_unmap_refines_witness:
  "vmm_get_phys 0x2000 0x400000 (memory (vmm_unmap 0x2000 0x400000 vm_demo)) = 0"
  using vmm_unmap_refines [OF vm_demo_inv vm_demo_wf _ refl, where virt = "0x400000"] by (simp add: user_virt_def)

text \<open>C26. \<open>vmm_map_range\<close> returns, and maps every page of the range: for a page-aligned \<open>virt\<close> whose
  range ends within the user half, and three free frames per page, the page at \<open>virt + off\<close> gets the
  entry of \<open>phys + off\<close>, every page outside the range keeps its entry, and the tables stay
  well-formed.\<close>

theorem vmm_map_range_maps:
  assumes "pmm_inv s" "pt_wf pml4 s" "page_of virt = virt" "unat virt + unat sz \<le> 2 ^ 47"
    and "3 * ((unat sz + 4095) div 4096) \<le> card (free_frames s)"
  shows "\<exists>s'. vmm_map_range pml4 virt phys sz flags s = Some s' \<and> pmm_inv s' \<and> pt_wf pml4 s'
    \<and> (\<forall>v. user_virt v \<longrightarrow> pte pml4 v (memory s') =
         (if virt \<le> page_of v \<and> page_of v < virt + sz
          then map_entry (phys + (page_of v - virt)) flags else pte pml4 v (memory s)))"
proof -
  have "unat sz \<le> 4096 * ((unat sz + 4095) div 4096)" by linarith
  moreover have "unat (virt + sz) = unat virt + unat sz" using assms(4) by (intro unat_add_small) simp
  ultimately show ?thesis
    using map_range_loop_ok [OF _ assms(4,1,2) _ assms(5), where off = 0 and phys = phys and flags = flags] assms(3)
    by (simp add: vmm_map_range_def page_of_aligned word_le_nat_alt word_less_nat_alt) (auto simp: pt_step_def)
qed

theorem vmm_map_range_maps_witness:
  "\<exists>s'. vmm_map_range 0x2000 0x400000 0x8000 0x1800 7 vm_demo = Some s'
    \<and> vmm_get_phys 0x2000 0x401000 (memory s') = 0x9000"
proof -
  have "page_of 0x400000 = 0x400000" "unat (0x400000::u64) + unat (0x1800::u64) \<le> 2 ^ 47"
    "3 * ((unat (0x1800::u64) + 4095) div 4096) \<le> card (free_frames vm_demo)"
    by (simp_all add: page_of_def vm_demo_card)
  from vmm_map_range_maps [OF vm_demo_inv vm_demo_wf this, where phys = "0x8000" and flags = 7]
  obtain s' where "vmm_map_range 0x2000 0x400000 0x8000 0x1800 7 vm_demo = Some s'"
    "\<forall>v. user_virt v \<longrightarrow> pte 0x2000 v (memory s') =
         (if 0x400000 \<le> page_of v \<and> page_of v < 0x400000 + 0x1800
          then map_entry (0x8000 + (page_of v - 0x400000)) 7 else pte 0x2000 v (memory vm_demo))" by auto
  then show ?thesis by (auto simp: vmm_get_phys_pte user_virt_def map_entry_def page_of_def)
qed

text \<open>C27. A root from \<open>vmm_new_pml4\<close> is an empty user address space: a page that was not in use, with
  well-formed tables, no user page mapped, the kernel half copied entry by entry from the kernel's
  root, and every page that was in use unchanged.\<close>

theorem vmm_new_pml4_fresh:
  assumes "pmm_inv s" "kernel_pml4 s \<noteq> 0 \<longrightarrow> own_page s (kernel_pml4 s)"
    and "vmm_new_pml4 s = (r, s')" "r \<noteq> 0"
  shows "pmm_inv s' \<and> pt_wf r s' \<and> \<not> own_page s r
    \<and> (\<forall>v. user_virt v \<longrightarrow> vmm_get_phys r v (memory s') = 0)
    \<and> (\<forall>i. 256 \<le> i \<longrightarrow> i < 512 \<longrightarrow> pt_load (memory s') r i
         = (if kernel_pml4 s = 0 then 0 else pt_load (memory s) (kernel_pml4 s) i))
    \<and> own_frame {} s s'"
proof -
  have "page_of 0 = 0" by (simp add: page_of_def)
  then show ?thesis using vmm_new_pml4_ok [OF assms] by (simp add: vmm_get_phys_pte)
qed

theorem vmm_new_pml4_fresh_witness:
  "\<exists>s'. vmm_new_pml4 vm_demo = (0x3000, s') \<and> pt_wf 0x3000 s' \<and> own_frame {} vm_demo s'"
proof -
  have "Min (free_frames vm_demo) = 3" unfolding vm_demo_free by (simp add: min_def)
  then have "fst (vmm_new_pml4 vm_demo) = 0x3000"
    using vm_demo_free by (simp add: vmm_new_pml4_def pmm_alloc_first Let_def del: upt_rec_numeral)
  then have eq: "vmm_new_pml4 vm_demo = (0x3000, snd (vmm_new_pml4 vm_demo))" by (simp add: prod_eq_iff)
  have "kernel_pml4 vm_demo = 0x2000" by (simp add: vm_demo_def)
  then show ?thesis
    using eq vmm_new_pml4_fresh [OF vm_demo_inv _ eq] vm_demo_root by (intro exI [of _ "snd (vmm_new_pml4 vm_demo)"]) simp
qed

text \<open>C33. \<open>vmm_map\<close> does not check the result of \<open>get_or_alloc\<close>: with no free frame and no table for
  \<open>virt\<close>, it follows the \<open>NULL\<close> pointer and writes the entry into physical page 0, reporting
  nothing.  (The two tests read page 0 as if it held the missing tables.)\<close>

theorem vmm_map_oom_writes_null:
  assumes "free_frames s = {}" "\<not> present (pt_load (memory s) pml4 (p4_idx virt))"
    and "\<not> present (pt_load (memory s) 0 (p3_idx virt))" "\<not> present (pt_load (memory s) 0 (p2_idx virt))"
  shows "pt_load (memory (vmm_map pml4 virt phys flags s)) 0 (p1_idx virt) = map_entry phys flags
    \<and> (\<forall>a. page_of a \<noteq> 0 \<longrightarrow> memory (vmm_map pml4 virt phys flags s) a = memory s a)"
proof -
  have none: "get_or_alloc t i fl s = (0, s)" if "\<not> present (pt_load (memory s) t i)" for t i fl
    using that assms(1) by (simp add: get_or_alloc_def pmm_alloc_first)
  have z: "page_of 0 = 0" by (simp add: page_of_def)
  note rw = pt_load_store [OF z z idx_less(4) idx_less(4)] pt_store_outside [OF z idx_less(4)]
  show ?thesis unfolding vmm_map_def Let_def none [OF assms(2)] prod.case none [OF assms(3)] none [OF assms(4)]
    using rw by (simp add: map_entry_def or.assoc)
qed

theorem vmm_map_oom_writes_null_witness:
  "pt_load (memory (vmm_map 0x2000 0x400000 0x9000 7 (vm_demo\<lparr>memory := (\<lambda>_. 0)(0x1000 := 255, 0x1001 := 255)\<rparr>))) 0 0
     = 0x9007"
proof -
  let ?s = "vm_demo\<lparr>memory := (\<lambda>_. 0)(0x1000 := 255, 0x1001 := 255)\<rparr>"
  have "free_frames ?s = {}"
    unfolding free_frames_code by (simp add: vm_demo_def bm_test_def upt_rec)
  moreover have "\<not> present (pt_load (memory ?s) t i)" if "t = 0 \<or> t = 0x2000" "i < 512" for t i
  proof -
    have "pt_load (memory ?s) t i = 0" using that by (intro pt_load_zero) (auto simp: page_of_def)
    then show ?thesis by (simp add: present_def)
  qed
  moreover have "p1_idx 0x400000 = 0" by (simp add: p1_idx_def)
  ultimately show ?thesis
    using vmm_map_oom_writes_null [of ?s "0x2000" "0x400000" "0x9000" 7] idx_less
    by (simp add: map_entry_def page_of_def)
qed

end
