(* ===== verification/Sha256.thy ===== *)
theory Sha256
  imports Prelude
begin

text \<open>
  \<open>lib/sha256.c\<close>: the SHA-256 context, its streaming interface, HMAC, and the salted and iterated
  password hash.  C arrays are lists of their length; a C string is the list of its characters
  without the final NUL.  A local \<open>sha256_ctx_t\<close> is uninitialised, so the functions that declare one
  take it as an argument.  The reference is the algorithm of FIPS 180-4, with its message schedule
  and its working variables as functions of the round.
\<close>

section \<open>Compression\<close>

definition ROTRIGHT :: "u32 \<Rightarrow> nat \<Rightarrow> u32" where
  "ROTRIGHT a b = drop_bit b a OR push_bit (32 - b) a"

definition CH :: "u32 \<Rightarrow> u32 \<Rightarrow> u32 \<Rightarrow> u32" where
  "CH x y z = (x AND y) XOR (NOT x AND z)"

definition MAJ :: "u32 \<Rightarrow> u32 \<Rightarrow> u32 \<Rightarrow> u32" where
  "MAJ x y z = (x AND y) XOR (x AND z) XOR (y AND z)"

definition EP0 :: "u32 \<Rightarrow> u32" where
  "EP0 x = ROTRIGHT x 2 XOR ROTRIGHT x 13 XOR ROTRIGHT x 22"

definition EP1 :: "u32 \<Rightarrow> u32" where
  "EP1 x = ROTRIGHT x 6 XOR ROTRIGHT x 11 XOR ROTRIGHT x 25"

definition SIG0 :: "u32 \<Rightarrow> u32" where
  "SIG0 x = ROTRIGHT x 7 XOR ROTRIGHT x 18 XOR drop_bit 3 x"

definition SIG1 :: "u32 \<Rightarrow> u32" where
  "SIG1 x = ROTRIGHT x 17 XOR ROTRIGHT x 19 XOR drop_bit 10 x"

text \<open>The round constants, one row per line of the table in the source.\<close>

definition sha_k :: "u32 list" where
  "sha_k = concat [
    [0x428a2f98,0x71374491,0xb5c0fbcf,0xe9b5dba5,0x3956c25b,0x59f111f1,0x923f82a4,0xab1c5ed5],
    [0xd807aa98,0x12835b01,0x243185be,0x550c7dc3,0x72be5d74,0x80deb1fe,0x9bdc06a7,0xc19bf174],
    [0xe49b69c1,0xefbe4786,0x0fc19dc6,0x240ca1cc,0x2de92c6f,0x4a7484aa,0x5cb0a9dc,0x76f988da],
    [0x983e5152,0xa831c66d,0xb00327c8,0xbf597fc7,0xc6e00bf3,0xd5a79147,0x06ca6351,0x14292967],
    [0x27b70a85,0x2e1b2138,0x4d2c6dfc,0x53380d13,0x650a7354,0x766a0abb,0x81c2c92e,0x92722c85],
    [0xa2bfe8a1,0xa81a664b,0xc24b8b70,0xc76c51a3,0xd192e819,0xd6990624,0xf40e3585,0x106aa070],
    [0x19a4c116,0x1e376c08,0x2748774c,0x34b0bcb5,0x391c0cb3,0x4ed8aa4a,0x5b9cca4f,0x682e6ff3],
    [0x748f82ee,0x78a5636f,0x84c87814,0x8cc70208,0x90befffa,0xa4506ceb,0xbef9a3f7,0xc67178f2]]"

record sha256_ctx =
  cdata :: "u8 list"
  datalen :: u32
  bitlen :: u64
  cstate :: "u32 list"

text \<open>The two loops that fill \<open>m\<close>; \<open>m\<close> grows by one entry per iteration.\<close>

definition sha_load :: "u8 list \<Rightarrow> u32 list" where
  "sha_load d = map (\<lambda>i. push_bit 24 (ucast (d ! (4 * i))) OR push_bit 16 (ucast (d ! (4 * i + 1)))
     OR push_bit 8 (ucast (d ! (4 * i + 2))) OR ucast (d ! (4 * i + 3))) [0..<16]"

definition sha_extend :: "nat \<Rightarrow> u32 list \<Rightarrow> u32 list" where
  "sha_extend i m = m @ [SIG1 (m ! (i - 2)) + m ! (i - 7) + SIG0 (m ! (i - 15)) + m ! (i - 16)]"

definition sha_schedule :: "u8 list \<Rightarrow> u32 list" where
  "sha_schedule d = fold sha_extend [16..<64] (sha_load d)"

text \<open>One iteration of the loop on the eight local variables \<open>a\<close> to \<open>h\<close>.\<close>

fun sha_round :: "u32 list \<Rightarrow> nat \<Rightarrow> u32 list \<Rightarrow> u32 list" where
  "sha_round m i [a, b, c, d, e, f, g, h] =
     (let t1 = h + EP1 e + CH e f g + sha_k ! i + m ! i;
          t2 = EP0 a + MAJ a b c
      in [t1 + t2, a, b, c, d + t1, e, f, g])"
| "sha_round m i v = v"

definition sha256_transform :: "sha256_ctx \<Rightarrow> u8 list \<Rightarrow> sha256_ctx" where
  "sha256_transform ctx d =
     (let m = sha_schedule d;
          v = fold (sha_round m) [0..<64] (cstate ctx)
      in ctx\<lparr>cstate := map2 (+) (cstate ctx) v\<rparr>)"

section \<open>The streaming interface\<close>

definition sha256_init :: "sha256_ctx \<Rightarrow> sha256_ctx" where
  "sha256_init ctx = ctx\<lparr>datalen := 0, bitlen := 0, cstate :=
     [0x6a09e667, 0xbb67ae85, 0x3c6ef372, 0xa54ff53a, 0x510e527f, 0x9b05688c, 0x1f83d9ab, 0x5be0cd19]\<rparr>"

definition sha256_byte :: "u8 \<Rightarrow> sha256_ctx \<Rightarrow> sha256_ctx" where
  "sha256_byte b ctx =
     (let ctx = ctx\<lparr>cdata := (cdata ctx)[unat (datalen ctx) := b], datalen := datalen ctx + 1\<rparr>
      in if datalen ctx = 64 then
           let ctx = sha256_transform ctx (cdata ctx)
           in ctx\<lparr>bitlen := bitlen ctx + 512, datalen := 0\<rparr>
         else ctx)"

definition sha256_update :: "sha256_ctx \<Rightarrow> u8 list \<Rightarrow> sha256_ctx" where
  "sha256_update ctx d = fold sha256_byte d ctx"

text \<open>The loop \<open>while (i < n) data[i++] = 0\<close>, and the eight bytes of the length.\<close>

definition fill_zero :: "nat \<Rightarrow> nat \<Rightarrow> u8 list \<Rightarrow> u8 list" where
  "fill_zero i n d = fold (\<lambda>j d. d[j := 0]) [i..<n] d"

definition put_length :: "u64 \<Rightarrow> u8 list \<Rightarrow> u8 list" where
  "put_length n d = d[63 := ucast n, 62 := ucast (drop_bit 8 n), 61 := ucast (drop_bit 16 n),
     60 := ucast (drop_bit 24 n), 59 := ucast (drop_bit 32 n), 58 := ucast (drop_bit 40 n),
     57 := ucast (drop_bit 48 n), 56 := ucast (drop_bit 56 n)]"

definition hash_bytes :: "u32 list \<Rightarrow> u8 list" where
  "hash_bytes st = concat (map (\<lambda>w. map (\<lambda>i. ucast (drop_bit (24 - i * 8) w AND 0xff)) [0..<4]) st)"

definition sha256_final :: "sha256_ctx \<Rightarrow> u8 list" where
  "sha256_final ctx =
     (let i = unat (datalen ctx);
          d = (cdata ctx)[i := 0x80];
          ctx = (if datalen ctx < 56 then ctx\<lparr>cdata := fill_zero (i + 1) 56 d\<rparr>
                 else let d = fill_zero (i + 1) 64 d;
                          ctx = sha256_transform (ctx\<lparr>cdata := d\<rparr>) d
                      in ctx\<lparr>cdata := fill_zero 0 56 (cdata ctx)\<rparr>);
          ctx = ctx\<lparr>bitlen := bitlen ctx + ucast (datalen ctx * 8)\<rparr>;
          ctx = ctx\<lparr>cdata := put_length (bitlen ctx) (cdata ctx)\<rparr>;
          ctx = sha256_transform ctx (cdata ctx)
      in hash_bytes (cstate ctx))"

definition sha256_hash :: "sha256_ctx \<Rightarrow> u8 list \<Rightarrow> u8 list" where
  "sha256_hash ctx d = sha256_final (sha256_update (sha256_init ctx) d)"

definition sha256_hmac :: "sha256_ctx \<Rightarrow> u8 list \<Rightarrow> u8 list \<Rightarrow> u8 list" where
  "sha256_hmac ctx key d =
     (let k = replicate 64 0;
          k = (if 64 < length key then sha256_hash ctx key @ drop 32 k else key @ drop (length key) k);
          k_ipad = map (\<lambda>b. b XOR 0x36) k;
          k_opad = map (\<lambda>b. b XOR 0x5c) k;
          ctx1 = sha256_update (sha256_update (sha256_init ctx) k_ipad) d;
          inner = sha256_final ctx1
      in sha256_final (sha256_update (sha256_update (sha256_init ctx) k_opad) inner))"

section \<open>Password hashes\<close>

definition hex_digit :: "u8 \<Rightarrow> u8" where
  "hex_digit n = map (of_char) ''0123456789abcdef'' ! unat n"

definition sha256_to_hex :: "u8 list \<Rightarrow> u8 list" where
  "sha256_to_hex h = concat (map (\<lambda>b. [hex_digit (drop_bit 4 b AND 0xF), hex_digit (b AND 0xF)]) h)"

definition salt :: "u8 list" where
  "salt = map of_char ''Sinux_v1_salt_2026''"

definition sha256_make_hash :: "sha256_ctx \<Rightarrow> u8 list \<Rightarrow> u8 list" where
  "sha256_make_hash ctx password =
     (let hash = sha256_final (sha256_update (sha256_update (sha256_init ctx) salt) password);
          hash = fold (\<lambda>round hash.
            sha256_final (sha256_update (sha256_update (sha256_init ctx) hash) password)) [0..<4096] hash
      in sha256_to_hex hash)"

definition sha256_verify :: "sha256_ctx \<Rightarrow> u8 list \<Rightarrow> u8 list \<Rightarrow> bool" where
  "sha256_verify ctx password hash_hex \<longleftrightarrow> sha256_make_hash ctx password = hash_hex"

section \<open>The algorithm of FIPS 180-4\<close>

definition fips_word :: "u8 list \<Rightarrow> u32" where
  "fips_word bs = foldl (\<lambda>w b. push_bit 8 w OR ucast b) 0 bs"

function fips_W :: "u8 list \<Rightarrow> nat \<Rightarrow> u32" where
  "fips_W M t =
     (if t < 16 then fips_word (take 4 (drop (4 * t) M))
      else (word_rotr 17 (fips_W M (t - 2)) XOR word_rotr 19 (fips_W M (t - 2)) XOR drop_bit 10 (fips_W M (t - 2)))
         + fips_W M (t - 7)
         + (word_rotr 7 (fips_W M (t - 15)) XOR word_rotr 18 (fips_W M (t - 15)) XOR drop_bit 3 (fips_W M (t - 15)))
         + fips_W M (t - 16))"
  by pat_completeness auto
termination by (relation "measure snd") auto

declare fips_W.simps [simp del]

text \<open>The working variables after \<open>t\<close> rounds, as a vector \<open>a, ..., h\<close>.\<close>

primrec fips_vars :: "u8 list \<Rightarrow> u32 list \<Rightarrow> nat \<Rightarrow> u32 list" where
  "fips_vars M H 0 = H"
| "fips_vars M H (Suc t) =
     (let v = fips_vars M H t; a = v ! 0; e = v ! 4;
          T1 = v ! 7 + (word_rotr 6 e XOR word_rotr 11 e XOR word_rotr 25 e)
             + ((e AND v ! 5) XOR (NOT e AND v ! 6)) + sha_k ! t + fips_W M t;
          T2 = (word_rotr 2 a XOR word_rotr 13 a XOR word_rotr 22 a)
             + ((a AND v ! 1) XOR (a AND v ! 2) XOR (v ! 1 AND v ! 2))
      in [T1 + T2, a, v ! 1, v ! 2, v ! 3 + T1, e, v ! 5, v ! 6])"

definition fips_compress :: "u32 list \<Rightarrow> u8 list \<Rightarrow> u32 list" where
  "fips_compress H M = map (\<lambda>i. H ! i + fips_vars M H 64 ! i) [0..<8]"

definition fips_pad :: "u8 list \<Rightarrow> u8 list" where
  "fips_pad M = M @ [0x80] @ replicate ((119 - length M mod 64) mod 64) 0
     @ map (\<lambda>i. of_nat (8 * length M div 2 ^ (8 * (7 - i)))) [0..<8]"

function blocks :: "u8 list \<Rightarrow> u8 list list" where
  "blocks xs = (if xs = [] then [] else take 64 xs # blocks (drop 64 xs))"
  by pat_completeness auto
termination by (relation "measure length") auto

declare blocks.simps [simp del]

definition fips_H0 :: "u32 list" where
  "fips_H0 = [0x6a09e667, 0xbb67ae85, 0x3c6ef372, 0xa54ff53a, 0x510e527f, 0x9b05688c, 0x1f83d9ab, 0x5be0cd19]"

definition fips_sha256 :: "u8 list \<Rightarrow> u8 list" where
  "fips_sha256 M = concat (map (\<lambda>w. map (\<lambda>i. of_nat (unat w div 2 ^ (8 * (3 - i)))) [0..<4])
     (foldl fips_compress fips_H0 (blocks (fips_pad M))))"

section \<open>The code computes it\<close>

lemma ROTRIGHT_rotr: "0 < n \<Longrightarrow> n < 32 \<Longrightarrow> ROTRIGHT x n = word_rotr n x"
  by (rule bit_word_eqI) (auto simp: ROTRIGHT_def bit_simps mod_if le_mod_geq add.commute [of n] dest: bit_imp_le_length)

lemma sha_funs:
  "SIG0 x = word_rotr 7 x XOR word_rotr 18 x XOR drop_bit 3 x"
  "SIG1 x = word_rotr 17 x XOR word_rotr 19 x XOR drop_bit 10 x"
  "EP0 x = word_rotr 2 x XOR word_rotr 13 x XOR word_rotr 22 x"
  "EP1 x = word_rotr 6 x XOR word_rotr 11 x XOR word_rotr 25 x"
  by (simp_all add: SIG0_def SIG1_def EP0_def EP1_def ROTRIGHT_rotr)

lemma sha_load_fips:
  assumes "length d = 64" "i < 16"
  shows "sha_load d ! i = fips_W d i"
proof -
  have "take 4 (drop (4 * i) d) = [d ! (4 * i), d ! (4 * i + 1), d ! (4 * i + 2), d ! (4 * i + 3)]"
    using assms by (intro nth_equalityI) (auto simp: less_Suc_eq numeral_eq_Suc)
  then show ?thesis using assms
    by (subst fips_W.simps) (auto simp: sha_load_def fips_word_def bit_eq_iff bit_simps)
qed

lemma sha_schedule_prefix:
  assumes "length d = 64" "16 \<le> n"
  shows "fold sha_extend [16..<n] (sha_load d) = map (fips_W d) [0..<n]"
  using assms(2)
proof (induction n rule: nat_induct_at_least)
  case base
  show ?case using sha_load_fips [OF assms(1)] by (intro nth_equalityI) (simp_all add: sha_load_def)
next
  case (Suc n)
  then show ?case by (simp add: sha_extend_def fips_W.simps [of d n] sha_funs)
qed

lemma length_8: "length v = 8 \<longleftrightarrow> (\<exists>a b c d e f g h. v = [a, b, c, d, e, f, g, h])"
  by (auto simp: numeral_eq_Suc length_Suc_conv)

lemma fips_vars_length: "length H = 8 \<Longrightarrow> length (fips_vars M H t) = 8"
  by (induction t) (simp_all add: Let_def)

lemma sha_rounds:
  assumes "length H = 8" "t \<le> 64" "m = map (fips_W M) [0..<64]"
  shows "fold (sha_round m) [0..<t] H = fips_vars M H t"
  using assms(2)
proof (induction t)
  case (Suc t)
  obtain a b c d e f g h where v: "fips_vars M H t = [a, b, c, d, e, f, g, h]"
    using fips_vars_length [OF assms(1)] unfolding length_8 by blast
  have "m ! t = fips_W M t" using Suc.prems assms(3) by simp
  with Suc v show ?case by (simp add: Let_def sha_funs CH_def MAJ_def)
qed simp

lemma sha256_transform_fips:
  assumes "length (cstate ctx) = 8" "length d = 64"
  shows "sha256_transform ctx d = ctx\<lparr>cstate := fips_compress (cstate ctx) d\<rparr>"
proof -
  have "sha_schedule d = map (fips_W d) [0..<64]"
    unfolding sha_schedule_def by (rule sha_schedule_prefix [OF assms(2)]) simp
  note rounds = sha_rounds [OF assms(1) order_refl this]
  have "map2 (+) (cstate ctx) (fips_vars d (cstate ctx) 64) = fips_compress (cstate ctx) d"
    using assms(1) fips_vars_length [OF assms(1)]
    by (intro nth_equalityI) (simp_all add: fips_compress_def)
  then show ?thesis unfolding sha256_transform_def Let_def rounds by simp
qed

section \<open>Absorbing the input\<close>

lemma blocks_append:
  assumes "64 dvd length xs"
  shows "blocks (xs @ ys) = blocks xs @ blocks ys"
  using assms
proof (induction xs rule: blocks.induct)
  case (1 xs)
  show ?case
  proof (cases "xs = []")
    case False
    then have "64 \<le> length xs" using "1.prems" by (simp add: dvd_imp_le)
    moreover from this have "64 dvd length (drop 64 xs)" using "1.prems" by (simp add: dvd_diff_nat)
    ultimately show ?thesis using "1.IH" [OF False] False by (simp add: blocks.simps [of "xs @ ys"] blocks.simps [of xs])
  qed (simp add: blocks.simps [of "[]"])
qed

lemma blocks_one: "length xs = 64 \<Longrightarrow> blocks xs = [xs]"
  by (subst blocks.simps) (auto simp: blocks.simps [of "[]"])

definition whole :: "u8 list \<Rightarrow> nat" where
  "whole d = 64 * (length d div 64)"

definition sha_inv :: "u8 list \<Rightarrow> sha256_ctx \<Rightarrow> bool" where
  "sha_inv d ctx \<longleftrightarrow> length (cdata ctx) = 64 \<and> unat (datalen ctx) = length d mod 64
     \<and> bitlen ctx = of_nat (8 * whole d) \<and> length (cstate ctx) = 8
     \<and> cstate ctx = foldl fips_compress fips_H0 (blocks (take (whole d) d))
     \<and> take (length d mod 64) (cdata ctx) = drop (whole d) d"

lemma fips_compress_length [simp]: "length (fips_compress H M) = 8"
  by (simp add: fips_compress_def)

lemma sha_inv_init: "length (cdata ctx) = 64 \<Longrightarrow> sha_inv [] (sha256_init ctx)"
  by (simp add: sha_inv_def sha256_init_def whole_def fips_H0_def blocks.simps)

lemma sha_inv_byte:
  assumes "sha_inv d ctx"
  shows "sha_inv (d @ [b]) (sha256_byte b ctx)"
proof -
  let ?r = "length d mod 64"
  have len: "length (cdata ctx) = 64" "length (cstate ctx) = 8" "unat (datalen ctx) = ?r"
    and rest: "take ?r (cdata ctx) = drop (whole d) d" and bits: "bitlen ctx = of_nat (8 * whole d)"
    and st: "cstate ctx = foldl fips_compress fips_H0 (blocks (take (whole d) d))"
    using assms unfolding sha_inv_def by blast+
  have dl: "unat (datalen ctx + 1) = ?r + 1"
  proof -
    have "unat (datalen ctx) + 1 < 2 ^ 32" using len(3) by (simp add: less_trans [of _ 64])
    then show ?thesis using len(3) by (simp add: unat_add_lem [THEN iffD1])
  qed
  let ?d = "(cdata ctx)[?r := b]"
  have tk: "take (?r + 1) ?d = drop (whole d) d @ [b]"
    using rest len(1) by (simp add: take_Suc_conv_app_nth)
  have le: "whole d \<le> length d" by (simp add: whole_def)
  show ?thesis
  proof (cases "?r = 63")
    case False
    moreover have "?r < 64" by simp
    ultimately have "?r < 63" by linarith
    then have "length (d @ [b]) mod 64 = ?r + 1" "whole (d @ [b]) = whole d"
      by (simp_all add: whole_def mod_Suc div_Suc)
    moreover have "datalen ctx + 1 \<noteq> 64" using dl False by (auto simp: word_unat_eq_iff)
    ultimately show ?thesis
      using assms len dl tk le unfolding sha_inv_def by (simp add: sha256_byte_def Let_def)
  next
    case True
    then have l: "length d = 64 * (length d div 64) + 63" using mult_div_mod_eq [of 64 "length d"] by simp
    then have n: "length (d @ [b]) = 64 * (length d div 64 + 1)" by simp
    have q: "length (d @ [b]) mod 64 = 0" "whole (d @ [b]) = length (d @ [b])" "whole d + 63 = length d"
      unfolding whole_def n using l by simp_all
    have "datalen ctx + 1 = 64" using dl True by (simp add: word_unat_eq_iff)
    then have byte: "sha256_byte b ctx = (sha256_transform (ctx\<lparr>cdata := ?d, datalen := 64\<rparr>) ?d)
       \<lparr>bitlen := bitlen ctx + 512, datalen := 0\<rparr>"
      using len by (simp add: sha256_byte_def Let_def sha256_transform_def)
    have blk: "?d = drop (whole d) d @ [b]" using tk True len(1) by simp
    have "d @ [b] = take (whole d) d @ ?d" unfolding blk by simp
    then have "blocks (d @ [b]) = blocks (take (whole d) d) @ [?d]"
      using le len(1) by (metis blocks_append blocks_one dvd_triv_left length_list_update length_take min.absorb2 whole_def)
    then have eq: "foldl fips_compress fips_H0 (blocks (d @ [b])) = fips_compress (cstate ctx) ?d"
      by (simp add: st)
    have "bitlen ctx + 512 = of_nat (8 * (whole d + 64))" unfolding bits by simp
    moreover have "length (d @ [b]) = whole d + 64" using q(3) by simp
    ultimately have "bitlen ctx + 512 = of_nat (8 * length (d @ [b]))" by metis
    note eqs = this eq
    have "sha256_byte b ctx = ctx\<lparr>cdata := ?d, cstate := fips_compress (cstate ctx) ?d,
      bitlen := bitlen ctx + 512, datalen := 0\<rparr>"
      unfolding byte using len by (simp add: sha256_transform_fips)
    with eqs show ?thesis unfolding sha_inv_def q(1,2) using len(1) by simp
  qed
qed

lemma sha_inv_update: "sha_inv d ctx \<Longrightarrow> sha_inv (d @ e) (sha256_update ctx e)"
proof (induction e arbitrary: d ctx)
  case (Cons b e)
  from Cons.IH [OF sha_inv_byte [OF Cons.prems], of b] show ?case by (simp add: sha256_update_def)
qed (simp add: sha256_update_def)

section \<open>Padding\<close>

lemma fill_zero_append:
  assumes "i \<le> n" "n \<le> length d"
  shows "fill_zero i n d = take i d @ replicate (n - i) 0 @ drop n d"
  using assms
proof (induction n rule: nat_induct_at_least)
  case (Suc n)
  then have "fill_zero i (Suc n) d = (take i d @ replicate (n - i) 0 @ drop n d)[n := 0]"
    by (simp add: fill_zero_def)
  also have "\<dots> = take i d @ replicate (n - i) 0 @ (drop n d)[0 := 0]"
    using Suc by (simp add: list_update_append)
  also have "drop n d = d ! n # drop (Suc n) d" using Suc.prems by (simp add: Cons_nth_drop_Suc)
  finally show ?case using Suc.hyps by (simp add: Suc_diff_le replicate_app_Cons_same)
qed (simp add: fill_zero_def)

definition fips_len :: "nat \<Rightarrow> u8 list" where
  "fips_len n = map (\<lambda>i. of_nat (n div 2 ^ (8 * (7 - i)))) [0..<8]"

lemma length_byte:
  assumes "k + 8 \<le> 64"
  shows "ucast (drop_bit k (of_nat n :: u64)) = (of_nat (n div 2 ^ k) :: u8)"
  using assms by (intro bit_word_eqI) (auto simp: drop_bit_eq_div [symmetric] bit_simps)

lemma put_length_append:
  assumes "length d = 64"
  shows "put_length (of_nat n) d = take 56 d @ fips_len n"
proof -
  have "length (drop 56 d) = 8" using assms by simp
  then obtain a b c e f g h i where t: "drop 56 d = [a, b, c, e, f, g, h, i]" unfolding length_8 by blast
  have l: "length (take 56 d) = 56" using assms by simp
  have d: "d = take 56 d @ [a, b, c, e, f, g, h, i]" by (metis append_take_drop_id t)
  have *: "put_length (of_nat n) (xs @ [a, b, c, e, f, g, h, i]) = xs @ fips_len n" if "length xs = 56" for xs
    using that length_byte [of 0 n] by (simp add: put_length_def fips_len_def list_update_append length_byte upt_rec)
  show ?thesis by (subst d) (rule * [OF l])
qed

lemma hash_bytes_fips:
  "hash_bytes st = concat (map (\<lambda>w. map (\<lambda>i. of_nat (unat w div 2 ^ (8 * (3 - i)))) [0..<4]) st)"
proof -
  have "ucast (drop_bit k w AND 0xff) = (of_nat (unat w div 2 ^ k) :: u8)" for k and w :: u32
  proof -
    have eq: "(0xff :: u32) = mask 8" by (simp add: mask_eq_exp_minus_1)
    show ?thesis unfolding eq
      by (rule bit_word_eqI) (auto simp: drop_bit_eq_div [symmetric] bit_simps)
  qed
  then show ?thesis unfolding hash_bytes_def by (simp add: upt_rec)
qed

lemma sha_final_state:
  assumes inv: "sha_inv d ctx"
  shows "sha256_final ctx = fips_sha256 d"
proof -
  define r where "r = length d mod 64"
  define rest where "rest = drop (whole d) d"
  define N where "N = 8 * length d"
  have r: "r < 64" by (simp add: r_def)
  have len: "length (cdata ctx) = 64" "length (cstate ctx) = 8" "unat (datalen ctx) = r"
    and tk: "take r (cdata ctx) = rest" and bits: "bitlen ctx = of_nat (8 * whole d)"
    and st: "cstate ctx = foldl fips_compress fips_H0 (blocks (take (whole d) d))"
    using inv unfolding sha_inv_def r_def rest_def by blast+
  have wr: "whole d + r = length d" by (simp add: whole_def r_def)
  have lr: "length rest = r" using wr by (simp add: rest_def)
  have bl: "bitlen ctx + ucast (datalen ctx * 8) = of_nat N"
  proof -
    have "unat (datalen ctx * 8) = 8 * r" using len(3) r by (simp add: unat_mult_lem [THEN iffD1])
    then have "unat (ucast (datalen ctx * 8) :: u64) = 8 * r" by (simp only: unat_ucast_32_64)
    then have "(ucast (datalen ctx * 8) :: u64) = of_nat (8 * r)" using r
      unfolding word_unat_eq_iff unat_of_nat by simp
    then show ?thesis using wr unfolding bits N_def by (metis of_nat_add distrib_left)
  qed
  let ?d = "(cdata ctx)[r := 0x80]"
  have tk1: "take (r + 1) ?d = rest @ [0x80]" using tk len(1) r by (simp add: take_Suc_conv_app_nth)
  have pre: "64 dvd length (take (whole d) d)" using wr by (simp add: whole_def)
  have out: "fips_sha256 d = hash_bytes (foldl fips_compress (cstate ctx) (blocks tail))"
    if "fips_pad d = take (whole d) d @ tail" for tail
    unfolding fips_sha256_def hash_bytes_fips that blocks_append [OF pre] by (simp add: st)
  have pad: "fips_pad d = take (whole d) d @ rest @ [0x80] @ replicate ((119 - r) mod 64) 0 @ fips_len N"
    unfolding fips_pad_def fips_len_def r_def [symmetric] rest_def N_def [symmetric] by simp
  show ?thesis
  proof (cases "r < 56")
    case True
    let ?b = "rest @ [0x80] @ replicate (55 - r) 0 @ fips_len N"
    have "(119 - r) mod 64 = 55 - r" using True by (simp add: mod_if)
    then have p: "fips_pad d = take (whole d) d @ ?b" using pad by simp
    have lb: "length ?b = 64" using True lr by (simp add: fips_len_def)
    have "fill_zero (r + 1) 56 ?d = rest @ [0x80] @ replicate (55 - r) 0 @ drop 56 ?d"
      using True len(1) by (simp add: fill_zero_append tk1 [simplified])
    then have "put_length (of_nat N) (fill_zero (r + 1) 56 ?d) = ?b"
      using True lr len(1) by (simp add: put_length_append take_Cons')
    moreover have "datalen ctx < 56" using True len(3) by (simp add: word_less_nat_alt)
    ultimately show ?thesis
      unfolding out [OF p] blocks_one [OF lb] sha256_final_def Let_def using len bl lb
      by (simp add: sha256_transform_fips)
  next
    case False
    let ?b1 = "rest @ [0x80] @ replicate (63 - r) 0"
    let ?b2 = "replicate 56 0 @ fips_len N"
    have z: "(119 - r) mod 64 = (63 - r) + 56" using False r by (simp add: mod_if)
    have p: "fips_pad d = take (whole d) d @ ?b1 @ ?b2" unfolding pad z replicate_add by simp
    have lb: "length ?b1 = 64" "length ?b2 = 64" using False r lr by (simp_all add: fips_len_def)
    have f1: "fill_zero (r + 1) 64 ?d = ?b1"
      using r len(1) by (simp add: fill_zero_append tk1 [simplified])
    have f2: "put_length (of_nat N) (fill_zero 0 56 ?b1) = ?b2"
      using lb(1) by (simp add: put_length_append fill_zero_append)
    have bb: "blocks (?b1 @ ?b2) = [?b1, ?b2]"
      using blocks_append [of ?b1 ?b2] blocks_one [OF lb(1)] blocks_one [OF lb(2)] lb(1) by simp
    have "\<not> datalen ctx < 56" using False len(3) by (simp add: word_less_nat_alt)
    then show ?thesis
      unfolding out [OF p] bb sha256_final_def Let_def len(3) f1 using len bl lb f2
      by (simp add: sha256_transform_fips)
  qed
qed

section \<open>Properties\<close>

lemma sha256_stream:
  assumes "length (cdata ctx) = 64"
  shows "sha256_final (sha256_update (sha256_init ctx) d) = fips_sha256 d"
    "sha256_final (sha256_update (sha256_update (sha256_init ctx) d) e) = fips_sha256 (d @ e)"
  using sha_final_state sha_inv_update [OF sha_inv_init [OF assms]] sha_inv_update by fastforce+

text \<open>Decoding a hexadecimal digest.\<close>

definition hex_val :: "u8 \<Rightarrow> u8" where
  "hex_val c = (if c \<le> 0x39 then c - 0x30 else c - 0x61 + 10)"

fun hex_decode :: "u8 list \<Rightarrow> u8 list" where
  "hex_decode (a # b # cs) = (push_bit 4 (hex_val a) OR hex_val b) # hex_decode cs"
| "hex_decode cs = []"

lemma hex_digit_all:
  "list_all (\<lambda>n. hex_val (hex_digit n) = n \<and> hex_digit n \<in> set (map of_char ''0123456789abcdef'')) (map of_nat [0..<16])"
  by code_simp

lemma hex_digit_val:
  assumes "unat n < 16"
  shows "hex_val (hex_digit n) = n" "hex_digit n \<in> set (map of_char ''0123456789abcdef'')"
proof -
  have "n = of_nat (unat n)" by simp
  then have "n \<in> set (map of_nat [0..<16])" using assms unfolding set_map set_upt by (intro image_eqI) auto
  then show "hex_val (hex_digit n) = n" "hex_digit n \<in> set (map of_char ''0123456789abcdef'')"
    using hex_digit_all unfolding list_all_iff by blast+
qed

lemma nibbles: "unat (drop_bit 4 b AND 0xF) < 16" "unat (b AND 0xF) < 16"
  "push_bit 4 (drop_bit 4 b AND 0xF) OR (b AND 0xF) = b" for b :: u8
proof -
  have eq: "(0xF :: u8) = mask 4" by (simp add: mask_eq_exp_minus_1)
  have "unat (x AND 0xF) < 16" for x :: u8
    using word_and_le1 [of x "0xF"] by (simp add: word_le_nat_alt)
  then show "unat (drop_bit 4 b AND 0xF) < 16" "unat (b AND 0xF) < 16" by auto
  show "push_bit 4 (drop_bit 4 b AND 0xF) OR (b AND 0xF) = b"
    unfolding eq by (rule bit_word_eqI) (auto simp: bit_simps)
qed

text \<open>C10. \<open>sha256_hash\<close> computes SHA-256 as FIPS 180-4 defines it, for every input and whatever the
  uninitialised context on the stack holds: the byte-at-a-time buffering, the in-place padding with
  its one- and two-block cases, and the rolled message schedule agree with padding the whole message
  and folding the compression function over its 64-byte blocks.\<close>

theorem sha256_hash_fips:
  assumes "length (cdata ctx) = 64"
  shows "sha256_hash ctx d = fips_sha256 d"
  unfolding sha256_hash_def by (rule sha256_stream(1) [OF assms])

definition sha_demo :: sha256_ctx where
  "sha_demo = \<lparr>cdata = replicate 64 0, datalen = 0, bitlen = 0, cstate = []\<rparr>"

theorem sha256_hash_fips_witness:
  "sha256_hash sha_demo [0x61, 0x62, 0x63] = fips_sha256 [0x61, 0x62, 0x63]
    \<and> fips_pad [0x61, 0x62, 0x63] = [0x61, 0x62, 0x63, 0x80] @ replicate 59 0 @ [24]"
proof
  show "sha256_hash sha_demo [0x61, 0x62, 0x63] = fips_sha256 [0x61, 0x62, 0x63]"
    by (rule sha256_hash_fips) (simp add: sha_demo_def)
  have "replicate 59 (0 :: u8) = replicate 52 0 @ replicate 7 0" by (simp flip: replicate_add)
  then show "fips_pad [0x61, 0x62, 0x63] = [0x61, 0x62, 0x63, 0x80] @ replicate 59 0 @ [24]"
    by (simp add: fips_pad_def upt_rec) (simp add: numeral_eq_Suc)
qed

definition rfc2104 :: "(u8 list \<Rightarrow> u8 list) \<Rightarrow> u8 list \<Rightarrow> u8 list \<Rightarrow> u8 list" where
  "rfc2104 H key msg =
     (let key = (if 64 < length key then H key else key);
          K = key @ replicate (64 - length key) 0
      in H (map (\<lambda>b. b XOR 0x5c) K @ H (map (\<lambda>b. b XOR 0x36) K @ msg)))"

lemma fips_sha256_length: "length (fips_sha256 M) = 32"
proof -
  have "length (foldl fips_compress H bs) = 8" if "length H = 8" for H bs
    using that by (induction bs arbitrary: H) simp_all
  then have "length (foldl fips_compress fips_H0 (blocks (fips_pad M))) = 8" by (simp add: fips_H0_def)
  then show ?thesis unfolding fips_sha256_def length_8 by (elim exE) simp
qed

text \<open>C32. \<open>sha256_hmac\<close> is HMAC-SHA-256 of RFC 2104: keys longer than a block are hashed, shorter ones
  padded with zeros, and the two keyed passes run over the same context without carrying anything
  over.\<close>

theorem sha256_hmac_rfc2104:
  assumes "length (cdata ctx) = 64"
  shows "sha256_hmac ctx key d = rfc2104 fips_sha256 key d"
  using sha256_stream [OF assms] fips_sha256_length
  by (simp add: sha256_hmac_def rfc2104_def sha256_hash_def Let_def)

theorem sha256_hmac_rfc2104_witness: "sha256_hmac sha_demo [1, 2] [3] = rfc2104 fips_sha256 [1, 2] [3]"
  by (rule sha256_hmac_rfc2104) (simp add: sha_demo_def)

text \<open>\<open>sha256_to_hex\<close> loses nothing: the digest can be read back from the hexadecimal string, so
  two digests with the same string are equal.  The string has two characters per byte, all of them
  lower-case hexadecimal digits (in particular no NUL, no \<open>:\<close> and no newline, which \<open>/etc/passwd\<close>
  relies on).\<close>

theorem sha256_to_hex_roundtrip:
  "hex_decode (sha256_to_hex h) = h \<and> length (sha256_to_hex h) = 2 * length h
    \<and> set (sha256_to_hex h) \<subseteq> set (map of_char ''0123456789abcdef'')"
proof (induction h)
  case (Cons b h)
  have hex: "sha256_to_hex (b # h) = hex_digit (drop_bit 4 b AND 0xF) # hex_digit (b AND 0xF) # sha256_to_hex h"
    by (simp add: sha256_to_hex_def)
  have "hex_decode (sha256_to_hex (b # h)) = b # h"
    unfolding hex hex_decode.simps hex_digit_val(1) [OF nibbles(1)] hex_digit_val(1) [OF nibbles(2)] nibbles(3)
    using Cons by simp
  then show ?case
    using Cons hex_digit_val(2) [OF nibbles(1), of b] hex_digit_val(2) [OF nibbles(2), of b] unfolding hex by simp
qed (simp add: sha256_to_hex_def)

end
