(* ===== verification/Process.thy ===== *)
theory Process
  imports Vmm
begin

text \<open>
  Processes and their switching: \<open>kernel/proc/process.c\<close>, \<open>kernel/proc/scheduler.c\<close>,
  \<open>kernel/ipc/signal.c\<close>, the context switch \<open>arch_switch\<close> of \<open>arch/x86_64/boot.asm\<close>, the tick counter
  of \<open>pit.c\<close> and \<open>gdt_set_kernel_stack\<close> of \<open>gdt.c\<close>.  A \<open>process_t *\<close> is an index into the process
  table, \<open>NULL\<close> is \<open>None\<close>; C's \<open>int\<close> is \<open>int\<close> (its overflow is undefined in C and does not occur in
  the modelled ranges).  The text that \<open>printk\<close> shows is not part of the state.
\<close>

section \<open>Data\<close>

datatype proc_state_t = PROC_UNUSED | PROC_RUNNING | PROC_READY | PROC_SLEEPING | PROC_ZOMBIE | PROC_WAITING

record sigaction =
  sa_handler :: u64
  sa_mask :: u64
  sa_flags :: int

record fd_entry =
  fd_file :: u64
  fd_flags :: int

record process =
  pid :: int
  ppid :: int
  pstate :: proc_state_t
  exit_code :: int
  rsp :: u64
  pml4 :: u64
  kstack :: u64
  wake_ticks :: u64
  timeslice :: int
  priority :: int
  nice :: int
  sleep_avg :: u64
  affinity :: u64
  cpu :: int
  fds :: "fd_entry list"
  cwd :: "u8 list"
  sig_pending :: u64
  sig_blocked :: u64
  sig_actions :: "sigaction list"
  brk :: u64
  brk_start :: u64

abbreviation MAX_PROCS :: nat where "MAX_PROCS \<equiv> 256"
abbreviation MAX_FDS :: nat where "MAX_FDS \<equiv> 64"
abbreviation KSTACK_SIZE :: u64 where "KSTACK_SIZE \<equiv> 8192"
abbreviation NSIG :: nat where "NSIG \<equiv> 32"
abbreviation SCHED_QUEUE_SIZE :: nat where "SCHED_QUEUE_SIZE \<equiv> 256"
abbreviation SIG_DFL :: u64 where "SIG_DFL \<equiv> 0"
abbreviation SIG_IGN :: u64 where "SIG_IGN \<equiv> 1"

definition zero_process :: process where
  "zero_process = \<lparr>pid = 0, ppid = 0, pstate = PROC_UNUSED, exit_code = 0, rsp = 0, pml4 = 0, kstack = 0,
     wake_ticks = 0, timeslice = 0, priority = 0, nice = 0, sleep_avg = 0, affinity = 0, cpu = 0,
     fds = replicate MAX_FDS \<lparr>fd_file = 0, fd_flags = 0\<rparr>, cwd = [],
     sig_pending = 0, sig_blocked = 0,
     sig_actions = replicate NSIG \<lparr>sa_handler = 0, sa_mask = 0, sa_flags = 0\<rparr>, brk = 0, brk_start = 0\<rparr>"

text \<open>The registers that \<open>arch_switch\<close> saves and restores.\<close>

record regs =
  r_rsp :: u64
  r_rbx :: u64
  r_rbp :: u64
  r_r12 :: u64
  r_r13 :: u64
  r_r14 :: u64
  r_r15 :: u64
  r_rflags :: u64
  r_rip :: u64

record proc_state = vmm_state +
  proc_table :: "process list"
  current_proc :: "nat option"
  next_pid :: int
  queue :: "nat option list"
  q_head :: nat
  q_tail :: nat
  q_count :: int
  pit_count :: u64
  tss_rsp0 :: u64
  regs :: regs

abbreviation proc_of :: "'a proc_state_scheme \<Rightarrow> nat \<Rightarrow> process" where
  "proc_of s i \<equiv> proc_table s ! i"

definition upd_proc :: "nat \<Rightarrow> (process \<Rightarrow> process) \<Rightarrow> 'a proc_state_scheme \<Rightarrow> 'a proc_state_scheme" where
  "upd_proc i f s = s\<lparr>proc_table := (proc_table s)[i := f (proc_table s ! i)]\<rparr>"

section \<open>The process table\<close>

definition root_dir :: "u8 list" where
  "root_dir = map of_char ''/''"

definition proc_create :: "'a proc_state_scheme \<Rightarrow> nat option \<times> 'a proc_state_scheme" where
  "proc_create s =
     (case find (\<lambda>i. pstate (proc_of s i) = PROC_UNUSED) [1..<MAX_PROCS] of
        None \<Rightarrow> (None, s)
      | Some i \<Rightarrow>
          let s = upd_proc i (\<lambda>_. zero_process) s;
              parent = (case current_proc s of None \<Rightarrow> 0 | Some c \<Rightarrow> pid (proc_of s c));
              s = (upd_proc i (\<lambda>p. p\<lparr>pid := next_pid s, ppid := parent, pstate := PROC_READY, timeslice := 5\<rparr>) s)
                    \<lparr>next_pid := next_pid s + 1\<rparr>;
              (k, s) = pmm_alloc s;
              s = upd_proc i (\<lambda>p. p\<lparr>kstack := k\<rparr>) s in
          if k = 0 then (None, s) else
          let s = s\<lparr>memory := kmemset (memory s) k 0 PAGE_SIZE\<rparr>;
              s = upd_proc i (\<lambda>p. p\<lparr>rsp := k + KSTACK_SIZE\<rparr>) s;
              (r, s) = vmm_new_pml4 s;
              s = upd_proc i (\<lambda>p. p\<lparr>pml4 := r\<rparr>) s in
          if r = 0 then (None, pmm_free k s) else
          let dir = (case current_proc s of None \<Rightarrow> root_dir | Some c \<Rightarrow> cwd (proc_of s c));
              s = upd_proc i (\<lambda>p. p\<lparr>cwd := dir,
                    fds := fold (\<lambda>j f. f[j := (f ! j)\<lparr>fd_file := 0\<rparr>]) [0..<3] (fds p)\<rparr>) s
          in (Some i, s))"

definition proc_free_fd :: "nat \<Rightarrow> int \<Rightarrow> 'a proc_state_scheme \<Rightarrow> 'a proc_state_scheme" where
  "proc_free_fd i fd s =
     (if 0 \<le> fd \<and> fd < int MAX_FDS
      then upd_proc i (\<lambda>p. p\<lparr>fds := (fds p)[nat fd := \<lparr>fd_file = 0, fd_flags = 0\<rparr>]\<rparr>) s else s)"

definition proc_alloc_fd :: "nat \<Rightarrow> u64 \<Rightarrow> 'a proc_state_scheme \<Rightarrow> int \<times> 'a proc_state_scheme" where
  "proc_alloc_fd i f s =
     (case find (\<lambda>j. fd_file (fds (proc_of s i) ! j) = 0) [0..<MAX_FDS] of
        None \<Rightarrow> (-1, s)
      | Some j \<Rightarrow> (int j, upd_proc i (\<lambda>p. p\<lparr>fds := (fds p)[j := \<lparr>fd_file = f, fd_flags = 0\<rparr>]\<rparr>) s))"

definition proc_exit :: "nat \<Rightarrow> int \<Rightarrow> 'a proc_state_scheme \<Rightarrow> 'a proc_state_scheme" where
  "proc_exit i code s =
     (let s = upd_proc i (\<lambda>p. p\<lparr>exit_code := code, pstate := PROC_ZOMBIE\<rparr>) s;
          s = fold (\<lambda>j s. if fd_file (fds (proc_of s i) ! j) \<noteq> 0 then proc_free_fd i (int j) s else s) [0..<MAX_FDS] s;
          r = pml4 (proc_of s i)
      in if r \<noteq> 0 \<and> r \<noteq> vmm_kernel_pml4 s
         then upd_proc i (\<lambda>p. p\<lparr>pml4 := 0\<rparr>) (vmm_destroy_pml4 r s) else s)"

definition proc_find :: "int \<Rightarrow> 'a proc_state_scheme \<Rightarrow> nat option" where
  "proc_find n s = find (\<lambda>i. pid (proc_of s i) = n \<and> pstate (proc_of s i) \<noteq> PROC_UNUSED) [0..<MAX_PROCS]"

definition proc_set_current :: "nat \<Rightarrow> 'a proc_state_scheme \<Rightarrow> 'a proc_state_scheme" where
  "proc_set_current i s = s\<lparr>current_proc := Some i\<rparr>"

section \<open>The context switch\<close>

definition push64 :: "u64 \<Rightarrow> 'a proc_state_scheme \<Rightarrow> 'a proc_state_scheme" where
  "push64 v s = (let sp = r_rsp (regs s) - 8
     in s\<lparr>memory := store64 (memory s) sp v, regs := (regs s)\<lparr>r_rsp := sp\<rparr>\<rparr>)"

definition pop64 :: "(u64 \<Rightarrow> regs \<Rightarrow> regs) \<Rightarrow> 'a proc_state_scheme \<Rightarrow> 'a proc_state_scheme" where
  "pop64 f s = (let sp = r_rsp (regs s)
     in s\<lparr>regs := f (load64 (memory s) sp) ((regs s)\<lparr>r_rsp := sp + 8\<rparr>)\<rparr>)"

definition save_context :: "'a proc_state_scheme \<Rightarrow> 'a proc_state_scheme" where
  "save_context s =
     (let r = regs s
      in push64 (r_rflags r) (push64 (r_r15 r) (push64 (r_r14 r) (push64 (r_r13 r) (push64 (r_r12 r)
           (push64 (r_rbp r) (push64 (r_rbx r) s)))))))"

definition restore_context :: "'a proc_state_scheme \<Rightarrow> 'a proc_state_scheme" where
  "restore_context s =
     pop64 (\<lambda>v r. r\<lparr>r_rip := v\<rparr>) (pop64 (\<lambda>v r. r\<lparr>r_rbx := v\<rparr>) (pop64 (\<lambda>v r. r\<lparr>r_rbp := v\<rparr>)
       (pop64 (\<lambda>v r. r\<lparr>r_r12 := v\<rparr>) (pop64 (\<lambda>v r. r\<lparr>r_r13 := v\<rparr>) (pop64 (\<lambda>v r. r\<lparr>r_r14 := v\<rparr>)
         (pop64 (\<lambda>v r. r\<lparr>r_r15 := v\<rparr>) (pop64 (\<lambda>v r. r\<lparr>r_rflags := v\<rparr>) s)))))))"

text \<open>At the entry the return address is on top of the stack, where the \<open>call\<close> put it.\<close>

definition arch_switch :: "nat \<Rightarrow> u64 \<Rightarrow> u64 \<Rightarrow> 'a proc_state_scheme \<Rightarrow> 'a proc_state_scheme" where
  "arch_switch old new_rsp new_cr3 s =
     (let s = save_context s;
          s = upd_proc old (\<lambda>p. p\<lparr>rsp := r_rsp (regs s)\<rparr>) s;
          s = s\<lparr>regs := (regs s)\<lparr>r_rsp := new_rsp\<rparr>\<rparr>;
          s = (if new_cr3 \<noteq> 0 then s\<lparr>cr3 := new_cr3\<rparr> else s)
      in restore_context s)"

definition gdt_set_kernel_stack :: "u64 \<Rightarrow> 'a proc_state_scheme \<Rightarrow> 'a proc_state_scheme" where
  "gdt_set_kernel_stack rsp0 s = s\<lparr>tss_rsp0 := rsp0\<rparr>"

section \<open>The scheduler\<close>

definition sched_init :: "'a proc_state_scheme \<Rightarrow> 'a proc_state_scheme" where
  "sched_init s = s\<lparr>q_head := 0, q_tail := 0, q_count := 0\<rparr>"

definition sched_add :: "nat \<Rightarrow> 'a proc_state_scheme \<Rightarrow> 'a proc_state_scheme" where
  "sched_add p s =
     (if q_count s \<ge> int SCHED_QUEUE_SIZE then s
      else s\<lparr>queue := (queue s)[q_tail s := Some p], q_tail := (q_tail s + 1) mod SCHED_QUEUE_SIZE,
             q_count := q_count s + 1\<rparr>)"

definition sched_remove :: "nat \<Rightarrow> 'a proc_state_scheme \<Rightarrow> 'a proc_state_scheme" where
  "sched_remove p s =
     (case find (\<lambda>i. queue s ! i = Some p) [0..<SCHED_QUEUE_SIZE] of
        None \<Rightarrow> s
      | Some i \<Rightarrow> s\<lparr>queue := (queue s)[i := None], q_count := q_count s - 1\<rparr>)"

definition is_ready :: "'a proc_state_scheme \<Rightarrow> nat \<Rightarrow> bool" where
  "is_ready s idx \<longleftrightarrow> (case queue s ! idx of None \<Rightarrow> False | Some p \<Rightarrow> pstate (proc_of s p) = PROC_READY)"

definition next_ready :: "'a proc_state_scheme \<Rightarrow> nat option \<times> 'a proc_state_scheme" where
  "next_ready s =
     (case find (\<lambda>i. is_ready s ((q_head s + i) mod SCHED_QUEUE_SIZE)) [0..<SCHED_QUEUE_SIZE] of
        None \<Rightarrow> (None, s)
      | Some i \<Rightarrow> let idx = (q_head s + i) mod SCHED_QUEUE_SIZE
          in (queue s ! idx, s\<lparr>q_head := (idx + 1) mod SCHED_QUEUE_SIZE\<rparr>))"

definition do_switch :: "nat \<Rightarrow> nat \<Rightarrow> 'a proc_state_scheme \<Rightarrow> 'a proc_state_scheme" where
  "do_switch from to s =
     (if from = to then s else
      let s = upd_proc from (\<lambda>p. p\<lparr>pstate := (if pstate p = PROC_RUNNING then PROC_READY else pstate p)\<rparr>) s;
          s = upd_proc to (\<lambda>p. p\<lparr>pstate := PROC_RUNNING, timeslice := 5\<rparr>) s;
          s = proc_set_current to s;
          s = (if kstack (proc_of s to) \<noteq> 0 then gdt_set_kernel_stack (kstack (proc_of s to) + KSTACK_SIZE) s else s)
      in arch_switch from (rsp (proc_of s to)) (pml4 (proc_of s to)) s)"

text \<open>\<open>sched_yield\<close> and what follows is called with a current process.\<close>

definition sched_yield :: "'a proc_state_scheme \<Rightarrow> 'a proc_state_scheme" where
  "sched_yield s =
     (case current_proc s of None \<Rightarrow> s | Some cur \<Rightarrow>
      case next_ready s of
        (None, s) \<Rightarrow> if pstate (proc_of s cur) = PROC_RUNNING then upd_proc cur (\<lambda>p. p\<lparr>timeslice := 5\<rparr>) s else s
      | (Some nxt, s) \<Rightarrow>
          if nxt = cur
          then if pstate (proc_of s cur) = PROC_RUNNING then upd_proc cur (\<lambda>p. p\<lparr>timeslice := 5\<rparr>) s else s
          else do_switch cur nxt s)"

definition wake_sleeper :: "nat \<Rightarrow> 'a proc_state_scheme \<Rightarrow> 'a proc_state_scheme" where
  "wake_sleeper i s =
     (case queue s ! i of None \<Rightarrow> s | Some p \<Rightarrow>
      if pstate (proc_of s p) = PROC_SLEEPING \<and> pit_count s \<ge> wake_ticks (proc_of s p)
      then upd_proc p (\<lambda>p. p\<lparr>pstate := PROC_READY\<rparr>) s else s)"

definition sched_tick :: "'a proc_state_scheme \<Rightarrow> 'a proc_state_scheme" where
  "sched_tick s =
     (case current_proc s of None \<Rightarrow> s | Some cur \<Rightarrow>
      let s = fold wake_sleeper [0..<SCHED_QUEUE_SIZE] s;
          s = upd_proc cur (\<lambda>p. p\<lparr>timeslice := timeslice p - 1\<rparr>) s
      in if timeslice (proc_of s cur) > 0 then s else sched_yield s)"

definition sched_sleep :: "u64 \<Rightarrow> 'a proc_state_scheme \<Rightarrow> 'a proc_state_scheme" where
  "sched_sleep ms s =
     (case current_proc s of None \<Rightarrow> s | Some cur \<Rightarrow>
      sched_yield (upd_proc cur (\<lambda>p. p\<lparr>wake_ticks := pit_count s + ms * 1000 div 1000, pstate := PROC_SLEEPING\<rparr>) s))"

definition sched_wake :: "nat \<Rightarrow> 'a proc_state_scheme \<Rightarrow> 'a proc_state_scheme" where
  "sched_wake i s =
     (if pstate (proc_of s i) = PROC_SLEEPING \<or> pstate (proc_of s i) = PROC_WAITING
      then upd_proc i (\<lambda>p. p\<lparr>pstate := PROC_READY\<rparr>) s else s)"

definition handle_pit :: "'a proc_state_scheme \<Rightarrow> 'a proc_state_scheme" where
  "handle_pit s = sched_tick (s\<lparr>pit_count := pit_count s + 1\<rparr>)"

definition pit_uptime_ms :: "'a proc_state_scheme \<Rightarrow> u64" where
  "pit_uptime_ms s = pit_count s * (1000 div 1000)"

section \<open>Signals\<close>

definition signal_send :: "int \<Rightarrow> int \<Rightarrow> 'a proc_state_scheme \<Rightarrow> int \<times> 'a proc_state_scheme" where
  "signal_send n sig s =
     (if sig < 1 \<or> sig \<ge> int NSIG then (-1, s) else
      case proc_find n s of None \<Rightarrow> (-1, s) | Some i \<Rightarrow>
      let s = upd_proc i (\<lambda>p. p\<lparr>sig_pending := sig_pending p OR push_bit (nat sig) 1\<rparr>) s
      in (0, if pstate (proc_of s i) = PROC_SLEEPING \<or> pstate (proc_of s i) = PROC_WAITING
             then sched_wake i s else s))"

text \<open>
  The loop of \<open>signal_deliver\<close>.  The effect of a user-installed handler is a parameter: the code calls
  the function pointer with the signal number.
\<close>

fun deliver_loop :: "(u64 \<Rightarrow> nat \<Rightarrow> 'a proc_state_scheme \<Rightarrow> 'a proc_state_scheme) \<Rightarrow> nat
    \<Rightarrow> nat list \<Rightarrow> 'a proc_state_scheme \<Rightarrow> 'a proc_state_scheme" where
  "deliver_loop call i [] s = s"
| "deliver_loop call i (sig # sigs) s =
     (let p = proc_of s i in
      if sig_pending p AND push_bit sig 1 = 0 then deliver_loop call i sigs s else
      if sig_blocked p AND push_bit sig 1 \<noteq> 0 then deliver_loop call i sigs s else
      let s = upd_proc i (\<lambda>p. p\<lparr>sig_pending := sig_pending p AND NOT (push_bit sig 1)\<rparr>) s;
          h = sa_handler (sig_actions p ! sig) in
      if h = SIG_IGN then deliver_loop call i sigs s else
      if h = SIG_DFL then
        if sig \<in> {9, 15, 2, 13} then sched_yield (proc_exit i (128 + int sig) s) else
        if sig = 19 then sched_yield (upd_proc i (\<lambda>p. p\<lparr>pstate := PROC_SLEEPING\<rparr>) s) else
        deliver_loop call i sigs s
      else deliver_loop call i sigs (call h sig s))"

definition signal_deliver :: "(u64 \<Rightarrow> nat \<Rightarrow> 'a proc_state_scheme \<Rightarrow> 'a proc_state_scheme)
    \<Rightarrow> 'a proc_state_scheme \<Rightarrow> 'a proc_state_scheme" where
  "signal_deliver call s =
     (case current_proc s of None \<Rightarrow> s | Some i \<Rightarrow>
      if sig_pending (proc_of s i) = 0 then s else deliver_loop call i [1..<NSIG] s)"

definition signal_set_handler :: "int \<Rightarrow> sigaction \<Rightarrow> 'a proc_state_scheme \<Rightarrow> int \<times> 'a proc_state_scheme" where
  "signal_set_handler sig act s =
     (if sig < 1 \<or> sig \<ge> int NSIG then (-1, s) else
      if sig = 9 \<or> sig = 19 then (-1, s) else
      case current_proc s of None \<Rightarrow> (-1, s) | Some i \<Rightarrow>
      (0, upd_proc i (\<lambda>p. p\<lparr>sig_actions := (sig_actions p)[nat sig := act]\<rparr>) s))"

end
