(* ===== verification/ProcessInv.thy ===== *)
theory ProcessInv
  imports Process VmmInv
begin

text \<open>
  The scheduler and the context switch: a switched-out process resumes with its registers, the round
  robin reaches every ready process, and the operations keep the process table consistent.
\<close>

section \<open>Saving and restoring a context\<close>

lemma push64_simps:
  "r_rsp (regs (push64 v s)) = r_rsp (regs s) - 8"
  "memory (push64 v s) = store64 (memory s) (r_rsp (regs s) - 8) v"
  "regs (push64 v s) = (regs s)\<lparr>r_rsp := r_rsp (regs s) - 8\<rparr>"
  "proc_table (push64 v s) = proc_table s"
  by (simp_all add: push64_def Let_def)

text \<open>The saved frame, as a list of words from the stack pointer upwards.\<close>

definition frame_words :: "regs \<Rightarrow> u64 list" where
  "frame_words r = [r_rflags r, r_r15 r, r_r14 r, r_r13 r, r_r12 r, r_rbp r, r_rbx r]"

lemma save_context_regs:
  "regs (save_context s) = (regs s)\<lparr>r_rsp := r_rsp (regs s) - 56\<rparr>" "proc_table (save_context s) = proc_table s"
  by (simp_all add: save_context_def Let_def push64_simps)

lemma save_context_frame:
  assumes a: "a = r_rsp (regs s)"
  shows "map (\<lambda>k. load64 (memory (save_context s)) (a - 56 + of_nat (8 * k))) [0..<7] = frame_words (regs s)"
    "load64 (memory (save_context s)) a = load64 (memory s) a"
  unfolding a
  by (simp_all add: save_context_def Let_def push64_simps frame_words_def upt_rec load_store_other disj_rng_def mem_simps)

text \<open>Restoring reads eight words upwards from the stack pointer.\<close>

lemma restore_context_frame:
  assumes "r_rsp (regs s) = a" "map (\<lambda>k. load64 (memory s) (a + of_nat (8 * k))) [0..<7] = frame_words r"
  shows "regs (restore_context s) = r\<lparr>r_rsp := a + 64, r_rip := load64 (memory s) (a + 56)\<rparr>"
  using assms
  by (cases r; cases "regs s") (simp add: restore_context_def pop64_def Let_def frame_words_def upt_rec add.commute [of _ a])

lemma save_context_outside:
  assumes "x \<notin> rng (r_rsp (regs s) - 56) 56"
  shows "memory (save_context s) x = memory s x"
proof -
  have far: "8 \<le> x - (r_rsp (regs s) - 56 + i)" if "unat i \<le> 48" for i
    using that by (intro rng_outside [OF assms]) simp
  note far [of 0] far [of 8] far [of 16] far [of 24] far [of 32] far [of 40] far [of 48]
  then show ?thesis by (simp add: save_context_def Let_def push64_simps store64_other)
qed

lemma agree_frame:
  assumes "agree (rng a 64) m m'" "k < 8"
  shows "load64 m (a + of_nat (8 * k)) = load64 m' (a + of_nat (8 * k))"
proof -
  have "unat (of_nat (8 * k) :: u64) = 8 * k" using assms(2) by (intro of_nat_less_len) simp
  then show ?thesis using assms(2) by (intro agree_load64 [OF assms(1) order_refl]) simp
qed

lemma restore_context_memory [simp]: "memory (restore_context s) = memory s" "proc_table (restore_context s) = proc_table s"
  by (simp_all add: restore_context_def pop64_def Let_def)

lemma arch_switch_memory: "memory (arch_switch i r c s) = memory (save_context s)"
  by (simp add: arch_switch_def Let_def upd_proc_def)

lemma arch_switch_saves: "i < length (proc_table s) \<Longrightarrow>
    rsp (proc_of (arch_switch i r c s) i) = r_rsp (regs s) - 56"
  by (simp add: arch_switch_def Let_def upd_proc_def save_context_regs)

text \<open>A switch to a stack pointer below a saved frame loads the frame, wherever it was written.\<close>

lemma arch_switch_frame:
  assumes "agree (rng a 64) (memory t) m" "disj_rng (r_rsp (regs t) - 56) 56 a 64"
    and "map (\<lambda>k. load64 m (a + of_nat (8 * k))) [0..<7] = frame_words r"
  shows "regs (arch_switch b a c t) = r\<lparr>r_rsp := a + 64, r_rip := load64 m (a + 56)\<rparr>"
proof -
  define u where "u = (let s = save_context t; s = upd_proc b (\<lambda>p. p\<lparr>rsp := r_rsp (regs s)\<rparr>) s;
    s = s\<lparr>regs := (regs s)\<lparr>r_rsp := a\<rparr>\<rparr> in if c \<noteq> 0 then s\<lparr>cr3 := c\<rparr> else s)"
  have switch: "arch_switch b a c t = restore_context u" by (simp add: arch_switch_def u_def Let_def)
  have u: "r_rsp (regs u) = a" "memory u = memory (save_context t)" by (simp_all add: u_def Let_def upd_proc_def)
  have "agree (rng a 64) (memory u) (memory t)" unfolding u(2)
    using disj_rng_Int [OF assms(2)] by (intro agreeI save_context_outside) blast
  then have "agree (rng a 64) (memory u) m" using assms(1) by (rule agree_trans)
  note same = agree_frame [OF this]
  have "map (\<lambda>k. load64 (memory u) (a + of_nat (8 * k))) [0..<7] = frame_words r"
    unfolding assms(3) [symmetric] by (rule map_cong [OF refl], rule same) simp
  from restore_context_frame [OF u(1) this] same [of 7] show ?thesis unfolding switch by simp
qed

text \<open>C9. A process that is switched out resumes where it was.  Let \<open>arch_switch\<close> switch away from process
  \<open>a\<close>, and let \<open>t\<close> be any later state in which the 64 bytes of \<open>a\<close>'s saved frame are untouched and the
  stack of the then running process does not overlap them.  Switching from \<open>t\<close> back to the saved stack
  pointer of \<open>a\<close> restores every callee-saved register and the flags, pops the frame, and returns to the
  return address of the first call.\<close>

theorem arch_switch_resumes:
  assumes "a < length (proc_table s)" and s1: "s1 = arch_switch a r c s"
    and "agree (rng (r_rsp (regs s) - 56) 64) (memory t) (memory s1)"
    and "disj_rng (r_rsp (regs t) - 56) 56 (r_rsp (regs s) - 56) 64"
  shows "regs (arch_switch b (rsp (proc_of s1 a)) c' t)
    = (regs s)\<lparr>r_rsp := r_rsp (regs s) + 8, r_rip := load64 (memory s) (r_rsp (regs s))\<rparr>"
proof -
  let ?a = "r_rsp (regs s) - 56"
  have sp: "rsp (proc_of s1 a) = ?a" using assms(1) by (simp add: s1 arch_switch_saves)
  have "agree (rng ?a 64) (memory t) (memory (save_context s))" using assms(3) unfolding s1 arch_switch_memory .
  from arch_switch_frame [OF this assms(4) save_context_frame(1) [OF refl]]
  show ?thesis unfolding sp using save_context_frame(2) [OF refl, of s] by simp
qed

text \<open>Two stacks for the witness: process 0 runs at \<open>0x9000\<close>, process 1 was saved at \<open>0xA000\<close>.\<close>

definition proc_demo :: proc_state where
  "proc_demo = vmm_state.extend vm_demo \<lparr>proc_table = replicate 256 zero_process, current_proc = Some 0, next_pid = 1,
     queue = replicate 256 None, q_head = 0, q_tail = 0, q_count = 0, pit_count = 0, tss_rsp0 = 0,
     regs = \<lparr>r_rsp = 0x9000, r_rbx = 1, r_rbp = 2, r_r12 = 3, r_r13 = 4, r_r14 = 5, r_r15 = 6, r_rflags = 0x202, r_rip = 0\<rparr>\<rparr>"

lemma proc_demo_simps:
  "proc_table proc_demo = replicate 256 zero_process" "current_proc proc_demo = Some 0"
  "regs proc_demo = \<lparr>r_rsp = 0x9000, r_rbx = 1, r_rbp = 2, r_r12 = 3, r_r13 = 4, r_r14 = 5, r_r15 = 6, r_rflags = 0x202, r_rip = 0\<rparr>"
  "memory proc_demo = memory vm_demo" "queue proc_demo = replicate 256 None" "q_head proc_demo = 0"
  by (simp_all add: proc_demo_def vmm_state.defs)

theorem arch_switch_resumes_witness:
  "let s1 = arch_switch 0 0xA000 0 proc_demo; t = s1\<lparr>regs := (regs s1)\<lparr>r_rsp := 0xA000\<rparr>\<rparr>
   in regs (arch_switch 1 (rsp (proc_of s1 0)) 0 t) = (regs proc_demo)\<lparr>r_rsp := 0x9008\<rparr>"
proof -
  let ?s1 = "arch_switch 0 0xA000 0 proc_demo"
  let ?t = "?s1\<lparr>regs := (regs ?s1)\<lparr>r_rsp := 0xA000\<rparr>\<rparr>"
  have "agree (rng (r_rsp (regs proc_demo) - 56) 64) (memory ?t) (memory ?s1)" by (simp add: agree_def)
  moreover have "disj_rng (r_rsp (regs ?t) - 56) 56 (r_rsp (regs proc_demo) - 56) 64"
    by (simp add: proc_demo_simps disj_rng_def)
  moreover have "load64 (memory proc_demo) 0x9000 = 0"
    by (simp add: proc_demo_simps vm_demo_def load64_bytes)
  ultimately show ?thesis
    using arch_switch_resumes [of 0 proc_demo ?s1 "0xA000" 0 ?t 1 0] by (simp add: proc_demo_simps Let_def)
qed

section \<open>Round robin\<close>

text \<open>The distance from the head of the circular queue to a slot.\<close>

definition dist :: "nat \<Rightarrow> nat \<Rightarrow> nat" where
  "dist h j = (if h \<le> j then j - h else SCHED_QUEUE_SIZE + j - h)"

lemma dist_props:
  assumes "h < 256" "j < 256"
  shows "dist h j < 256" "(h + dist h j) mod 256 = j"
    "i < dist h j \<Longrightarrow> dist (((h + i) mod 256 + 1) mod 256) j = dist h j - i - 1"
proof -
  show "dist h j < 256" using assms unfolding dist_def by (simp split: if_split, linarith)
  show "(h + dist h j) mod 256 = j" using assms by (simp add: dist_def)
  show "dist (((h + i) mod 256 + 1) mod 256) j = dist h j - i - 1" if "i < dist h j"
  proof -
    have less: "i < 256" using that assms by (simp add: dist_def split: if_splits)
    have "((h + i) mod 256 + 1) mod 256 = (h + i + 1) mod 256" by (rule mod_add_left_eq)
    also have "\<dots> = (if h + i + 1 < 256 then h + i + 1 else h + i + 1 - 256)"
      using assms(1) less by (simp add: le_mod_geq)
    finally have eq: "((h + i) mod 256 + 1) mod 256 = (if h + i + 1 < 256 then h + i + 1 else h + i + 1 - 256)" .
    show ?thesis unfolding eq using that assms by (cases "h \<le> j") (auto simp: dist_def)
  qed
qed

lemma upd_proc_nth:
  "(\<And>p. g (f p) = g p) \<Longrightarrow> g (proc_of (upd_proc i f s) j) = g (proc_of s j)"
  by (cases "i < length (proc_table s)") (auto simp: upd_proc_def nth_list_update list_update_beyond)

lemma upd_proc_simps [simp]:
  "length (proc_table (upd_proc i f s)) = length (proc_table s)" "queue (upd_proc i f s) = queue s"
  "q_head (upd_proc i f s) = q_head s" "current_proc (upd_proc i f s) = current_proc s"
  "q_tail (upd_proc i f s) = q_tail s" "q_count (upd_proc i f s) = q_count s" "next_pid (upd_proc i f s) = next_pid s"
  "memory (upd_proc i f s) = memory s" "bitmap (upd_proc i f s) = bitmap s" "bitmap_size (upd_proc i f s) = bitmap_size s"
  by (simp_all add: upd_proc_def)

lemma upd_proc_same: "j < length (proc_table s) \<Longrightarrow>
    proc_of (upd_proc i f s) j = (if i = j then f (proc_of s j) else proc_of s j)"
  by (simp add: upd_proc_def nth_list_update)

lemma push64_kernel [simp]:
  "queue (push64 v s) = queue s" "q_head (push64 v s) = q_head s" "current_proc (push64 v s) = current_proc s"
  "q_tail (push64 v s) = q_tail s" "q_count (push64 v s) = q_count s" "next_pid (push64 v s) = next_pid s"
  "proc_table (push64 v s) = proc_table s"
  by (simp_all add: push64_def Let_def)

lemma pop64_kernel [simp]:
  "queue (pop64 g s) = queue s" "q_head (pop64 g s) = q_head s" "current_proc (pop64 g s) = current_proc s"
  "q_tail (pop64 g s) = q_tail s" "q_count (pop64 g s) = q_count s" "next_pid (pop64 g s) = next_pid s"
  "proc_table (pop64 g s) = proc_table s"
  by (simp_all add: pop64_def Let_def)

lemma context_kernel [simp]:
  "queue (save_context s) = queue s" "q_head (save_context s) = q_head s" "current_proc (save_context s) = current_proc s"
  "q_tail (save_context s) = q_tail s" "q_count (save_context s) = q_count s" "next_pid (save_context s) = next_pid s"
  "queue (restore_context s) = queue s" "q_head (restore_context s) = q_head s"
  "current_proc (restore_context s) = current_proc s" "q_tail (restore_context s) = q_tail s"
  "q_count (restore_context s) = q_count s" "next_pid (restore_context s) = next_pid s"
  by (simp_all add: save_context_def restore_context_def Let_def)

lemma arch_switch_kernel [simp]:
  "queue (arch_switch i r c s) = queue s" "q_head (arch_switch i r c s) = q_head s"
  "q_tail (arch_switch i r c s) = q_tail s" "q_count (arch_switch i r c s) = q_count s"
  "next_pid (arch_switch i r c s) = next_pid s"
  "current_proc (arch_switch i r c s) = current_proc s" "length (proc_table (arch_switch i r c s)) = length (proc_table s)"
  by (simp_all add: arch_switch_def Let_def save_context_regs)

lemma arch_switch_proc:
  assumes "\<And>p v. g (p\<lparr>rsp := v\<rparr>) = g p"
  shows "g (proc_of (arch_switch i r c s) j) = g (proc_of s j)"
proof -
  have "g (proc_of (upd_proc i (\<lambda>p. p\<lparr>rsp := v\<rparr>) (save_context s)) j) = g (proc_of s j)" for v
    using upd_proc_nth [of g "\<lambda>p. p\<lparr>rsp := v\<rparr>" i "save_context s" j] assms by (simp add: save_context_regs)
  then show ?thesis by (simp add: arch_switch_def Let_def)
qed

lemma do_switch_kernel [simp]:
  "queue (do_switch i j s) = queue s" "q_head (do_switch i j s) = q_head s"
  "q_tail (do_switch i j s) = q_tail s" "q_count (do_switch i j s) = q_count s" "next_pid (do_switch i j s) = next_pid s"
  "length (proc_table (do_switch i j s)) = length (proc_table s)"
  "i \<noteq> j \<Longrightarrow> current_proc (do_switch i j s) = Some j"
  by (simp_all add: do_switch_def Let_def proc_set_current_def gdt_set_kernel_stack_def)

lemma do_switch_proc:
  assumes g: "\<And>p v. g (p\<lparr>rsp := v\<rparr>) = g p" and "i \<noteq> j" "k < length (proc_table s)"
  shows "g (proc_of (do_switch i j s) k) =
    g (if k = j then (proc_of s k)\<lparr>pstate := PROC_RUNNING, timeslice := 5\<rparr>
       else if k = i then (proc_of s k)\<lparr>pstate := (if pstate (proc_of s k) = PROC_RUNNING then PROC_READY else pstate (proc_of s k))\<rparr>
       else proc_of s k)"
  using assms(2,3)
  by (simp add: do_switch_def Let_def arch_switch_proc [where g = g, OF g] proc_set_current_def gdt_set_kernel_stack_def upd_proc_same)

text \<open>What the scheduler relies on: tables of the right size, and queue slots that name processes.\<close>

definition sched_wf :: "'a proc_state_scheme \<Rightarrow> bool" where
  "sched_wf s \<longleftrightarrow> length (proc_table s) = MAX_PROCS \<and> length (queue s) = SCHED_QUEUE_SIZE
     \<and> q_head s < SCHED_QUEUE_SIZE \<and> q_tail s < SCHED_QUEUE_SIZE
     \<and> (\<forall>p. Some p \<in> set (queue s) \<longrightarrow> p < MAX_PROCS)
     \<and> (\<exists>c. current_proc s = Some c \<and> c < MAX_PROCS)"

lemma next_ready_first:
  assumes wf: "sched_wf s" and j: "j < 256" "is_ready s j"
  obtains i idx p where "i \<le> dist (q_head s) j" "idx = (q_head s + i) mod 256" "queue s ! idx = Some p" "p < 256"
    "pstate (proc_of s p) = PROC_READY" "next_ready s = (Some p, s\<lparr>q_head := (idx + 1) mod 256\<rparr>)"
    "i = dist (q_head s) j \<Longrightarrow> idx = j"
proof -
  have h: "q_head s < 256" using wf by (simp add: sched_wf_def)
  note d = dist_props(1,2) [OF h j(1)]
  obtain i where i: "find (\<lambda>i. is_ready s ((q_head s + i) mod 256)) [0..<256] = Some i"
    using d j(2) by (cases "find (\<lambda>i. is_ready s ((q_head s + i) mod 256)) [0..<256]") (auto simp: find_upt_None)
  then have le: "i \<le> dist (q_head s) j" and rd: "is_ready s ((q_head s + i) mod 256)"
    using d j(2) unfolding find_upt_Some by (metis not_le)+
  let ?idx = "(q_head s + i) mod 256"
  obtain p where p: "queue s ! ?idx = Some p" "pstate (proc_of s p) = PROC_READY"
    using rd by (auto simp: is_ready_def split: option.splits)
  have "?idx < length (queue s)" using wf by (simp add: sched_wf_def)
  then have "p < 256" using wf p(1) nth_mem unfolding sched_wf_def by metis
  with le p d(2) i show thesis by (intro that [of i ?idx p]) (auto simp: next_ready_def)
qed

lemma sched_yield_progress:
  assumes wf: "sched_wf s" and j: "j < 256" "queue s ! j = Some p" "pstate (proc_of s p) = PROC_READY"
    and s': "s' = sched_yield s" and np: "current_proc s \<noteq> Some p"
  shows "current_proc s' = Some p \<or>
    (sched_wf s' \<and> queue s' ! j = Some p \<and> pstate (proc_of s' p) = PROC_READY \<and> current_proc s' \<noteq> Some p
      \<and> dist (q_head s') j < dist (q_head s) j)"
proof -
  obtain c where c: "current_proc s = Some c" "c < 256" using wf by (auto simp: sched_wf_def)
  have "is_ready s j" using j by (simp add: is_ready_def)
  from next_ready_first [OF wf j(1) this] obtain i idx q where
    i: "i \<le> dist (q_head s) j" "idx = (q_head s + i) mod 256" "i = dist (q_head s) j \<Longrightarrow> idx = j"
    and q: "queue s ! idx = Some q" "q < 256"
    and nr: "next_ready s = (Some q, s\<lparr>q_head := (idx + 1) mod 256\<rparr>)" by metis
  let ?s = "s\<lparr>q_head := (idx + 1) mod 256\<rparr>"
  have p: "p < 256" "p < length (proc_table s)"
    using wf j(1,2) nth_mem [of j "queue s"] unfolding sched_wf_def by auto
  show ?thesis
  proof (cases "q = p")
    case True
    then have "s' = do_switch c p ?s" using np c nr by (simp add: s' sched_yield_def)
    then show ?thesis using True np c by simp
  next
    case False
    then have less: "i < dist (q_head s) j" using i q(1) j(2) by (metis le_neq_implies_less option.inject)
    have "q_head s < 256" using wf by (simp add: sched_wf_def)
    from dist_props(3) [OF this j(1) less] have
      d: "dist ((idx + 1) mod 256) j < dist (q_head s) j" using less unfolding i(2) by simp
    have s'': "s' = (if q = c then if pstate (proc_of s c) = PROC_RUNNING then upd_proc c (\<lambda>p. p\<lparr>timeslice := 5\<rparr>) ?s else ?s
      else do_switch c q ?s)" using c nr by (simp add: s' sched_yield_def)
    have "pstate (proc_of s' p) = PROC_READY" "q_head s' = (idx + 1) mod 256" "queue s' = queue s"
      "length (proc_table s') = length (proc_table s)" "q_tail s' = q_tail s" "current_proc s' = Some q \<or> current_proc s' = Some c"
      using False np c p j(3) by (auto simp: s'' do_switch_proc [where g = pstate] upd_proc_same)
    then show ?thesis using wf d j(2) False np c q(2) by (auto simp: sched_wf_def)
  qed
qed

lemma yields_reach:
  assumes "sched_wf s" "j < 256" "queue s ! j = Some p" "pstate (proc_of s p) = PROC_READY" "current_proc s \<noteq> Some p"
  shows "\<exists>k \<le> dist (q_head s) j + 1. current_proc ((sched_yield ^^ k) s) = Some p"
  using assms
proof (induction "dist (q_head s) j" arbitrary: s rule: less_induct)
  case less
  let ?s = "sched_yield s"
  from sched_yield_progress [OF less.prems(1-4) refl less.prems(5)]
  consider "current_proc ?s = Some p" | "sched_wf ?s" "queue ?s ! j = Some p" "pstate (proc_of ?s p) = PROC_READY"
    "current_proc ?s \<noteq> Some p" "dist (q_head ?s) j < dist (q_head s) j" by blast
  then show ?case
  proof cases
    case 1
    then show ?thesis by (intro exI [of _ 1]) simp
  next
    case 2
    from less.hyps [OF 2(5,1) less.prems(2) 2(2,3,4)] obtain k where
      "k \<le> dist (q_head ?s) j + 1" "current_proc ((sched_yield ^^ k) ?s) = Some p" by blast
    then show ?thesis using 2(5) by (intro exI [of _ "Suc k"]) (simp add: funpow_swap1)
  qed
qed

text \<open>C8. The round robin starves nobody: from a well-formed scheduler state, every process that is
  ready and in the run queue becomes the current process after at most 256 calls of \<open>sched_yield\<close>.\<close>

theorem sched_yield_fair:
  assumes "sched_wf s" "Some p \<in> set (queue s)" "pstate (proc_of s p) = PROC_READY"
  shows "\<exists>k \<le> SCHED_QUEUE_SIZE. current_proc ((sched_yield ^^ k) s) = Some p"
proof (cases "current_proc s = Some p")
  case True
  then show ?thesis by (intro exI [of _ 0]) simp
next
  case False
  obtain j where j: "j < 256" "queue s ! j = Some p" using assms(1,2) by (auto simp: sched_wf_def in_set_conv_nth)
  have "dist (q_head s) j < 256" using assms(1) j(1) by (intro dist_props(1)) (simp_all add: sched_wf_def)
  moreover obtain k where "k \<le> dist (q_head s) j + 1" "current_proc ((sched_yield ^^ k) s) = Some p"
    using yields_reach [OF assms(1) j assms(3) False] by blast
  ultimately show ?thesis by (intro exI [of _ k]) simp
qed

theorem sched_yield_fair_witness:
  "\<exists>k \<le> SCHED_QUEUE_SIZE. current_proc ((sched_yield ^^ k)
     (proc_demo\<lparr>proc_table := (replicate 256 zero_process)[7 := zero_process\<lparr>pstate := PROC_READY\<rparr>],
       queue := (replicate 256 None)[3 := Some 7]\<rparr>)) = Some 7"
proof (rule sched_yield_fair)
  let ?s = "proc_demo\<lparr>proc_table := (replicate 256 zero_process)[7 := zero_process\<lparr>pstate := PROC_READY\<rparr>],
       queue := (replicate 256 None)[3 := Some 7]\<rparr>"
  have q: "set (queue ?s) \<subseteq> {None, Some 7}"
    using set_update_subset_insert [of "replicate 256 None" 3 "Some (7::nat)"] by auto
  then have "p < MAX_PROCS" if "Some p \<in> set (queue ?s)" for p using that by auto
  moreover have "q_tail proc_demo = 0" "q_head proc_demo = 0" by (simp_all add: proc_demo_def vmm_state.defs)
  ultimately show "sched_wf ?s" by (simp add: sched_wf_def proc_demo_simps)
  show "Some 7 \<in> set (queue ?s)" using set_update_memI [of 3 "replicate 256 None" "Some (7::nat)"] by simp
  show "pstate (proc_of ?s 7) = PROC_READY" by simp
qed

section \<open>Creating a process\<close>

lemma upd_proc_frames [simp]:
  "free_frames (upd_proc i f s) = free_frames s" "free_frames (s\<lparr>next_pid := n\<rparr>) = free_frames s"
  by (simp_all add: free_frames_def bm_test_def upd_proc_def)

lemma pmm_inv_frames: "pmm_inv (upd_proc i f s) = pmm_inv s" "pmm_inv (s\<lparr>next_pid := n\<rparr>) = pmm_inv s"
  unfolding pmm_inv_def by (simp_all add: upd_proc_def free_frames_def bm_test_def)

lemma alloc_proc_table: "pmm_alloc s = (p, s') \<Longrightarrow> proc_table s' = proc_table s"
  by (auto simp: pmm_alloc_first claim_frame_def bm_set_def split: if_splits)

lemma new_pml4_proc_table: "vmm_new_pml4 s = (p, s') \<Longrightarrow> proc_table s' = proc_table s"
  using alloc_proc_table by (fastforce simp: vmm_new_pml4_def Let_def simp del: upt_rec_numeral split: if_splits prod.splits)

lemma new_pml4_addr: "fst (vmm_new_pml4 s) = fst (pmm_alloc s)"
  by (simp add: vmm_new_pml4_def Let_def split: prod.split del: upt_rec_numeral)

lemma proc_create_pages:
  assumes inv: "pmm_inv s" and len: "length (proc_table s) = 256"
    and fin: "find (\<lambda>i. pstate (proc_of s i) = PROC_UNUSED) [1..<MAX_PROCS] = Some i"
    and f: "f = Min (free_frames s)" "free_frames s \<noteq> {}" and g: "g = Min (free_frames s - {f})" "free_frames s - {f} \<noteq> {}"
  shows "\<exists>s'. proc_create s = (Some i, s') \<and> kstack (proc_of s' i) = f * PAGE_SIZE
    \<and> rsp (proc_of s' i) = f * PAGE_SIZE + KSTACK_SIZE \<and> pml4 (proc_of s' i) = g * PAGE_SIZE"
proof -
  define s0 where "s0 = (upd_proc i (\<lambda>p. p\<lparr>pid := next_pid s, ppid := (case current_proc s of None \<Rightarrow> 0 | Some c \<Rightarrow> pid (proc_of (upd_proc i (\<lambda>_. zero_process) s) c)),
    pstate := PROC_READY, timeslice := 5\<rparr>) (upd_proc i (\<lambda>_. zero_process) s))\<lparr>next_pid := next_pid s + 1\<rparr>"
  define s1 where "s1 = claim_frame f s0"
  define s3 where "s3 = (upd_proc i (\<lambda>p. p\<lparr>kstack := f * PAGE_SIZE\<rparr>) s1)\<lparr>memory := kmemset (memory s1) (f * PAGE_SIZE) 0 PAGE_SIZE\<rparr>"
  define s4 where "s4 = upd_proc i (\<lambda>p. p\<lparr>rsp := f * PAGE_SIZE + KSTACK_SIZE\<rparr>) s3"
  have i: "i < 256" using fin by (auto simp: find_Some_iff)
  have inv0: "pmm_inv s0" "free_frames s0 = free_frames s" using inv by (simp_all add: s0_def pmm_inv_frames)
  have fF: "f \<in> free_frames s0" using f inv0(2) by simp
  have al: "pmm_alloc s0 = (f * PAGE_SIZE, s1)" using f inv0(2) by (simp add: pmm_alloc_first s1_def)
  have nz: "f * PAGE_SIZE \<noteq> 0" by (rule free_framesD(2) [OF inv0(1) fF])
  have own: "own_page s1 (f * PAGE_SIZE)" "pmm_inv s1" using fa.alloc_own [OF inv0(1) al nz] by simp_all
  have pg: "page_of (f * PAGE_SIZE) = f * PAGE_SIZE" using own(1) by (simp add: own_page_def)
  have "free_frames s3 = free_frames (upd_proc i (\<lambda>p. p\<lparr>kstack := f * PAGE_SIZE\<rparr>) s1)"
    unfolding s3_def using own rng_page [OF pg]
    by (intro free_frames_agree) (auto simp: pmm_inv_frames kmemset_apply own_page_def in_bitmap_def)
  then have F4: "free_frames s4 = free_frames s - {f}" using inv0(2) by (simp add: s4_def s1_def)
  obtain r s5 where np: "vmm_new_pml4 s4 = (r, s5)" by fastforce
  have r: "r = g * PAGE_SIZE" using new_pml4_addr [of s4] np g F4 by (simp add: pmm_alloc_first)
  have "g \<in> free_frames s" using g by (metis Diff_iff Min_in free_frames_finite finite_Diff)
  then have r0: "r \<noteq> 0" unfolding r by (rule free_framesD(2) [OF inv])
  have tab: "proc_table s1 = proc_table s0" "proc_table s5 = proc_table s4"
    using alloc_proc_table [OF al] new_pml4_proc_table [OF np] by simp_all
  have step': "proc_create s = (let s = upd_proc i (\<lambda>p. p\<lparr>pml4 := r\<rparr>) s5 in if r = 0 then (None, pmm_free (f * PAGE_SIZE) s) else
          let dir = (case current_proc s of None \<Rightarrow> root_dir | Some c \<Rightarrow> cwd (proc_of s c));
              s = upd_proc i (\<lambda>p. p\<lparr>cwd := dir,
                    fds := fold (\<lambda>j f. f[j := (f ! j)\<lparr>fd_file := 0\<rparr>]) [0..<3] (fds p)\<rparr>) s
          in (Some i, s))"
    unfolding proc_create_def fin option.case
    using al nz np by (simp add: Let_def s0_def [symmetric] s3_def s4_def del: upt_rec_numeral)
  then show ?thesis
    using i len tab r r0 by (simp add: Let_def upd_proc_same s4_def s3_def s0_def del: upt_rec_numeral)
qed

text \<open>C31. \<open>proc_create\<close> allocates one page for the kernel stack but puts the stack pointer at
  \<open>kstack + KSTACK_SIZE\<close>, two pages up.  When the two lowest free frames are adjacent, as they are
  after boot, the second page is the root of the new process's own page tables: the first value pushed
  on the kernel stack is written into entry 511 of its \<open>pml4\<close>.\<close>

theorem proc_create_stack_in_pml4:
  assumes "pmm_inv s" "length (proc_table s) = MAX_PROCS" "proc_create s = (Some i, s')"
    and f: "f = Min (free_frames s)" "free_frames s \<noteq> {}" and g: "f + 1 = Min (free_frames s - {f})" "free_frames s - {f} \<noteq> {}"
  shows "page_of (rsp (proc_of s' i) - 8) = pml4 (proc_of s' i)
    \<and> page_of (rsp (proc_of s' i) - 8) \<noteq> kstack (proc_of s' i)
    \<and> pt_load (store64 m (rsp (proc_of s' i) - 8) v) (pml4 (proc_of s' i)) 511 = v"
proof -
  have "find (\<lambda>i. pstate (proc_of s i) = PROC_UNUSED) [1..<MAX_PROCS] = Some i"
    using assms(3) by (auto simp: proc_create_def Let_def split: option.splits prod.splits if_splits)
  from proc_create_pages [OF assms(1,2) this f g] assms(3)
  have p: "kstack (proc_of s' i) = f * PAGE_SIZE" "rsp (proc_of s' i) = f * PAGE_SIZE + KSTACK_SIZE"
    "pml4 (proc_of s' i) = (f + 1) * PAGE_SIZE" by auto
  have gF: "f + 1 \<in> free_frames s" using g by (metis Diff_iff Min_in free_frames_finite finite_Diff)
  note D = free_framesD [OF assms(1) gF]
  have sp: "f * PAGE_SIZE + KSTACK_SIZE - 8 = (f + 1) * PAGE_SIZE + 8 * of_nat 511" by (simp add: distrib_right)
  have "page_of ((f + 1) * PAGE_SIZE + 8 * of_nat 511) = (f + 1) * PAGE_SIZE"
    by (rule entry_aligned(2) [OF D(3)]) simp
  moreover have "(f + 1) * PAGE_SIZE \<noteq> f * PAGE_SIZE" by (simp add: distrib_right)
  ultimately show ?thesis unfolding p sp pt_load_def load64_store64 by simp
qed

lemma proc_demo_pmm: "pmm_inv proc_demo" "free_frames proc_demo = free_frames vm_demo"
proof -
  have f: "free_frames proc_demo = free_frames vm_demo"
    by (simp add: free_frames_def bm_test_def proc_demo_def vmm_state.defs)
  then show "free_frames proc_demo = free_frames vm_demo" .
  show "pmm_inv proc_demo"
    using vm_demo_inv unfolding pmm_inv_def f by (simp add: proc_demo_def vmm_state.defs)
qed

theorem proc_create_stack_in_pml4_witness:
  "\<exists>s'. proc_create proc_demo = (Some 1, s') \<and> page_of (rsp (proc_of s' 1) - 8) = pml4 (proc_of s' 1)"
proof -
  have F: "3 = Min (free_frames proc_demo)" "free_frames proc_demo \<noteq> {}"
    "3 + 1 = Min (free_frames proc_demo - {3})" "free_frames proc_demo - {3} \<noteq> {}"
    unfolding proc_demo_pmm vm_demo_free by (simp_all add: min_def)
  have "find (\<lambda>i. pstate (proc_of proc_demo i) = PROC_UNUSED) [1..<MAX_PROCS] = Some 1"
    by (subst upt_conv_Cons) (simp_all add: proc_demo_simps zero_process_def)
  from proc_create_pages [OF proc_demo_pmm(1) _ this F(1,2) refl F(4)]
  obtain s' where s': "proc_create proc_demo = (Some 1, s')" by (auto simp: proc_demo_simps)
  from proc_create_stack_in_pml4 [OF proc_demo_pmm(1) _ this F] s' show ?thesis by (auto simp: proc_demo_simps)
qed

end
