(* ===== verification/ProcessTable.thy ===== *)
theory ProcessTable
  imports ProcessInv
begin

text \<open>
  The process table as a state machine: the operations of \<open>process.c\<close>, \<open>scheduler.c\<close> and \<open>signal.c\<close> as
  steps, and the invariant that all reachable tables satisfy.
\<close>

section \<open>The invariant\<close>

definition live :: "process \<Rightarrow> bool" where
  "live p \<longleftrightarrow> pstate p \<noteq> PROC_UNUSED"

definition proc_ok :: "process \<Rightarrow> bool" where
  "proc_ok p \<longleftrightarrow> length (fds p) = MAX_FDS \<and> length (sig_actions p) = NSIG \<and> sig_blocked p = 0
     \<and> sa_handler (sig_actions p ! 9) = SIG_DFL \<and> sa_handler (sig_actions p ! 19) = SIG_DFL"

text \<open>
  Only the current process is running, the current process is live, live processes have distinct pids below \<open>next_pid\<close>, and neither
  \<open>SIGKILL\<close> nor \<open>SIGSTOP\<close> is blocked or has a handler.
\<close>

definition table_ok :: "process list \<Rightarrow> nat option \<Rightarrow> int \<Rightarrow> bool" where
  "table_ok ps cur nxt \<longleftrightarrow> (\<forall>i < MAX_PROCS. proc_ok (ps ! i) \<and> (pstate (ps ! i) = PROC_RUNNING \<longrightarrow> cur = Some i)
       \<and> (live (ps ! i) \<longrightarrow> pid (ps ! i) < nxt) \<and> (cur = Some i \<longrightarrow> live (ps ! i)))
     \<and> (\<forall>i < MAX_PROCS. \<forall>j < MAX_PROCS. live (ps ! i) \<longrightarrow> live (ps ! j) \<longrightarrow> pid (ps ! i) = pid (ps ! j) \<longrightarrow> i = j)"

definition proc_inv :: "'a proc_state_scheme \<Rightarrow> bool" where
  "proc_inv s \<longleftrightarrow> sched_wf s \<and> table_ok (proc_table s) (current_proc s) (next_pid s)"

section \<open>Steps\<close>

inductive proc_step :: "'a proc_state_scheme \<Rightarrow> 'a proc_state_scheme \<Rightarrow> bool" where
  create: "proc_create s = (r, s') \<Longrightarrow> proc_step s s'"
| exit: "i < MAX_PROCS \<Longrightarrow> live (proc_of s i) \<Longrightarrow> proc_step s (proc_exit i code s)"
| reap: "i < MAX_PROCS \<Longrightarrow> pstate (proc_of s i) = PROC_ZOMBIE \<Longrightarrow> current_proc s \<noteq> Some i
    \<Longrightarrow> proc_step s (upd_proc i (\<lambda>p. p\<lparr>pstate := PROC_UNUSED\<rparr>) s)"
| alloc_fd: "proc_alloc_fd i f s = (fd, s') \<Longrightarrow> proc_step s s'"
| free_fd: "proc_step s (proc_free_fd i fd s)"
| add: "p < MAX_PROCS \<Longrightarrow> proc_step s (sched_add p s)"
| remove: "proc_step s (sched_remove p s)"
| yield: "proc_step s (sched_yield s)"
| tick: "proc_step s (handle_pit s)"
| sleep: "proc_step s (sched_sleep ms s)"
| wake: "proc_step s (sched_wake i s)"
| send: "signal_send n sig s = (r, s') \<Longrightarrow> proc_step s s'"
| handler: "signal_set_handler sig act s = (r, s') \<Longrightarrow> proc_step s s'"

inductive_cases proc_stepE: "proc_step s s'"

section \<open>Updates of one process\<close>

lemma table_ok_upd:
  assumes "table_ok ps cur nxt" "length ps = MAX_PROCS"
    and "proc_ok (ps ! i) \<Longrightarrow> proc_ok q" "pid q = pid (ps ! i)" "live q \<Longrightarrow> live (ps ! i)" "cur = Some i \<Longrightarrow> live (ps ! i) \<Longrightarrow> live q"
    and "pstate q = PROC_RUNNING \<Longrightarrow> cur = Some i \<or> pstate (ps ! i) = PROC_RUNNING"
  shows "table_ok (ps[i := q]) cur nxt"
proof (cases "i < MAX_PROCS")
  case True
  have at: "ps[i := q] ! k = (if k = i then q else ps ! k)" if "k < MAX_PROCS" for k
    using that assms(2) by (simp add: nth_list_update)
  have T: "proc_ok (ps ! k)" "pstate (ps ! k) = PROC_RUNNING \<Longrightarrow> cur = Some k" "live (ps ! k) \<Longrightarrow> pid (ps ! k) < nxt"
    "cur = Some k \<Longrightarrow> live (ps ! k)" if "k < MAX_PROCS" for k
    using assms(1) that unfolding table_ok_def by blast+
  have D: "live (ps ! k) \<Longrightarrow> live (ps ! l) \<Longrightarrow> pid (ps ! k) = pid (ps ! l) \<Longrightarrow> k = l" if "k < MAX_PROCS" "l < MAX_PROCS" for k l
    using assms(1) that unfolding table_ok_def by blast
  have "\<forall>k < MAX_PROCS. proc_ok (ps[i := q] ! k) \<and> (pstate (ps[i := q] ! k) = PROC_RUNNING \<longrightarrow> cur = Some k)
    \<and> (live (ps[i := q] ! k) \<longrightarrow> pid (ps[i := q] ! k) < nxt) \<and> (cur = Some k \<longrightarrow> live (ps[i := q] ! k))"
    using T [OF True] T assms(3-7) by (simp add: at) blast
  moreover have "\<forall>k < MAX_PROCS. \<forall>l < MAX_PROCS. live (ps[i := q] ! k) \<longrightarrow> live (ps[i := q] ! l)
    \<longrightarrow> pid (ps[i := q] ! k) = pid (ps[i := q] ! l) \<longrightarrow> k = l"
    using D assms(4,5) by (simp add: at) metis
  ultimately show ?thesis unfolding table_ok_def ..
qed (use assms in \<open>simp add: list_update_beyond\<close>)

lemma proc_inv_upd:
  assumes "proc_inv s" "\<And>p. proc_ok p \<Longrightarrow> proc_ok (f p)" "\<And>p. pid (f p) = pid p"
    and "live (f (proc_of s i)) \<Longrightarrow> live (proc_of s i)" "current_proc s = Some i \<Longrightarrow> live (proc_of s i) \<Longrightarrow> live (f (proc_of s i))"
    and "pstate (f (proc_of s i)) = PROC_RUNNING \<Longrightarrow> current_proc s = Some i \<or> pstate (proc_of s i) = PROC_RUNNING"
  shows "proc_inv (upd_proc i f s)"
proof -
  have t: "table_ok (proc_table s) (current_proc s) (next_pid s)" and len: "length (proc_table s) = MAX_PROCS"
    and wf: "sched_wf (upd_proc i f s)"
    using assms(1) unfolding proc_inv_def sched_wf_def by simp_all
  have "proc_table (upd_proc i f s) = (proc_table s)[i := f (proc_of s i)]" by (simp add: upd_proc_def)
  moreover have "table_ok ((proc_table s)[i := f (proc_of s i)]) (current_proc s) (next_pid s)"
    by (rule table_ok_upd [OF t len assms(2,3,4,5,6)])
  ultimately show ?thesis using wf by (simp add: proc_inv_def)
qed

lemma proc_ok_simps [simp]:
  "proc_ok (p\<lparr>pstate := v\<rparr>) = proc_ok p" "proc_ok (p\<lparr>exit_code := c\<rparr>) = proc_ok p" "proc_ok (p\<lparr>rsp := r\<rparr>) = proc_ok p"
  "proc_ok (p\<lparr>pml4 := r\<rparr>) = proc_ok p" "proc_ok (p\<lparr>timeslice := n\<rparr>) = proc_ok p" "proc_ok (p\<lparr>wake_ticks := w\<rparr>) = proc_ok p"
  "proc_ok (p\<lparr>sig_pending := w\<rparr>) = proc_ok p" "proc_ok (p\<lparr>fds := (fds p)[j := e]\<rparr>) = proc_ok p"
  "live (p\<lparr>pstate := v\<rparr>) \<longleftrightarrow> v \<noteq> PROC_UNUSED" "live (p\<lparr>rsp := r\<rparr>) = live p" "live (p\<lparr>pml4 := r\<rparr>) = live p"
  "live (p\<lparr>timeslice := n\<rparr>) = live p" "live (p\<lparr>sig_pending := w\<rparr>) = live p" "live (p\<lparr>fds := e'\<rparr>) = live p"
  "live (p\<lparr>wake_ticks := w\<rparr>) = live p" "live (p\<lparr>exit_code := c\<rparr>) = live p"
  by (simp_all add: proc_ok_def live_def)

lemma proc_inv_cong:
  "proc_table s' = proc_table s \<Longrightarrow> current_proc s' = current_proc s \<Longrightarrow> queue s' = queue s \<Longrightarrow> q_head s' = q_head s
   \<Longrightarrow> q_tail s' = q_tail s \<Longrightarrow> next_pid s' = next_pid s \<Longrightarrow> proc_inv s' = proc_inv s"
  by (simp add: proc_inv_def sched_wf_def)

lemma proc_inv_more: "pmm.more s' = pmm.more s \<Longrightarrow> proc_inv s' = proc_inv s"
  by (rule proc_inv_cong; cases s; cases s'; simp)

section \<open>The operations keep the invariant\<close>

lemma alloc_fd_inv [inv_intros]: "proc_inv s \<Longrightarrow> proc_alloc_fd i f s = (fd, s') \<Longrightarrow> proc_inv s'"
  by (auto simp: proc_alloc_fd_def split: option.splits intro!: proc_inv_upd)

lemma free_fd_inv [inv_intros]: "proc_inv s \<Longrightarrow> proc_inv (proc_free_fd i fd s)"
  by (auto simp: proc_free_fd_def intro!: proc_inv_upd)

lemma wake_inv [inv_intros]: "proc_inv s \<Longrightarrow> proc_inv (sched_wake i s)"
  by (auto simp: sched_wake_def live_def intro!: proc_inv_upd)

lemma send_inv [inv_intros]: "proc_inv s \<Longrightarrow> signal_send n sig s = (r, s') \<Longrightarrow> proc_inv s'"
  by (auto simp: signal_send_def Let_def split: if_splits option.splits intro!: wake_inv proc_inv_upd)

lemma handler_inv [inv_intros]: "proc_inv s \<Longrightarrow> signal_set_handler sig act s = (r, s') \<Longrightarrow> proc_inv s'"
  by (auto simp: signal_set_handler_def proc_ok_def live_def nth_list_update split: if_splits option.splits intro!: proc_inv_upd)

lemma sched_wf_queue:
  assumes "sched_wf s" "p < MAX_PROCS" "t < SCHED_QUEUE_SIZE"
  shows "sched_wf (s\<lparr>queue := (queue s)[i := Some p], q_tail := t, q_count := n\<rparr>)"
    "sched_wf (s\<lparr>queue := (queue s)[i := None], q_count := n\<rparr>)"
  using assms set_update_subset_insert [of "queue s" i] unfolding sched_wf_def by (auto dest!: subsetD)

lemma add_inv [inv_intros]: "proc_inv s \<Longrightarrow> p < MAX_PROCS \<Longrightarrow> proc_inv (sched_add p s)"
  using sched_wf_queue(1) [of s p] by (simp add: sched_add_def proc_inv_def)

lemma remove_inv [inv_intros]: "proc_inv s \<Longrightarrow> proc_inv (sched_remove p s)"
  using sched_wf_queue(2) [of s 0 0] by (auto simp: sched_remove_def proc_inv_def split: option.split)

lemma do_switch_inv:
  assumes inv: "proc_inv s" and c: "current_proc s = Some c" and q: "q < MAX_PROCS" "q \<noteq> c" "live (proc_of s q)"
  shows "proc_inv (do_switch c q s)"
proof -
  let ?g = "\<lambda>p. (pid p, pstate p, proc_ok p)"
  have wf: "sched_wf s" and tab: "table_ok (proc_table s) (Some c) (next_pid s)" and len: "length (proc_table s) = 256"
    using inv c by (auto simp: proc_inv_def sched_wf_def)
  have g: "?g (proc_of (do_switch c q s) k) = ?g (if k = q then (proc_of s k)\<lparr>pstate := PROC_RUNNING, timeslice := 5\<rparr>
       else if k = c then (proc_of s k)\<lparr>pstate := (if pstate (proc_of s k) = PROC_RUNNING then PROC_READY else pstate (proc_of s k))\<rparr>
       else proc_of s k)" if "k < 256" for k
    using q(2) that len by (intro do_switch_proc) auto
  have "pid (proc_of (do_switch c q s) k) = pid (proc_of s k)" "proc_ok (proc_of (do_switch c q s) k) = proc_ok (proc_of s k)"
    "live (proc_of (do_switch c q s) k) = live (proc_of s k)"
    "pstate (proc_of (do_switch c q s) k) = PROC_RUNNING \<longleftrightarrow> k = q \<or> k \<noteq> c \<and> pstate (proc_of s k) = PROC_RUNNING"
    if "k < 256" for k
    using g [OF that] q(3) by (auto simp: live_def split: if_splits)
  then have "table_ok (proc_table (do_switch c q s)) (Some q) (next_pid s)"
    using tab q(3) unfolding table_ok_def by auto
  then show ?thesis using wf q by (auto simp: proc_inv_def sched_wf_def)
qed

lemma next_ready_result:
  assumes "sched_wf s" "next_ready s = (r, s')"
  shows "\<exists>h < SCHED_QUEUE_SIZE. s' = s\<lparr>q_head := h\<rparr>" "r = Some q \<Longrightarrow> q < MAX_PROCS \<and> pstate (proc_of s q) = PROC_READY"
proof -
  show "\<exists>h < SCHED_QUEUE_SIZE. s' = s\<lparr>q_head := h\<rparr>"
  proof (cases "find (\<lambda>i. is_ready s ((q_head s + i) mod SCHED_QUEUE_SIZE)) [0..<SCHED_QUEUE_SIZE]")
    case None
    then show ?thesis using assms by (intro exI [of _ "q_head s"]) (auto simp: next_ready_def sched_wf_def)
  next
    case (Some i)
    let ?h = "((q_head s + i) mod SCHED_QUEUE_SIZE + 1) mod SCHED_QUEUE_SIZE"
    have "s' = s\<lparr>q_head := ?h\<rparr>" using assms Some by (auto simp: next_ready_def Let_def)
    moreover have "?h < SCHED_QUEUE_SIZE" by (rule mod_less_divisor) simp
    ultimately show ?thesis by blast
  qed
  assume r: "r = Some q"
  then obtain i where i: "is_ready s ((q_head s + i) mod SCHED_QUEUE_SIZE)" "queue s ! ((q_head s + i) mod SCHED_QUEUE_SIZE) = Some q"
    using assms(2) by (auto simp: next_ready_def Let_def find_upt_Some split: option.splits)
  have "(q_head s + i) mod SCHED_QUEUE_SIZE < length (queue s)" using assms(1) by (simp add: sched_wf_def)
  then have "Some q \<in> set (queue s)" using i(2) nth_mem by fastforce
  then show "q < MAX_PROCS \<and> pstate (proc_of s q) = PROC_READY" using assms(1) i by (simp add: sched_wf_def is_ready_def)
qed

lemma proc_inv_head: "proc_inv s \<Longrightarrow> h < SCHED_QUEUE_SIZE \<Longrightarrow> proc_inv (s\<lparr>q_head := h\<rparr>)"
  by (simp add: proc_inv_def sched_wf_def)

lemma yield_inv [inv_intros]: "proc_inv s \<Longrightarrow> proc_inv (sched_yield s)"
proof -
  assume inv: "proc_inv s"
  then obtain c where c: "current_proc s = Some c" by (auto simp: proc_inv_def sched_wf_def)
  obtain r s1 where nr: "next_ready s = (r, s1)" by fastforce
  have wf: "sched_wf s" using inv by (simp add: proc_inv_def)
  from next_ready_result(1) [OF wf nr] obtain h where h: "h < SCHED_QUEUE_SIZE" "s1 = s\<lparr>q_head := h\<rparr>" by blast
  have inv1: "proc_inv s1" unfolding h(2) by (rule proc_inv_head [OF inv h(1)])
  have reset: "proc_inv (upd_proc c (\<lambda>p. p\<lparr>timeslice := 5\<rparr>) s1)" using inv1 by (rule proc_inv_upd) simp_all
  show ?thesis
  proof (cases r)
    case None
    then show ?thesis using c nr inv1 reset by (simp add: sched_yield_def)
  next
    case (Some q)
    from next_ready_result(2) [OF wf nr Some] have q: "q < MAX_PROCS" "live (proc_of s1 q)"
      by (simp_all add: h(2) live_def)
    have "proc_inv (do_switch c q s1)" if "q \<noteq> c" using do_switch_inv [OF inv1 _ q(1) that q(2)] c by (simp add: h(2))
    then show ?thesis using Some c nr inv1 reset by (simp add: sched_yield_def)
  qed
qed

lemma tick_inv [inv_intros]: "proc_inv s \<Longrightarrow> proc_inv (handle_pit s)"
proof -
  assume inv: "proc_inv s"
  have wake: "proc_inv (wake_sleeper i t)" if "proc_inv t" for i and t :: "'a proc_state_scheme"
    using that by (auto simp: wake_sleeper_def live_def split: option.split intro!: proc_inv_upd)
  have "proc_inv (fold wake_sleeper xs t)" if "proc_inv t" for xs and t :: "'a proc_state_scheme"
    using that by (induction xs arbitrary: t) (simp_all add: wake)
  moreover have "proc_inv (s\<lparr>pit_count := pit_count s + 1\<rparr>)" using inv by (simp add: proc_inv_def sched_wf_def)
  moreover have "proc_inv (upd_proc c (\<lambda>p. p\<lparr>timeslice := timeslice p - 1\<rparr>) t)" if "proc_inv t" for c and t :: "'a proc_state_scheme"
    using that by (rule proc_inv_upd) simp_all
  ultimately show ?thesis unfolding handle_pit_def sched_tick_def Let_def by (auto split: option.split intro!: yield_inv)
qed

lemma sleep_inv [inv_intros]: "proc_inv s \<Longrightarrow> proc_inv (sched_sleep ms s)"
proof -
  assume inv: "proc_inv s"
  have ok: "live (proc_of s c)" if "current_proc s = Some c" for c
    using inv that by (auto simp: proc_inv_def sched_wf_def table_ok_def)
  then show ?thesis
    using inv by (auto simp: sched_sleep_def split: option.split intro!: yield_inv proc_inv_upd)
qed

lemma fold_more: "(\<And>x s. pmm.more (f x s) = pmm.more s) \<Longrightarrow> pmm.more (fold f xs s) = pmm.more s"
  by (induction xs arbitrary: s) simp_all

lemma destroy_more: "pmm.more (vmm_destroy_pml4 r s) = pmm.more s"
proof -
  have pt: "pmm.more (destroy_pt t s) = pmm.more s" for t s
    unfolding destroy_pt_def pmm_free_fields by (rule fold_more) (simp add: Let_def)
  have pdt: "pmm.more (destroy_pdt t s) = pmm.more s" for t s
    unfolding destroy_pdt_def pmm_free_fields by (rule fold_more) (simp add: Let_def pt)
  have pdpt: "pmm.more (destroy_pdpt t s) = pmm.more s" for t s
    unfolding destroy_pdpt_def pmm_free_fields by (rule fold_more) (simp add: Let_def pdt)
  show ?thesis unfolding vmm_destroy_pml4_def
    by (auto simp: Let_def pdpt intro!: fold_more)
qed

lemma exit_inv [inv_intros]:
  assumes inv: "proc_inv s" and i: "live (proc_of s i)"
  shows "proc_inv (proc_exit i code s)"
proof -
  let ?s = "upd_proc i (\<lambda>p. p\<lparr>exit_code := code, pstate := PROC_ZOMBIE\<rparr>) s"
  have z: "proc_inv ?s" using inv i by (intro proc_inv_upd) auto
  have "proc_inv (fold (\<lambda>j s. if fd_file (fds (proc_of s i) ! j) \<noteq> 0 then proc_free_fd i (int j) s else s) xs t)"
    if "proc_inv t" for xs and t :: "'a proc_state_scheme"
    using that by (induction xs arbitrary: t) (simp_all add: free_fd_inv)
  note fd = this [OF z]
  have "proc_inv (upd_proc i (\<lambda>p. p\<lparr>pml4 := 0\<rparr>) (vmm_destroy_pml4 r t))" if "proc_inv t" for r and t :: "'a proc_state_scheme"
    using that proc_inv_more [OF destroy_more, of r t] by (intro proc_inv_upd) auto
  then show ?thesis unfolding proc_exit_def Let_def using fd by simp
qed

lemma more_alloc: "pmm.more (snd (pmm_alloc s)) = pmm.more s"
  by (simp add: pmm_alloc_first)

lemma more_new_pml4: "pmm.more (snd (vmm_new_pml4 s)) = pmm.more s"
  using more_alloc [of s] by (cases "pmm_alloc s") (simp add: vmm_new_pml4_def Let_def del: upt_rec_numeral)

lemma create_slot_inv:
  assumes inv: "proc_inv s" and i: "i < MAX_PROCS" "\<not> live (proc_of s i)"
  shows "proc_inv ((upd_proc i (\<lambda>_. zero_process\<lparr>pid := next_pid s, ppid := q, pstate := PROC_READY, timeslice := 5\<rparr>) s)
    \<lparr>next_pid := next_pid s + 1\<rparr>)"
proof -
  have ok: "proc_ok (zero_process\<lparr>pid := n, ppid := q, pstate := PROC_READY, timeslice := 5\<rparr>)" for n
    by (simp add: proc_ok_def zero_process_def)
  have len: "length (proc_table s) = MAX_PROCS" using inv by (simp add: proc_inv_def sched_wf_def)
  have "table_ok ((proc_table s)[i := zero_process\<lparr>pid := next_pid s, ppid := q, pstate := PROC_READY, timeslice := 5\<rparr>])
    (current_proc s) (next_pid s + 1)"
    using inv i len ok unfolding proc_inv_def table_ok_def by (auto simp: nth_list_update live_def)
  then show ?thesis using inv by (simp add: proc_inv_def sched_wf_def upd_proc_def)
qed

lemma upd_upd: "i < length (proc_table s) \<Longrightarrow> upd_proc i f (upd_proc i g s) = upd_proc i (\<lambda>p. f (g p)) s"
  by (simp add: upd_proc_def)

lemma alloc_keeps_inv: "pmm_alloc s = (p, s') \<Longrightarrow> proc_inv s \<Longrightarrow> proc_inv s'" "vmm_new_pml4 s = (p, s') \<Longrightarrow> proc_inv s \<Longrightarrow> proc_inv s'"
  using proc_inv_more [of s' s] more_alloc [of s] more_new_pml4 [of s] by auto

lemma create_inv [inv_intros]:
  assumes inv: "proc_inv s" and step: "proc_create s = (r, s')"
  shows "proc_inv s'"
proof (cases "find (\<lambda>i. pstate (proc_of s i) = PROC_UNUSED) [1..<MAX_PROCS]")
  case None
  then show ?thesis using assms by (simp add: proc_create_def)
next
  case (Some i)
  then have i: "i < MAX_PROCS" "\<not> live (proc_of s i)" by (auto simp: find_Some_iff live_def)
  have len: "i < length (proc_table s)" using inv i by (simp add: proc_inv_def sched_wf_def)
  define q where "q = (case current_proc s of None \<Rightarrow> 0 | Some c \<Rightarrow> pid (proc_of (upd_proc i (\<lambda>_. zero_process) s) c))"
  define s0 where "s0 = (upd_proc i (\<lambda>p. p\<lparr>pid := next_pid s, ppid := q, pstate := PROC_READY, timeslice := 5\<rparr>)
    (upd_proc i (\<lambda>_. zero_process) s))\<lparr>next_pid := next_pid s + 1\<rparr>"
  have inv0: "proc_inv s0" using create_slot_inv [OF inv i, of q] by (simp add: s0_def upd_upd [OF len])
  obtain k s1 where k: "pmm_alloc s0 = (k, s1)" by fastforce
  define s2 where "s2 = upd_proc i (\<lambda>p. p\<lparr>kstack := k\<rparr>) s1"
  have inv2: "proc_inv s2" unfolding s2_def
    by (rule proc_inv_upd [OF alloc_keeps_inv(1) [OF k inv0]]) (simp_all add: proc_ok_def live_def)
  define s3 where "s3 = upd_proc i (\<lambda>p. p\<lparr>rsp := k + KSTACK_SIZE\<rparr>) (s2\<lparr>memory := kmemset (memory s2) k 0 PAGE_SIZE\<rparr>)"
  have "pmm.more (s2\<lparr>memory := kmemset (memory s2) k 0 PAGE_SIZE\<rparr>) = pmm.more s2" by simp
  from proc_inv_more [OF this] have "proc_inv (s2\<lparr>memory := kmemset (memory s2) k 0 PAGE_SIZE\<rparr>)" using inv2 by blast
  then have inv3: "proc_inv s3" unfolding s3_def by (rule proc_inv_upd) simp_all
  obtain t s4 where t: "vmm_new_pml4 s3 = (t, s4)" by fastforce
  define s5 where "s5 = upd_proc i (\<lambda>p. p\<lparr>pml4 := t\<rparr>) s4"
  have inv5: "proc_inv s5" unfolding s5_def by (rule proc_inv_upd [OF alloc_keeps_inv(2) [OF t inv3]]) simp_all
  then have free: "proc_inv (pmm_free k s5)" using proc_inv_more [OF pmm_free_fields(4)] by blast
  have "length (fold (\<lambda>j f. f[j := (f ! j)\<lparr>fd_file := 0\<rparr>]) js f) = length f" for js and f :: "fd_entry list"
    by (induction js arbitrary: f) simp_all
  then have last: "proc_inv (upd_proc i (\<lambda>p. p\<lparr>cwd := d, fds := fold (\<lambda>j f. f[j := (f ! j)\<lparr>fd_file := 0\<rparr>]) js (fds p)\<rparr>) s5)" for d js
    by (intro proc_inv_upd [OF inv5]) (simp_all add: proc_ok_def live_def)
  have eq: "proc_create s = (if k = 0 then (None, s2) else if t = 0 then (None, pmm_free k s5)
     else (Some i, upd_proc i (\<lambda>p. p\<lparr>cwd := (case current_proc s5 of None \<Rightarrow> root_dir | Some c \<Rightarrow> cwd (proc_of s5 c)),
       fds := fold (\<lambda>j f. f[j := (f ! j)\<lparr>fd_file := 0\<rparr>]) [0..<3] (fds p)\<rparr>) s5))"
    unfolding proc_create_def Some option.case
    by (simp add: Let_def q_def [symmetric] s0_def [symmetric] k s2_def [symmetric] s3_def [symmetric] t s5_def [symmetric] del: upt_rec_numeral)
      (unfold s2_def s5_def, simp del: upt_rec_numeral)
  show ?thesis using step inv2 free last unfolding eq by (auto split: if_splits simp del: upt_rec_numeral)
qed

lemma reap_inv [inv_intros]: "proc_inv s \<Longrightarrow> pstate (proc_of s i) = PROC_ZOMBIE \<Longrightarrow> current_proc s \<noteq> Some i
    \<Longrightarrow> proc_inv (upd_proc i (\<lambda>p. p\<lparr>pstate := PROC_UNUSED\<rparr>) s)"
  by (rule proc_inv_upd) (auto simp: live_def)

lemma proc_step_inv: "proc_step s s' \<Longrightarrow> proc_inv s \<Longrightarrow> proc_inv s'"
  by (erule proc_step.cases; hypsubst; (rule inv_intros; assumption)?)

section \<open>Properties\<close>

lemma proc_find_iff: "proc_find n s = Some i \<longleftrightarrow> i < MAX_PROCS \<and> (pid (proc_of s i) = n \<and> live (proc_of s i))
    \<and> (\<forall>k < i. \<not> (pid (proc_of s k) = n \<and> live (proc_of s k)))"
  unfolding proc_find_def find_upt_Some live_def ..


text \<open>The state after boot: process 0 runs, nothing is queued.\<close>

definition proc_boot :: proc_state where
  "proc_boot = proc_demo\<lparr>proc_table := (replicate 256 zero_process)[0 := zero_process\<lparr>pstate := PROC_RUNNING, timeslice := 5\<rparr>]\<rparr>"

lemma proc_boot_inv: "proc_inv proc_boot"
proof -
  have p: "proc_of proc_boot i = (if i = 0 then zero_process\<lparr>pstate := PROC_RUNNING, timeslice := 5\<rparr> else zero_process)"
    if "i < 256" for i using that by (simp add: proc_boot_def nth_list_update)
  have ok: "proc_ok zero_process" "\<not> live zero_process" "pid zero_process = 0" "pstate zero_process \<noteq> PROC_RUNNING"
    by (simp_all add: proc_ok_def live_def zero_process_def)
  have "table_ok (proc_table proc_boot) (Some 0) 1" unfolding table_ok_def using ok by (auto simp: p)
  moreover have "next_pid proc_boot = 1" "q_tail proc_boot = 0" by (simp_all add: proc_boot_def proc_demo_def vmm_state.defs)
  ultimately show ?thesis by (simp add: proc_inv_def sched_wf_def) (simp add: proc_boot_def proc_demo_simps)
qed


end
