(* ===== verification/Elf.thy ===== *)
theory Elf
  imports Vmm "HOL-Library.Monad_Syntax"
begin

text \<open>
  The program loader, \<open>kernel/proc/elf.c\<close>, with the layout of the packed structures of \<open>elf.h\<close>.  The
  image is read from the modelled memory, field by field, whenever the code reads it.
\<close>

section \<open>The headers\<close>

abbreviation ELF_MAGIC :: u32 where "ELF_MAGIC \<equiv> 0x464C457F"
abbreviation ET_EXEC :: u16 where "ET_EXEC \<equiv> 2"
abbreviation EM_X86_64 :: u16 where "EM_X86_64 \<equiv> 62"
abbreviation PT_LOAD :: u32 where "PT_LOAD \<equiv> 1"
abbreviation PF_W :: u32 where "PF_W \<equiv> 2"
abbreviation USER_LOAD_BASE :: u64 where "USER_LOAD_BASE \<equiv> 0x400000"

text \<open>The fields that the loader reads, with the offsets of the packed layout.\<close>

record elf64_ehdr =
  e_magic :: u32
  e_class :: u8
  e_data :: u8
  e_type :: u16
  e_machine :: u16
  e_entry :: u64
  e_phoff :: u64
  e_phentsize :: u16
  e_phnum :: u16

definition read_ehdr :: "mem \<Rightarrow> u64 \<Rightarrow> elf64_ehdr" where
  "read_ehdr m a = \<lparr>e_magic = load32 m a, e_class = m (a + 4), e_data = m (a + 5),
     e_type = load16 m (a + 16), e_machine = load16 m (a + 18), e_entry = load64 m (a + 24),
     e_phoff = load64 m (a + 32), e_phentsize = load16 m (a + 54), e_phnum = load16 m (a + 56)\<rparr>"

record elf64_phdr =
  p_type :: u32
  p_flags :: u32
  p_offset :: u64
  p_vaddr :: u64
  p_filesz :: u64
  p_memsz :: u64

definition read_phdr :: "mem \<Rightarrow> u64 \<Rightarrow> elf64_phdr" where
  "read_phdr m a = \<lparr>p_type = load32 m a, p_flags = load32 m (a + 4), p_offset = load64 m (a + 8),
     p_vaddr = load64 m (a + 16), p_filesz = load64 m (a + 32), p_memsz = load64 m (a + 40)\<rparr>"

record elf_info =
  entry :: u64
  load_end :: u64
  valid :: bool

definition elf_validate :: "mem \<Rightarrow> u64 \<Rightarrow> u64 \<Rightarrow> bool" where
  "elf_validate m data sz \<longleftrightarrow>
     (let hdr = read_ehdr m data in
      sz \<ge> 64 \<and> e_magic hdr = ELF_MAGIC \<and> e_class hdr = 2 \<and> e_data hdr = 1 \<and>
      e_type hdr = ET_EXEC \<and> e_machine hdr = EM_X86_64)"

section \<open>Segments\<close>

definition seg_start :: "elf64_phdr \<Rightarrow> u64" where
  "seg_start ph = p_vaddr ph AND NOT (PAGE_SIZE - 1)"

definition seg_end :: "elf64_phdr \<Rightarrow> u64" where
  "seg_end ph = (p_vaddr ph + p_memsz ph + PAGE_SIZE - 1) AND NOT (PAGE_SIZE - 1)"

definition seg_flags :: "elf64_phdr \<Rightarrow> u64" where
  "seg_flags ph = (VMM_PRESENT OR VMM_USER) OR (if p_flags ph AND PF_W \<noteq> 0 then VMM_WRITABLE else 0)"

text \<open>The bytes of the file that belong on the page at \<open>va\<close>.\<close>

definition fill_page :: "u64 \<Rightarrow> elf64_phdr \<Rightarrow> u64 \<Rightarrow> u64 \<Rightarrow> mem \<Rightarrow> mem" where
  "fill_page base ph va page m =
     (if va \<ge> p_vaddr ph \<and> p_filesz ph > 0 then
        let off = va - p_vaddr ph in
        if off < p_filesz ph then
          let copy = (if PAGE_SIZE > p_filesz ph - off then p_filesz ph - off else PAGE_SIZE)
          in kmemcpy m page (base + p_offset ph + off) copy
        else m
      else if p_vaddr ph > va then
        let off = p_vaddr ph - va;
            copy = (if PAGE_SIZE - off > p_filesz ph then p_filesz ph else PAGE_SIZE - off)
        in if copy > 0 then kmemcpy m (page + off) (base + p_offset ph) copy else m
      else m)"

text \<open>One iteration of the loop over the pages; \<open>False\<close> is the return on a failed allocation.\<close>

definition load_page :: "u64 \<Rightarrow> u64 \<Rightarrow> u64 \<Rightarrow> u64 \<Rightarrow> 'a pmm_scheme \<Rightarrow> bool \<times> 'a pmm_scheme" where
  "load_page pml4 base ph va s =
     (case pmm_alloc s of (page, s) \<Rightarrow>
      if page = 0 then (False, s) else
      let s = s\<lparr>memory := kmemset (memory s) page 0 PAGE_SIZE\<rparr>;
          hdr = read_phdr (memory s) ph;
          s = s\<lparr>memory := fill_page base hdr va page (memory s)\<rparr>
      in (True, vmm_map pml4 va page (seg_flags hdr) s))"

partial_function (option) load_pages ::
  "u64 \<Rightarrow> u64 \<Rightarrow> u64 \<Rightarrow> u64 \<Rightarrow> u64 \<Rightarrow> 'a pmm_scheme \<Rightarrow> (bool \<times> 'a pmm_scheme) option" where
  "load_pages pml4 base ph va vend s =
     (if va < vend then
        case load_page pml4 base ph va s of (ok, s) \<Rightarrow>
        if ok then load_pages pml4 base ph (va + PAGE_SIZE) vend s else Some (False, s)
      else Some (True, s))"

definition load_segment :: "u64 \<Rightarrow> u64 \<Rightarrow> u64 \<Rightarrow> elf_info \<Rightarrow> 'a pmm_scheme \<Rightarrow> (bool \<times> elf_info \<times> 'a pmm_scheme) option" where
  "load_segment pml4 base ph info s =
     (let hdr = read_phdr (memory s) ph in
      if p_type hdr \<noteq> PT_LOAD \<or> p_memsz hdr = 0 then Some (True, info, s) else
      if p_vaddr hdr < USER_LOAD_BASE then Some (False, info, s) else do {
        (ok, s) \<leftarrow> load_pages pml4 base ph (seg_start hdr) (seg_end hdr) s;
        Some (ok, if ok \<and> seg_end hdr > load_end info then info\<lparr>load_end := seg_end hdr\<rparr> else info, s)})"

function load_segments :: "u64 \<Rightarrow> u64 \<Rightarrow> nat \<Rightarrow> elf_info \<Rightarrow> 'a pmm_scheme \<Rightarrow> (bool \<times> elf_info \<times> 'a pmm_scheme) option" where
  "load_segments pml4 base i info s =
     (let hdr = read_ehdr (memory s) base in
      if i < unat (e_phnum hdr) then
        case load_segment pml4 base (base + e_phoff hdr + of_nat i * ucast (e_phentsize hdr)) info s of
          None \<Rightarrow> None
        | Some (ok, info, s) \<Rightarrow> if ok then load_segments pml4 base (Suc i) info s else Some (False, info, s)
      else Some (True, info, s))"
  by pat_completeness auto
termination
proof (relation "measure (\<lambda>(pml4, base, i, info, s). 65536 - i)", goal_cases)
  case (2 pml4 base i info s hdr x2 ok r info' s')
  then show ?case using unat_bound [of "e_phnum (read_ehdr (memory s) base)"] by auto
qed auto

declare load_segments.simps [simp del]

definition elf_load :: "u64 \<Rightarrow> u64 \<Rightarrow> u64 \<Rightarrow> 'a pmm_scheme \<Rightarrow> (elf_info \<times> 'a pmm_scheme) option" where
  "elf_load pml4 data sz s =
     (let info = \<lparr>entry = 0, load_end = 0, valid = False\<rparr> in
      if \<not> elf_validate (memory s) data sz then Some (info, s) else do {
        (ok, info, s) \<leftarrow> load_segments pml4 data 0 info s;
        if ok then Some (info\<lparr>entry := e_entry (read_ehdr (memory s) data), valid := True\<rparr>, s)
        else Some (info, s)})"

end
