(* ===== verification/HeapFrame.thy ===== *)
theory HeapFrame
  imports Vmm
begin

text \<open>
  What the allocators leave alone: the frame allocator changes its own fields and the memory, the slab
  allocator those of the caches, the kernel heap those of the memory manager.  Everything that a later
  component adds to the state is kept.
\<close>

section \<open>Frames\<close>

lemma pmm_scan_more [simp]: "pmm.more (snd (pmm_scan i s)) = pmm.more s"
proof (induction i s rule: pmm_scan.induct)
  case (1 i s)
  then show ?case by (subst pmm_scan.simps) (cases "i < total_pages s"; cases "bm_test i s"; simp)
qed

lemma pmm_alloc_more: "pmm_alloc s = (p, s') \<Longrightarrow> pmm.more s' = pmm.more s"
  by (metis pmm_alloc_def pmm_scan_more snd_conv)

lemma pmm_more_slab: "pmm.more s = pmm.more t \<Longrightarrow> slab_state.more s = slab_state.more t"
  by (cases s; cases t) simp

lemma slab_more_vmm: "slab_state.more s = slab_state.more t \<Longrightarrow> vmm_state.more s = vmm_state.more t"
  by (cases s; cases t) simp

lemma free_large_more [simp]: "pmm.more (free_large ptr j i s) = pmm.more s"
proof (induction ptr j i s rule: free_large.induct)
  case (1 ptr j i s)
  then show ?case by (subst free_large.simps) simp
qed

lemma alloc_large_more: "pmm.more (snd (alloc_large ptr i pages s)) = pmm.more s"
proof (induction ptr i pages s rule: alloc_large.induct)
  case (1 ptr i pages s)
  then show ?case
    by (subst alloc_large.simps) (auto simp: Let_def pmm_alloc_more split: prod.splits)
qed

lemma heap_extend_more: "pmm.more (snd (heap_extend p got pages s)) = pmm.more s"
proof (induction p got pages s rule: heap_extend.induct)
  case (1 p got pages s)
  then show ?case
    by (subst heap_extend.simps) (auto simp: Let_def pmm_alloc_more split: prod.splits)
qed

section \<open>The slab allocator\<close>

lemmas pmm_keeps_slab = pmm_more_slab [OF pmm_alloc_more]

lemma set_cache_more [simp]: "slab_state.more (set_cache c f s) = slab_state.more s"
  by (simp add: set_cache_def)

lemma slab_grow_more: "slab_grow c s = (p, s') \<Longrightarrow> slab_state.more s' = slab_state.more s"
  by (auto simp: slab_grow_def slab_create_def Let_def split: prod.splits if_splits dest: pmm_keeps_slab)

lemma slab_take_more: "slab_take c slab i s = Some (p, s') \<Longrightarrow> slab_state.more s' = slab_state.more s"
  by (auto simp: slab_take_def Let_def split: if_splits bind_splits)

lemma slab_alloc_more: "slab_alloc c s = Some (p, s') \<Longrightarrow> slab_state.more s' = slab_state.more s"
  by (auto simp: slab_alloc_def Let_def split: if_splits prod.splits option.splits dest!: slab_grow_more slab_take_more)

lemma pmm_free_slab [simp]: "slab_state.more (pmm_free p s) = slab_state.more s"
  by (rule pmm_more_slab) simp

lemma slab_free_more: "slab_free c p s = Some s' \<Longrightarrow> slab_state.more s' = slab_state.more s"
  by (auto simp: slab_free_def slab_relist_def slab_shrink_def Let_def split: if_splits option.splits bind_splits)

lemma kmalloc_slab_more: "kmalloc_slab sz s = Some (p, s') \<Longrightarrow> slab_state.more s' = slab_state.more s"
  by (auto simp: kmalloc_slab_def Let_def split: if_splits prod.splits option.splits
      dest!: slab_alloc_more pmm_keeps_slab)
    (metis alloc_large_more pmm_more_slab snd_conv)

lemma kfree_slab_more: "kfree_slab p s = Some s' \<Longrightarrow> slab_state.more s' = slab_state.more s"
  by (auto simp: kfree_slab_def Let_def split: if_splits option.splits dest: slab_free_more)

section \<open>The kernel heap\<close>

lemma pmm_more_vmm: "pmm.more s = pmm.more t \<Longrightarrow> vmm_state.more s = vmm_state.more t"
  by (rule slab_more_vmm) (rule pmm_more_slab)

lemma kmalloc_more: "kmalloc sz s = Some (p, s') \<Longrightarrow> vmm_state.more s' = vmm_state.more s"
proof (cases "slab_ready s")
  case True
  then show "kmalloc sz s = Some (p, s') \<Longrightarrow> ?thesis"
    by (intro slab_more_vmm) (simp add: kmalloc_def kmalloc_slab_more)
next
  case False
  define sz' where "sz' = (sz + 15) AND NOT 15"
  define pages where "pages = (sz' + PAGE_SIZE - 1) div PAGE_SIZE"
  obtain q t where q: "pmm_alloc s = (q, t)" by (cases "pmm_alloc s")
  obtain got u where u: "heap_extend q 1 pages t = (got, u)" by (cases "heap_extend q 1 pages t")
  have t: "vmm_state.more t = vmm_state.more s" by (rule pmm_more_vmm) (rule pmm_alloc_more [OF q])
  have u': "vmm_state.more u = vmm_state.more t"
    using heap_extend_more [of q 1 pages t] by (intro pmm_more_vmm) (simp only: u snd_conv)
  have f: "vmm_state.more (free_large q 0 got u) = vmm_state.more u" by (rule pmm_more_vmm) simp
  assume k: "kmalloc sz s = Some (p, s')"
  from k False show ?thesis
    unfolding kmalloc_def Let_def sz'_def [symmetric] pages_def [symmetric] q prod.case u
    by (simp only: if_False option.inject prod.inject split: if_splits) (use t u' f in auto)
qed

lemma kfree_more: "kfree p s = Some s' \<Longrightarrow> vmm_state.more s' = vmm_state.more s"
  by (auto simp: kfree_def split: if_splits dest!: kfree_slab_more slab_more_vmm)

text \<open>Before \<open>vmm_init\<close> the heap hands out pages of the boot heap, and every call returns.\<close>

lemma pmm_more_ready: "pmm.more s = pmm.more t \<Longrightarrow> slab_ready s = slab_ready t"
  by (cases s; cases t) simp

lemma kmalloc_boot:
  assumes "\<not> slab_ready s"
  shows "\<exists>p s'. kmalloc sz s = Some (p, s') \<and> \<not> slab_ready s'"
proof -
  define sz' where "sz' = (sz + 15) AND NOT 15"
  define pages where "pages = (sz' + PAGE_SIZE - 1) div PAGE_SIZE"
  obtain q t where q: "pmm_alloc s = (q, t)" by (cases "pmm_alloc s")
  obtain got u where u: "heap_extend q 1 pages t = (got, u)" by (cases "heap_extend q 1 pages t")
  have t: "slab_ready t = slab_ready s" by (rule pmm_more_ready) (rule pmm_alloc_more [OF q])
  have u': "slab_ready u = slab_ready t"
    using heap_extend_more [of q 1 pages t] by (intro pmm_more_ready) (simp only: u snd_conv)
  have f: "slab_ready (free_large q 0 got u) = slab_ready u" by (rule pmm_more_ready) simp
  show ?thesis
    unfolding kmalloc_def Let_def sz'_def [symmetric] pages_def [symmetric] q prod.case u
    using assms t u' f by simp
qed

lemma kfree_boot: "\<not> slab_ready s \<Longrightarrow> kfree p s = Some s"
  by (simp add: kfree_def)

end
