(* ===== verification/FsTypes.thy ===== *)
theory FsTypes
  imports ProcessInv HeapFrame "HOL-Library.Monad_Syntax"
begin

text \<open>
  The data of the virtual file system, \<open>kernel/fs/vfs.h\<close>, with the objects of its four back ends
  (\<open>ramfs.c\<close>, \<open>procfs.c\<close>, \<open>ipc/pipe.c\<close>, the terminal device of \<open>drivers/tty.c\<close>), the keyboard buffer of
  \<open>drivers/keyboard.c\<close>, and the mount table of \<open>vfs.c\<close>.

  A path or a name is the list of its characters without the final NUL.  Objects from \<open>kmalloc\<close> are
  typed values keyed by their address; the nodes of the RAM file system are a static array and are
  named by their index.  A table of function pointers is the name of the table, the dispatch is a case
  distinction.  An operation of type option has the value \<open>None\<close> where the code does not come back: it
  spins on an empty buffer, or \<open>kstrncpy\<close> runs over the memory because its source does not fit.
\<close>

section \<open>Objects\<close>

datatype file_type_t = FT_UNKNOWN | FT_REG | FT_DIR | FT_CHR | FT_BLK | FT_FIFO | FT_LNK

datatype fs_ops = ramfs_ops | procfs_ops | pipe_ops | tty_dev_ops

abbreviation O_RDONLY :: u32 where "O_RDONLY \<equiv> 0"
abbreviation O_WRONLY :: u32 where "O_WRONLY \<equiv> 1"
abbreviation O_RDWR :: u32 where "O_RDWR \<equiv> 2"
abbreviation O_CREAT :: u32 where "O_CREAT \<equiv> 0x40"
abbreviation O_TRUNC :: u32 where "O_TRUNC \<equiv> 0x200"
abbreviation O_APPEND :: u32 where "O_APPEND \<equiv> 0x400"

abbreviation ENOENT :: int where "ENOENT \<equiv> 2"
abbreviation EBADF :: int where "EBADF \<equiv> 9"
abbreviation ENOMEM :: int where "ENOMEM \<equiv> 12"
abbreviation EACCES :: int where "EACCES \<equiv> 13"
abbreviation EINVAL :: int where "EINVAL \<equiv> 22"
abbreviation EMFILE :: int where "EMFILE \<equiv> 24"
abbreviation ENOSPC :: int where "ENOSPC \<equiv> 28"

datatype inode_ptr = Node_inode nat | Heap_inode u64

record inode =
  ino :: u64
  itype :: file_type_t
  isize :: u64
  imode :: u32
  iops :: "fs_ops option"
  iprivate :: u64

record file_t =
  f_inode :: inode_ptr
  fpos :: u64
  fflags :: u32
  frefcount :: int
  f_ops :: "fs_ops option"

record ramfs_node =
  rname :: "u8 list"
  rtype :: file_type_t
  rdata :: u64
  rsize :: u64
  rcapacity :: u64
  rinode :: inode
  rchildren :: "nat list"

record pipe =
  pbuf :: "u8 list"
  phead :: nat
  ptail :: nat
  pcount :: nat
  read_closed :: bool
  write_closed :: bool
  prefcount :: int

record proc_priv =
  pp_type :: nat
  pp_pid :: int

record mount =
  m_path :: "u8 list"
  m_ops :: fs_ops
  m_root :: "inode_ptr option"
  m_active :: bool

record fs_state = proc_state +
  mounts :: "mount list"
  mount_count :: nat
  nodes :: "ramfs_node list"
  files :: "u64 \<Rightarrow> file_t"
  inodes :: "u64 \<Rightarrow> inode"
  pipes :: "u64 \<Rightarrow> pipe"
  proc_privs :: "u64 \<Rightarrow> proc_priv"
  kbd_buf :: "u8 list"
  kbd_head :: nat
  kbd_tail :: nat
  kbd_shift :: bool
  tty_out :: "u8 list"

definition zero_inode :: inode where
  "zero_inode = \<lparr>ino = 0, itype = FT_UNKNOWN, isize = 0, imode = 0, iops = None, iprivate = 0\<rparr>"

text \<open>Reading and writing through an \<open>inode_t *\<close>.\<close>

definition get_inode :: "'a fs_state_scheme \<Rightarrow> inode_ptr \<Rightarrow> inode" where
  "get_inode s p = (case p of Node_inode n \<Rightarrow> rinode (nodes s ! n) | Heap_inode a \<Rightarrow> inodes s a)"

definition upd_node :: "nat \<Rightarrow> (ramfs_node \<Rightarrow> ramfs_node) \<Rightarrow> 'a fs_state_scheme \<Rightarrow> 'a fs_state_scheme" where
  "upd_node n f s = s\<lparr>nodes := (nodes s)[n := f (nodes s ! n)]\<rparr>"

definition upd_inode :: "inode_ptr \<Rightarrow> (inode \<Rightarrow> inode) \<Rightarrow> 'a fs_state_scheme \<Rightarrow> 'a fs_state_scheme" where
  "upd_inode p f s = (case p of
     Node_inode n \<Rightarrow> upd_node n (\<lambda>r. r\<lparr>rinode := f (rinode r)\<rparr>) s
   | Heap_inode a \<Rightarrow> s\<lparr>inodes := (inodes s)(a := f (inodes s a))\<rparr>)"

text \<open>A string literal.\<close>

definition str :: "string \<Rightarrow> u8 list" where
  "str cs = map of_char cs"

text \<open>\<open>kstrncpy\<close> into an array of \<open>n\<close> bytes: it is safe only for a string that leaves room for the NUL.\<close>

definition copy_name :: "nat \<Rightarrow> u8 list \<Rightarrow> u8 list option" where
  "copy_name n src = (if length src < n then Some src else None)"

text \<open>Bytes of a local array, copied into the memory by \<open>kmemcpy\<close>.\<close>

fun store_bytes :: "mem \<Rightarrow> u64 \<Rightarrow> u8 list \<Rightarrow> mem" where
  "store_bytes m a [] = m"
| "store_bytes m a (b # bs) = store_bytes (m(a := b)) (a + 1) bs"

definition bytes_at :: "mem \<Rightarrow> u64 \<Rightarrow> nat \<Rightarrow> u8 list" where
  "bytes_at m a n = map (\<lambda>i. m (a + of_nat i)) [0..<n]"

lemma bytes_at_0 [simp]: "bytes_at m a 0 = []"
  by (simp add: bytes_at_def)

lemma length_bytes_at [simp]: "length (bytes_at m a n) = n"
  by (simp add: bytes_at_def)

lemma bytes_at_Suc: "bytes_at m a (Suc n) = m a # bytes_at m (a + 1) n"
  by (simp add: bytes_at_def upt_conv_Cons map_Suc_upt [symmetric] add.assoc del: upt_Suc)

lemma bytes_at_snoc: "k < 2 ^ 64 \<Longrightarrow> bytes_at (m(a + of_nat k := c)) a (Suc k) = bytes_at m a k @ [c]"
  by (auto simp: bytes_at_def word_of_nat_eq_iff take_bit_nat_eq_self)

lemma bytes_at_butlast: "bytes_at m a (k - 1) = butlast (bytes_at m a k)"
  by (cases k) (simp_all add: bytes_at_def)

lemma sint_small: "unat n < 2 ^ 63 \<Longrightarrow> sint n = int (unat n)" for n :: u64
proof -
  assume "unat n < 2 ^ 63"
  then have "int (unat n) < int (2 ^ 63)" by (simp only: of_nat_less_iff)
  then have "uint n < 2 ^ 63" by simp
  moreover have "- (2 ^ 63) \<le> uint n" by (rule order_trans [OF _ unsigned_greater_eq]) simp
  ultimately have "signed_take_bit 63 (uint n) = uint n" by (intro signed_take_bit_int_eq_self)
  then show "sint n = int (unat n)" by (simp add: sint_uint)
qed

lemma store_bytes_apply:
  assumes "length bs < 2 ^ 64"
  shows "store_bytes m a bs x = (if unat (x - a) < length bs then bs ! unat (x - a) else m x)"
  using assms
proof (induction m a bs rule: store_bytes.induct)
  case (2 m a b bs)
  have "x \<noteq> a \<Longrightarrow> unat (x - a) = Suc (unat (x - (a + 1)))"
    using unat_minus_one [of "x - a"] by (simp add: diff_diff_add unat_eq_0 gr0_conv_Suc [symmetric] unat_gt_0)
  moreover have "unat (- 1 :: u64) = 2 ^ 64 - 1"
    by (simp add: unsigned_minus_1_eq_mask mask_eq_exp_minus_1)
  ultimately show ?case using 2 by (cases "x = a") auto
qed simp

lemma bytes_at_store_bytes: "length bs < 2 ^ 64 \<Longrightarrow> bytes_at (store_bytes m a bs) a (length bs) = bs"
  by (auto simp: bytes_at_def store_bytes_apply unat_of_nat intro: nth_equalityI)

section \<open>The mount table\<close>

abbreviation MAX_MOUNTS :: nat where "MAX_MOUNTS \<equiv> 32"

definition vfs_init :: "'a fs_state_scheme \<Rightarrow> 'a fs_state_scheme" where
  "vfs_init s = s\<lparr>mounts := replicate MAX_MOUNTS \<lparr>m_path = [], m_ops = ramfs_ops, m_root = None, m_active = False\<rparr>\<rparr>"

definition vfs_mount_root :: "u8 list \<Rightarrow> fs_ops \<Rightarrow> inode_ptr option \<Rightarrow> 'a fs_state_scheme
    \<Rightarrow> (int \<times> 'a fs_state_scheme) option" where
  "vfs_mount_root path ops root s =
     (if mount_count s \<ge> MAX_MOUNTS then Some (-ENOSPC, s) else do {
        p \<leftarrow> copy_name 256 path;
        Some (0, s\<lparr>mounts := (mounts s)[mount_count s := \<lparr>m_path = p, m_ops = ops, m_root = root, m_active = True\<rparr>],
                   mount_count := mount_count s + 1\<rparr>)})"

definition vfs_mount :: "u8 list \<Rightarrow> fs_ops \<Rightarrow> 'a fs_state_scheme \<Rightarrow> (int \<times> 'a fs_state_scheme) option" where
  "vfs_mount path ops s = vfs_mount_root path ops None s"

text \<open>\<open>kstrncmp(path, m->path, len) == 0\<close> for the length of \<open>m->path\<close>: the mount path is a prefix.\<close>

definition mount_matches :: "u8 list \<Rightarrow> mount \<Rightarrow> bool" where
  "mount_matches path m \<longleftrightarrow> take (length (m_path m)) path = m_path m"

definition better_mount :: "u8 list \<Rightarrow> 'a fs_state_scheme \<Rightarrow> nat \<Rightarrow> mount option \<times> nat \<Rightarrow> mount option \<times> nat" where
  "better_mount path s i = (\<lambda>(best, best_len).
     let m = mounts s ! i in
     if \<not> m_active m then (best, best_len) else
     let len = length (m_path m) in
     if mount_matches path m \<and> len > best_len then (Some m, len) else (best, best_len))"

definition find_mount :: "u8 list \<Rightarrow> 'a fs_state_scheme \<Rightarrow> mount option" where
  "find_mount path s = fst (fold (better_mount path s) [0..<MAX_MOUNTS] (None, 0))"

section \<open>The heap leaves the file system alone\<close>

lemma fs_more:
  assumes "vmm_state.more s = vmm_state.more t"
  shows "nodes s = nodes t" "files s = files t" "inodes s = inodes t" "pipes s = pipes t" "mounts s = mounts t"
    "mount_count s = mount_count t" "proc_privs s = proc_privs t" "tty_out s = tty_out t" "kbd_buf s = kbd_buf t"
    "kbd_head s = kbd_head t" "kbd_tail s = kbd_tail t" "proc_table s = proc_table t" "current_proc s = current_proc t"
  using assms by (cases s; cases t; simp)+

lemmas kmalloc_fs = fs_more [OF kmalloc_more]
lemmas kfree_fs = fs_more [OF kfree_more]

section \<open>A sample state\<close>

definition fs_demo :: fs_state where
  "fs_demo = proc_state.extend proc_demo \<lparr>mounts = [], mount_count = 0, nodes = [],
     files = (\<lambda>_. \<lparr>f_inode = Node_inode 0, fpos = 0, fflags = 0, frefcount = 0, f_ops = None\<rparr>),
     inodes = (\<lambda>_. zero_inode),
     pipes = (\<lambda>_. \<lparr>pbuf = [], phead = 0, ptail = 0, pcount = 0, read_closed = False, write_closed = False, prefcount = 0\<rparr>),
     proc_privs = (\<lambda>_. \<lparr>pp_type = 0, pp_pid = 0\<rparr>),
     kbd_buf = replicate 512 0, kbd_head = 0, kbd_tail = 0, kbd_shift = False, tty_out = []\<rparr>"

lemma fs_demo_simps:
  "memory fs_demo = memory vm_demo" "mounts fs_demo = []" "nodes fs_demo = []" "inodes fs_demo = (\<lambda>_. zero_inode)"
  "kbd_buf fs_demo = replicate 512 0" "kbd_head fs_demo = 0" "kbd_tail fs_demo = 0" "tty_out fs_demo = []"
  "kbd_shift fs_demo = False" "mount_count fs_demo = 0" "current_proc fs_demo = Some 0"
  "proc_table fs_demo = replicate 256 zero_process" "\<not> slab_ready fs_demo"
  by (simp_all add: fs_demo_def proc_state.defs proc_demo_simps) (simp add: proc_demo_def vmm_state.defs vm_demo_def)

end
