(* ===== verification/Ramfs.thy ===== *)
theory Ramfs
  imports FsTypes "HOL-Library.Multiset"
begin

text \<open>
  The RAM file system, \<open>kernel/fs/ramfs.c\<close>.  \<open>nodes\<close> holds the nodes allocated so far (\<open>node_count\<close> is
  its length), \<open>rchildren\<close> the first \<open>child_count\<close> entries of \<open>children\<close>.  The contents of a file are
  the bytes of the modelled memory from \<open>data\<close> on.  The operations on an open file take and return the
  \<open>file_t\<close> that the pointer refers to.
\<close>

abbreviation RAMFS_MAX_NODES :: nat where "RAMFS_MAX_NODES \<equiv> 2048"
abbreviation RAMFS_MAX_CHILDREN :: nat where "RAMFS_MAX_CHILDREN \<equiv> 128"

text \<open>\<open>ino\<close> is the address of the node: the address of the array and the size of a node are arguments of
  nothing else, so the index stands for it.\<close>

definition alloc_node :: "u8 list \<Rightarrow> file_type_t \<Rightarrow> 'a fs_state_scheme \<Rightarrow> (nat option \<times> 'a fs_state_scheme) option" where
  "alloc_node name ty s =
     (if length (nodes s) \<ge> RAMFS_MAX_NODES then Some (None, s) else do {
        nm \<leftarrow> copy_name 255 name;
        let n = length (nodes s);
        Some (Some n, s\<lparr>nodes := nodes s @ [\<lparr>rname = nm, rtype = ty, rdata = 0, rsize = 0, rcapacity = 0,
          rinode = zero_inode\<lparr>ino := of_nat n, itype := ty\<rparr>, rchildren = []\<rparr>]\<rparr>)})"

text \<open>The node that \<open>inode->private\<close> points to.\<close>

fun node_of :: "inode_ptr \<Rightarrow> nat" where
  "node_of (Node_inode n) = n"
| "node_of (Heap_inode a) = 0"

definition ramfs_read :: "file_t \<Rightarrow> u64 \<Rightarrow> u64 \<Rightarrow> 'a fs_state_scheme \<Rightarrow> int \<times> file_t \<times> 'a fs_state_scheme" where
  "ramfs_read f buf n s =
     (let node = nodes s ! node_of (f_inode f) in
      if rdata node = 0 \<or> fpos f \<ge> rsize node then (0, f, s) else
      let avail = rsize node - fpos f;
          n = (if n > avail then avail else n)
      in (sint n, f\<lparr>fpos := fpos f + n\<rparr>, s\<lparr>memory := kmemcpy (memory s) buf (rdata node + fpos f) n\<rparr>))"

text \<open>The reallocation branch of \<open>ramfs_write\<close>.\<close>

definition ramfs_grow :: "nat \<Rightarrow> u64 \<Rightarrow> 'a fs_state_scheme \<Rightarrow> (bool \<times> 'a fs_state_scheme) option" where
  "ramfs_grow nd new_cap s = do {
     (new_data, s) \<leftarrow> kmalloc new_cap s;
     if new_data = 0 then Some (False, s) else do {
       let node = nodes s ! nd;
       s \<leftarrow> (if rdata node \<noteq> 0
             then kfree (rdata node) (s\<lparr>memory := kmemcpy (memory s) new_data (rdata node) (rsize node)\<rparr>)
             else Some s);
       Some (True, upd_node nd (\<lambda>r. r\<lparr>rdata := new_data, rcapacity := new_cap\<rparr>) s)}}"

definition ramfs_write :: "file_t \<Rightarrow> u64 \<Rightarrow> u64 \<Rightarrow> 'a fs_state_scheme \<Rightarrow> (int \<times> file_t \<times> 'a fs_state_scheme) option" where
  "ramfs_write f buf n s = do {
     let nd = node_of (f_inode f);
     (ok, s) \<leftarrow> (if fpos f + n > rcapacity (nodes s ! nd) then ramfs_grow nd (fpos f + n + 4096) s else Some (True, s));
     if \<not> ok then Some (-ENOSPC, f, s) else do {
       let s = s\<lparr>memory := kmemcpy (memory s) (rdata (nodes s ! nd) + fpos f) buf n\<rparr>;
       let f = f\<lparr>fpos := fpos f + n\<rparr>;
       let s = (if fpos f > rsize (nodes s ! nd)
                then upd_inode (f_inode f) (\<lambda>i. i\<lparr>isize := fpos f\<rparr>) (upd_node nd (\<lambda>r. r\<lparr>rsize := fpos f\<rparr>) s) else s);
       Some (sint n, f, s)}}"

definition ramfs_lookup :: "inode_ptr \<Rightarrow> u8 list \<Rightarrow> 'a fs_state_scheme \<Rightarrow> inode_ptr option" where
  "ramfs_lookup dir name s =
     map_option Node_inode (find (\<lambda>c. rname (nodes s ! c) = name) (rchildren (nodes s ! node_of dir)))"

definition ramfs_create :: "inode_ptr \<Rightarrow> u8 list \<Rightarrow> file_type_t \<Rightarrow> 'a fs_state_scheme \<Rightarrow> (int \<times> 'a fs_state_scheme) option" where
  "ramfs_create dir name ty s =
     (let d = node_of dir in
      if length (rchildren (nodes s ! d)) \<ge> RAMFS_MAX_CHILDREN then Some (-ENOSPC, s) else do {
        (r, s) \<leftarrow> alloc_node name ty s;
        case r of None \<Rightarrow> Some (-ENOSPC, s)
        | Some n \<Rightarrow> Some (0, upd_node d (\<lambda>r. r\<lparr>rchildren := rchildren r @ [n]\<rparr>)
            (upd_node n (\<lambda>r. r\<lparr>rinode := (rinode r)\<lparr>iops := Some ramfs_ops\<rparr>\<rparr>) s))})"

text \<open>\<open>children[i] = children[--child_count]\<close>: the last child takes the free slot.\<close>

definition swap_remove :: "nat \<Rightarrow> 'b list \<Rightarrow> 'b list" where
  "swap_remove i xs = butlast (xs[i := last xs])"

definition ramfs_unlink :: "inode_ptr \<Rightarrow> u8 list \<Rightarrow> 'a fs_state_scheme \<Rightarrow> int \<times> 'a fs_state_scheme" where
  "ramfs_unlink dir name s =
     (let d = node_of dir; cs = rchildren (nodes s ! d) in
      case find (\<lambda>i. rname (nodes s ! (cs ! i)) = name) [0..<length cs] of
        None \<Rightarrow> (-ENOENT, s)
      | Some i \<Rightarrow> (0, upd_node d (\<lambda>r. r\<lparr>rchildren := swap_remove i (rchildren r)\<rparr>) s))"

text \<open>The directory entry is returned by value: its name and its inode.\<close>

definition ramfs_readdir :: "file_t \<Rightarrow> 'a fs_state_scheme \<Rightarrow> (u8 list \<times> inode_ptr) option \<times> file_t" where
  "ramfs_readdir f s =
     (let cs = rchildren (nodes s ! node_of (f_inode f)); idx = unat (fpos f) in
      if idx \<ge> length cs then (None, f)
      else (Some (rname (nodes s ! (cs ! idx)), Node_inode (cs ! idx)), f\<lparr>fpos := fpos f + 1\<rparr>))"

definition ramfs_seek :: "file_t \<Rightarrow> u64 \<Rightarrow> int \<Rightarrow> 'a fs_state_scheme \<Rightarrow> int \<times> file_t" where
  "ramfs_seek f off whence s =
     (let sz = isize (get_inode s (f_inode f)) in
      if whence = 0 then (sint off, f\<lparr>fpos := off\<rparr>)
      else if whence = 1 then (sint (fpos f + off), f\<lparr>fpos := fpos f + off\<rparr>)
      else if whence = 2 then (sint (sz + off), f\<lparr>fpos := sz + off\<rparr>)
      else (-EINVAL, f))"

definition ramfs_dirs :: "u8 list list" where
  "ramfs_dirs = map str [''bin'', ''dev'', ''etc'', ''tmp'', ''home'', ''proc'', ''var'']"

definition ramfs_add_dir :: "nat \<Rightarrow> u8 list \<Rightarrow> 'a fs_state_scheme \<Rightarrow> 'a fs_state_scheme option" where
  "ramfs_add_dir root name s = do {
     (r, s) \<leftarrow> alloc_node name FT_DIR s;
     case r of None \<Rightarrow> Some s
     | Some d \<Rightarrow> Some (upd_node root (\<lambda>r. r\<lparr>rchildren := rchildren r @ [d]\<rparr>)
         (upd_node d (\<lambda>r. r\<lparr>rinode := (rinode r)\<lparr>iops := Some ramfs_ops\<rparr>\<rparr>) s))}"

fun ramfs_add_dirs :: "nat \<Rightarrow> u8 list list \<Rightarrow> 'a fs_state_scheme \<Rightarrow> 'a fs_state_scheme option" where
  "ramfs_add_dirs root [] s = Some s"
| "ramfs_add_dirs root (d # ds) s = do { s \<leftarrow> ramfs_add_dir root d s; ramfs_add_dirs root ds s }"

text \<open>The end of \<open>ramfs_mount\<close>: \<open>hostname\<close> is the address of the string literal with the six characters.\<close>

definition ramfs_hostname :: "nat \<Rightarrow> u64 \<Rightarrow> 'a fs_state_scheme \<Rightarrow> 'a fs_state_scheme option" where
  "ramfs_hostname root hostname s =
     (case find (\<lambda>c. rname (nodes s ! c) = str ''etc'') (rchildren (nodes s ! root)) of
        None \<Rightarrow> Some s
      | Some etc \<Rightarrow> do {
          (_, s) \<leftarrow> ramfs_create (Node_inode etc) (str ''hostname'') FT_REG s;
          case ramfs_lookup (Node_inode etc) (str ''hostname'') s of
            None \<Rightarrow> Some s
          | Some hn \<Rightarrow> do {
              let f = \<lparr>f_inode = hn, fpos = 0, fflags = 0, frefcount = 0, f_ops = Some ramfs_ops\<rparr>;
              (_, _, s) \<leftarrow> ramfs_write f hostname 6 s;
              Some s}})"

definition ramfs_mount :: "u64 \<Rightarrow> u8 list \<Rightarrow> 'a fs_state_scheme \<Rightarrow> (int \<times> 'a fs_state_scheme) option" where
  "ramfs_mount hostname path s = do {
     (r, s) \<leftarrow> alloc_node (str ''/'') FT_DIR s;
     case r of None \<Rightarrow> Some (-ENOMEM, s)
     | Some root \<Rightarrow> do {
         let s = upd_node root (\<lambda>r. r\<lparr>rinode := (rinode r)\<lparr>iops := Some ramfs_ops\<rparr>\<rparr>) s;
         s \<leftarrow> ramfs_add_dirs root ramfs_dirs s;
         (_, s) \<leftarrow> vfs_mount_root path ramfs_ops (Some (Node_inode root)) s;
         s \<leftarrow> ramfs_hostname root hostname s;
         Some (0, s)}}"

section \<open>The tree of nodes\<close>

text \<open>
  Well-formed nodes: the arrays hold what is in them, every child is a node that was allocated after its
  parent, no node is a child twice, the type of a node is the type of its inode, and its functions are
  those of this file system or of the terminal.
\<close>

definition node_ok :: "nat \<Rightarrow> nat \<Rightarrow> ramfs_node \<Rightarrow> bool" where
  "node_ok k n r \<longleftrightarrow> length (rname r) < 255 \<and> length (rchildren r) \<le> RAMFS_MAX_CHILDREN
     \<and> distinct (rchildren r) \<and> (\<forall>c \<in> set (rchildren r). n < c \<and> c < k) \<and> itype (rinode r) = rtype r
     \<and> iops (rinode r) \<noteq> Some procfs_ops \<and> iops (rinode r) \<noteq> Some pipe_ops"

definition parents_unique :: "ramfs_node list \<Rightarrow> bool" where
  "parents_unique ns \<longleftrightarrow> (\<forall>i < length ns. \<forall>j < length ns. \<forall>c \<in> set (rchildren (ns ! i)). c \<in> set (rchildren (ns ! j)) \<longrightarrow> i = j)"

definition ramfs_wf :: "ramfs_node list \<Rightarrow> bool" where
  "ramfs_wf ns \<longleftrightarrow> length ns \<le> RAMFS_MAX_NODES \<and> (\<forall>n < length ns. node_ok (length ns) n (ns ! n)) \<and> parents_unique ns"

lemma ramfs_wfD:
  assumes "ramfs_wf ns"
  shows "length ns \<le> RAMFS_MAX_NODES" "n < length ns \<Longrightarrow> node_ok (length ns) n (ns ! n)"
    "i < length ns \<Longrightarrow> j < length ns \<Longrightarrow> c \<in> set (rchildren (ns ! i)) \<Longrightarrow> c \<in> set (rchildren (ns ! j)) \<Longrightarrow> i = j"
  using assms unfolding ramfs_wf_def parents_unique_def by blast+

lemma ramfs_wf_child: "ramfs_wf ns \<Longrightarrow> n < length ns \<Longrightarrow> c \<in> set (rchildren (ns ! n)) \<Longrightarrow> n < c \<and> c < length ns"
  using ramfs_wfD(2) [of ns n] unfolding node_ok_def by blast

lemma node_ok_mono: "node_ok k n r \<Longrightarrow> k \<le> k' \<Longrightarrow> node_ok k' n r"
  unfolding node_ok_def using less_le_trans by blast

lemma ramfs_wfI:
  assumes "length ns \<le> RAMFS_MAX_NODES" "\<And>n. n < length ns \<Longrightarrow> node_ok (length ns) n (ns ! n)"
    "\<And>i j c. i < length ns \<Longrightarrow> j < length ns \<Longrightarrow> c \<in> set (rchildren (ns ! i)) \<Longrightarrow> c \<in> set (rchildren (ns ! j)) \<Longrightarrow> i = j"
  shows "ramfs_wf ns"
  using assms unfolding ramfs_wf_def parents_unique_def by blast

text \<open>A node whose new children are old ones.\<close>

lemma ramfs_wf_update:
  assumes "ramfs_wf ns" "d < length ns" "node_ok (length ns) d r" "set (rchildren r) \<subseteq> set (rchildren (ns ! d))"
  shows "ramfs_wf (ns[d := r])"
proof (rule ramfs_wfI)
  show "length (ns[d := r]) \<le> RAMFS_MAX_NODES" using ramfs_wfD(1) [OF assms(1)] by simp
  show "node_ok (length (ns[d := r])) n (ns[d := r] ! n)" if "n < length (ns[d := r])" for n
    using that assms(3) ramfs_wfD(2) [OF assms(1), of n] by (cases "n = d") simp_all
  have sub: "set (rchildren (ns[d := r] ! n)) \<subseteq> set (rchildren (ns ! n))" if "n < length ns" for n
    using that assms(4) by (cases "n = d") simp_all
  show "i = j" if "i < length (ns[d := r])" "j < length (ns[d := r])"
    "c \<in> set (rchildren (ns[d := r] ! i))" "c \<in> set (rchildren (ns[d := r] ! j))" for i j c
    using that sub [of i] sub [of j] by (intro ramfs_wfD(3) [OF assms(1), of i j c]) auto
qed

text \<open>A new node, and a new node under a directory.\<close>

definition fresh_node :: "u8 list \<Rightarrow> file_type_t \<Rightarrow> ramfs_node \<Rightarrow> bool" where
  "fresh_node name ty r \<longleftrightarrow> rname r = name \<and> rtype r = ty \<and> rdata r = 0 \<and> rsize r = 0 \<and> rcapacity r = 0
     \<and> itype (rinode r) = ty \<and> rchildren r = [] \<and> (iops (rinode r) = None \<or> iops (rinode r) = Some ramfs_ops)"

lemma ramfs_wf_append:
  assumes "ramfs_wf ns" "length ns < RAMFS_MAX_NODES" "fresh_node name ty r" "length name < 255"
  shows "ramfs_wf (ns @ [r])"
proof (rule ramfs_wfI)
  show "length (ns @ [r]) \<le> RAMFS_MAX_NODES" using assms(2) by simp
  show "node_ok (length (ns @ [r])) n ((ns @ [r]) ! n)" if "n < length (ns @ [r])" for n
  proof (cases "n = length ns")
    case False
    with that show ?thesis using node_ok_mono [OF ramfs_wfD(2) [OF assms(1), of n]] by (simp add: nth_append)
  qed (use assms(3,4) in \<open>auto simp: node_ok_def fresh_node_def\<close>)
  have "n < length ns" "c \<in> set (rchildren (ns ! n))"
    if "n < length (ns @ [r])" "c \<in> set (rchildren ((ns @ [r]) ! n))" for n c
    using that assms(3) by (cases "n = length ns"; simp add: nth_append fresh_node_def)+
  then show "i = j" if "i < length (ns @ [r])" "j < length (ns @ [r])"
    "c \<in> set (rchildren ((ns @ [r]) ! i))" "c \<in> set (rchildren ((ns @ [r]) ! j))" for i j c
    using that by (intro ramfs_wfD(3) [OF assms(1), of i j c]) blast+
qed

lemma ramfs_wf_add_child:
  assumes "ramfs_wf ns" "d < length ns" "length ns < RAMFS_MAX_NODES" "fresh_node name ty r" "length name < 255"
    "length (rchildren (ns ! d)) < RAMFS_MAX_CHILDREN"
  shows "ramfs_wf ((ns @ [r])[d := (ns ! d)\<lparr>rchildren := rchildren (ns ! d) @ [length ns]\<rparr>])" (is "ramfs_wf ?ns")
proof (rule ramfs_wfI)
  note old = ramfs_wf_child [OF assms(1)]
  show "length ?ns \<le> RAMFS_MAX_NODES" using assms(3) by simp
  have "node_ok (length ?ns) d (?ns ! d)"
    using ramfs_wfD(2) [OF assms(1,2)] assms(2,6) by (auto simp: node_ok_def intro: less_SucI)
  then show "node_ok (length ?ns) n (?ns ! n)" if "n < length ?ns" for n
    using that ramfs_wfD(2) [OF ramfs_wf_append [OF assms(1,3,4,5)], of n] by (cases "n = d") simp_all
  have ch: "c \<in> set (rchildren (?ns ! n)) \<Longrightarrow> n < length ns \<and> c \<in> set (rchildren (ns ! n)) \<or> n = d \<and> c = length ns"
    if "n < length ?ns" for n c
    using that assms(2,4) by (cases "n = d"; cases "n = length ns"; auto simp: nth_append fresh_node_def)
  show "i = j" if "i < length ?ns" "j < length ?ns" "c \<in> set (rchildren (?ns ! i))" "c \<in> set (rchildren (?ns ! j))" for i j c
    using ch [OF that(1,3)] ch [OF that(2,4)] old [of i c] old [of j c] ramfs_wfD(3) [OF assms(1), of i j c] by auto
qed

section \<open>What the operations do to the nodes\<close>

lemma alloc_node_cases:
  assumes "alloc_node name ty s = Some (r, s')"
  obtains "r = None" "s' = s" "length (nodes s) \<ge> RAMFS_MAX_NODES"
  | node where "r = Some (length (nodes s))" "s' = s\<lparr>nodes := nodes s @ [node]\<rparr>" "fresh_node name ty node"
      "iops (rinode node) = None" "length name < 255" "length (nodes s) < RAMFS_MAX_NODES"
  using assms by (auto simp: alloc_node_def copy_name_def fresh_node_def zero_inode_def Let_def split: if_splits)

lemma ramfs_create_cases:
  assumes "ramfs_create (Node_inode d) name ty s = Some (r, s')" "d < length (nodes s)"
  obtains "r = -ENOSPC" "s' = s" "length (nodes s) \<ge> RAMFS_MAX_NODES \<or> length (rchildren (nodes s ! d)) \<ge> RAMFS_MAX_CHILDREN"
  | node where "r = 0" "fresh_node name ty node" "iops (rinode node) = Some ramfs_ops" "length name < 255"
      "length (nodes s) < RAMFS_MAX_NODES" "length (rchildren (nodes s ! d)) < RAMFS_MAX_CHILDREN"
      "s' = s\<lparr>nodes := (nodes s @ [node])[d := (nodes s ! d)\<lparr>rchildren := rchildren (nodes s ! d) @ [length (nodes s)]\<rparr>]\<rparr>"
proof (cases "length (rchildren (nodes s ! d)) \<ge> RAMFS_MAX_CHILDREN")
  case True
  with assms show thesis by (intro that(1)) (auto simp: ramfs_create_def)
next
  case False
  with assms(1) obtain q s1 where a: "alloc_node name ty s = Some (q, s1)"
    by (auto simp: ramfs_create_def Let_def split: bind_splits)
  from a show thesis
  proof (cases rule: alloc_node_cases)
    case 1
    with assms a False show thesis by (intro that(1)) (auto simp: ramfs_create_def)
  next
    case (2 node)
    let ?node = "node\<lparr>rinode := (rinode node)\<lparr>iops := Some ramfs_ops\<rparr>\<rparr>"
    have "s' = s\<lparr>nodes := (nodes s @ [?node])[d := (nodes s ! d)\<lparr>rchildren := rchildren (nodes s ! d) @ [length (nodes s)]\<rparr>]\<rparr>" "r = 0"
      using assms a False 2 by (auto simp: ramfs_create_def upd_node_def nth_append Let_def)
    with 2 False show thesis by (intro that(2) [of ?node]) (auto simp: fresh_node_def)
  qed
qed

lemma mset_swap_remove:
  assumes "i < length xs"
  shows "mset (swap_remove i xs) = mset (remove1 (xs ! i) xs)"
proof -
  have ne: "xs \<noteq> []" "xs[i := last xs] \<noteq> []" using assms by auto
  then have "last (xs[i := last xs]) = last xs"
    by (cases "i = length xs - 1") (simp_all add: last_conv_nth)
  then have "mset (swap_remove i xs) + {#last xs#} = mset (xs[i := last xs])"
    unfolding swap_remove_def using append_butlast_last_id [OF ne(2)] by (metis mset.simps(1,2) mset_append)
  with assms show ?thesis by (simp add: mset_update)
qed

lemma swap_remove_props:
  assumes "i < length xs" "distinct xs"
  shows "distinct (swap_remove i xs)" "set (swap_remove i xs) = set xs - {xs ! i}" "length (swap_remove i xs) = length xs - 1"
proof -
  note m = mset_swap_remove [OF assms(1)]
  show "distinct (swap_remove i xs)" using mset_eq_imp_distinct_iff [OF m] assms(2) by simp
  show "set (swap_remove i xs) = set xs - {xs ! i}" using mset_eq_setD [OF m] assms(2) by (simp add: set_remove1_eq)
  show "length (swap_remove i xs) = length xs - 1" by (simp add: swap_remove_def)
qed

lemma ramfs_unlink_cases:
  assumes "ramfs_unlink (Node_inode d) name s = (r, s')"
  obtains "r = -ENOENT" "s' = s" "\<forall>c \<in> set (rchildren (nodes s ! d)). rname (nodes s ! c) \<noteq> name"
  | i where "r = 0" "i < length (rchildren (nodes s ! d))" "rname (nodes s ! (rchildren (nodes s ! d) ! i)) = name"
      "\<forall>j < i. rname (nodes s ! (rchildren (nodes s ! d) ! j)) \<noteq> name"
      "s' = s\<lparr>nodes := (nodes s)[d := (nodes s ! d)\<lparr>rchildren := swap_remove i (rchildren (nodes s ! d))\<rparr>]\<rparr>"
proof (cases "find (\<lambda>i. rname (nodes s ! (rchildren (nodes s ! d) ! i)) = name) [0..<length (rchildren (nodes s ! d))]")
  case None
  with assms show thesis
    by (intro that(1)) (auto simp: ramfs_unlink_def Let_def find_upt_None in_set_conv_nth)
next
  case (Some i)
  with assms show thesis
    by (intro that(2) [of i]) (auto simp: ramfs_unlink_def Let_def find_upt_Some upd_node_def)
qed

lemma ramfs_grow_nodes:
  assumes "ramfs_grow d k s = Some (ok, s')"
  obtains "\<not> ok" "nodes s' = nodes s"
  | a where "ok" "a \<noteq> 0" "nodes s' = (nodes s)[d := (nodes s ! d)\<lparr>rdata := a, rcapacity := k\<rparr>]"
  using assms
  by (auto simp: ramfs_grow_def upd_node_def Let_def split: bind_splits if_splits dest!: kmalloc_fs(1) kfree_fs(1))

text \<open>Two nodes that differ at most in the contents and the size of the file.\<close>

definition same_entry :: "ramfs_node \<Rightarrow> ramfs_node \<Rightarrow> bool" where
  "same_entry r r' \<longleftrightarrow> rname r' = rname r \<and> rtype r' = rtype r \<and> rchildren r' = rchildren r
     \<and> itype (rinode r') = itype (rinode r) \<and> iops (rinode r') = iops (rinode r)"

lemma node_ok_same: "node_ok k n r \<Longrightarrow> same_entry r r' \<Longrightarrow> node_ok k n r'"
  unfolding node_ok_def same_entry_def by metis

lemma node_ok_fewer:
  assumes "node_ok k n r" "set cs \<subseteq> set (rchildren r)" "distinct cs" "length cs \<le> length (rchildren r)"
  shows "node_ok k n (r\<lparr>rchildren := cs\<rparr>)"
proof -
  have "\<forall>c \<in> set cs. n < c \<and> c < k" using assms(1,2) unfolding node_ok_def by blast
  moreover have "length cs \<le> RAMFS_MAX_CHILDREN" using assms(1,4) unfolding node_ok_def by linarith
  ultimately show ?thesis using assms(1,3) unfolding node_ok_def by simp
qed

lemma ramfs_write_nodes:
  assumes "ramfs_write f buf n s = Some (r, f', s')" "f_inode f = Node_inode d" "d < length (nodes s)"
  obtains node where "nodes s' = (nodes s)[d := node]" "same_entry (nodes s ! d) node"
proof -
  obtain ok s1 where g: "(if fpos f + n > rcapacity (nodes s ! d) then ramfs_grow d (fpos f + n + 4096) s else Some (True, s)) = Some (ok, s1)"
    using assms(1,2) by (auto simp: ramfs_write_def Let_def split: bind_splits)
  have "\<exists>node. nodes s1 = (nodes s)[d := node] \<and> same_entry (nodes s ! d) node"
  proof (cases "fpos f + n > rcapacity (nodes s ! d)")
    case True
    with g have "ramfs_grow d (fpos f + n + 4096) s = Some (ok, s1)" by simp
    then show ?thesis
      by (cases rule: ramfs_grow_nodes) (auto simp: same_entry_def intro: exI [of _ "nodes s ! d"])
  qed (use g in \<open>auto simp: same_entry_def intro: exI [of _ "nodes s ! d"]\<close>)
  then obtain node where n1: "nodes s1 = (nodes s)[d := node]" "same_entry (nodes s ! d) node" by blast
  have len: "d < length (nodes s1)" using n1(1) assms(3) by simp
  consider "nodes s' = nodes s1" | z where "nodes s' = (nodes s1)[d := (nodes s1 ! d)\<lparr>rsize := z, rinode := (rinode (nodes s1 ! d))\<lparr>isize := z\<rparr>\<rparr>]"
    using assms(1) by (auto simp: ramfs_write_def assms(2) g len Let_def upd_inode_def upd_node_def split: if_splits)
  then show thesis
  proof cases
    case 1
    with n1 show thesis by (intro that [of node]) simp_all
  next
    case (2 z)
    with n1 assms(3) show thesis
      by (intro that [of "node\<lparr>rsize := z, rinode := (rinode node)\<lparr>isize := z\<rparr>\<rparr>"]) (simp_all add: same_entry_def)
  qed
qed

text \<open>
  The steps that the kernel takes on the nodes: the operations of the file system, and the two changes
  that the layers above make through an inode pointer, the function table of the terminal in
  \<open>tty_dev_init\<close> and the size in \<open>vfs_open\<close>.
\<close>

inductive ramfs_step :: "'a fs_state_scheme \<Rightarrow> 'a fs_state_scheme \<Rightarrow> bool" where
  step_create: "ramfs_create (Node_inode d) name ty s = Some (r, s') \<Longrightarrow> d < length (nodes s) \<Longrightarrow> ramfs_step s s'"
| step_unlink: "ramfs_unlink (Node_inode d) name s = (r, s') \<Longrightarrow> d < length (nodes s) \<Longrightarrow> ramfs_step s s'"
| step_write: "ramfs_write f buf n s = Some (r, f', s') \<Longrightarrow> f_inode f = Node_inode d \<Longrightarrow> d < length (nodes s) \<Longrightarrow> ramfs_step s s'"
| step_truncate: "d < length (nodes s) \<Longrightarrow> ramfs_step s (upd_inode (Node_inode d) (\<lambda>i. i\<lparr>isize := z\<rparr>) s)"
| step_device: "d < length (nodes s) \<Longrightarrow> ramfs_step s (upd_inode (Node_inode d) (\<lambda>i. i\<lparr>iops := Some tty_dev_ops\<rparr>) s)"

lemma ramfs_wf_same:
  assumes "ramfs_wf ns" "d < length ns" "same_entry (ns ! d) r"
  shows "ramfs_wf (ns[d := r])"
  using assms node_ok_same [OF ramfs_wfD(2) [OF assms(1,2)] assms(3)]
  by (intro ramfs_wf_update) (auto simp: same_entry_def)

lemma node_ok_ops: "node_ok k n r \<Longrightarrow> node_ok k n (r\<lparr>rinode := (rinode r)\<lparr>iops := Some tty_dev_ops\<rparr>\<rparr>)"
  unfolding node_ok_def by simp

lemma ramfs_step_wf:
  assumes "ramfs_step s s'" "ramfs_wf (nodes s)"
  shows "ramfs_wf (nodes s')"
  using assms
proof (induction rule: ramfs_step.induct)
  case (step_create d name ty s r s')
  from step_create(1,2) show ?case
  proof (cases rule: ramfs_create_cases)
    case 1
    with step_create(3) show ?thesis by simp
  next
    case (2 node)
    with ramfs_wf_add_child [OF step_create(3,2) 2(5,2,4,6)] show ?thesis by simp
  qed
next
  case (step_unlink d name s r s')
  from step_unlink(1) show ?case
  proof (cases rule: ramfs_unlink_cases)
    case 1
    with step_unlink(3) show ?thesis by simp
  next
    case (2 i)
    have ok: "node_ok (length (nodes s)) d (nodes s ! d)" using ramfs_wfD(2) [OF step_unlink(3,2)] .
    then have "distinct (rchildren (nodes s ! d))" by (simp add: node_ok_def)
    note sw = swap_remove_props [OF 2(2) this]
    have "node_ok (length (nodes s)) d ((nodes s ! d)\<lparr>rchildren := swap_remove i (rchildren (nodes s ! d))\<rparr>)"
      using sw by (intro node_ok_fewer [OF ok]) auto
    from ramfs_wf_update [OF step_unlink(3,2) this] 2(5) sw(2) show ?thesis by auto
  qed
next
  case (step_write f buf n s r f' s' d)
  obtain node where n: "nodes s' = (nodes s)[d := node]" "same_entry (nodes s ! d) node"
    using ramfs_write_nodes [OF step_write(1-3)] .
  from ramfs_wf_same [OF step_write(4,3) n(2)] n(1) show ?case by simp
next
  case (step_truncate d s z)
  then show ?case
    using ramfs_wf_same [OF step_truncate(2,1)] by (simp add: upd_inode_def upd_node_def same_entry_def)
next
  case (step_device d s)
  then show ?case
    using ramfs_wf_update [OF step_device(2,1) node_ok_ops [OF ramfs_wfD(2) [OF step_device(2,1)]]]
    by (simp add: upd_inode_def upd_node_def)
qed

section \<open>Mounting\<close>

lemma ramfs_add_dir_create:
  "length (rchildren (nodes s ! root)) < RAMFS_MAX_CHILDREN \<Longrightarrow>
   ramfs_add_dir root name s = map_option snd (ramfs_create (Node_inode root) name FT_DIR s)"
  by (auto simp: ramfs_add_dir_def ramfs_create_def Let_def split: bind_splits option.splits)

lemma ramfs_add_dirs_wf:
  assumes "ramfs_add_dirs root ds s = Some s'" "ramfs_wf (nodes s)" "root < length (nodes s)"
    "length (rchildren (nodes s ! root)) + length ds \<le> RAMFS_MAX_CHILDREN"
  shows "ramfs_wf (nodes s') \<and> root < length (nodes s')"
  using assms
proof (induction root ds s rule: ramfs_add_dirs.induct)
  case (2 root d ds s)
  have room: "length (rchildren (nodes s ! root)) < RAMFS_MAX_CHILDREN" using 2(5) by simp
  then obtain r s1 where c: "ramfs_create (Node_inode root) d FT_DIR s = Some (r, s1)" "ramfs_add_dir root d s = Some s1"
    using 2(2) by (auto simp: ramfs_add_dir_create split: bind_splits)
  have wf: "ramfs_wf (nodes s1)" using ramfs_step_wf [OF step_create [OF c(1) 2(4)] 2(3)] .
  from c(1) 2(4) have "root < length (nodes s1) \<and> length (rchildren (nodes s1 ! root)) \<le> Suc (length (rchildren (nodes s ! root)))"
    by (cases rule: ramfs_create_cases) (use 2(4) in simp_all)
  with 2(1) [OF c(2) _ wf] 2(2,5) c(2) show ?case by simp
qed simp

lemma ramfs_wf_root: "ramfs_wf [\<lparr>rname = [0x2F], rtype = FT_DIR, rdata = 0, rsize = 0, rcapacity = 0,
    rinode = zero_inode\<lparr>ino := i, itype := FT_DIR, iops := Some ramfs_ops\<rparr>, rchildren = []\<rparr>]"
  by (simp add: ramfs_wf_def node_ok_def parents_unique_def)

lemma vfs_mount_root_nodes: "vfs_mount_root path ops r s = Some (x, s') \<Longrightarrow> nodes s' = nodes s"
  by (auto simp: vfs_mount_root_def split: if_splits bind_splits)

lemma ramfs_lookup_child:
  assumes "ramfs_wf (nodes s)" "d < length (nodes s)" "ramfs_lookup (Node_inode d) name s = Some i"
  shows "\<exists>c. i = Node_inode c \<and> d < c \<and> c < length (nodes s) \<and> rname (nodes s ! c) = name"
  using assms(3) ramfs_wf_child [OF assms(1,2)] by (auto simp: ramfs_lookup_def find_Some_iff in_set_conv_nth)

lemma ramfs_hostname_wf:
  assumes "ramfs_hostname root h s = Some s'" "ramfs_wf (nodes s)" "root < length (nodes s)"
  shows "ramfs_wf (nodes s')"
proof (cases "find (\<lambda>c. rname (nodes s ! c) = str ''etc'') (rchildren (nodes s ! root))")
  case None
  with assms(1,2) show ?thesis by (simp add: ramfs_hostname_def)
next
  case (Some etc)
  then have etc: "etc < length (nodes s)"
    using ramfs_wf_child [OF assms(2,3)] by (auto simp: find_Some_iff in_set_conv_nth)
  obtain y s1 where s1: "ramfs_create (Node_inode etc) (str ''hostname'') FT_REG s = Some (y, s1)"
    using assms(1) Some by (auto simp: ramfs_hostname_def split: bind_splits)
  have w1: "ramfs_wf (nodes s1)" using ramfs_step_wf [OF step_create [OF s1 etc] assms(2)] .
  show ?thesis
  proof (cases "ramfs_lookup (Node_inode etc) (str ''hostname'') s1")
    case None
    with assms(1) Some s1 w1 show ?thesis by (simp add: ramfs_hostname_def)
  next
    case hn: (Some hn)
    have "etc < length (nodes s1)" using s1 etc by (cases rule: ramfs_create_cases) (use etc in simp_all)
    then obtain c where c: "hn = Node_inode c" "c < length (nodes s1)" using ramfs_lookup_child [OF w1 _ hn] by blast
    obtain z f' where "ramfs_write \<lparr>f_inode = hn, fpos = 0, fflags = 0, frefcount = 0, f_ops = Some ramfs_ops\<rparr> h 6 s1 = Some (z, f', s')"
      using assms(1) Some s1 hn by (auto simp: ramfs_hostname_def split: bind_splits)
    from ramfs_step_wf [OF step_write [OF this _ c(2)] w1] c(1) show ?thesis by simp
  qed
qed

lemma ramfs_mount_wf:
  assumes "ramfs_mount h path s = Some (r, s')" "nodes s = []"
  shows "ramfs_wf (nodes s')"
proof -
  let ?root = "\<lparr>rname = [0x2F], rtype = FT_DIR, rdata = 0, rsize = 0, rcapacity = 0,
    rinode = zero_inode\<lparr>ino := 0, itype := FT_DIR, iops := Some ramfs_ops\<rparr>, rchildren = []\<rparr>"
  have 0: "alloc_node (str ''/'') FT_DIR s = Some (Some 0, s\<lparr>nodes := [?root\<lparr>rinode := (rinode ?root)\<lparr>iops := None\<rparr>\<rparr>]\<rparr>)"
    using assms(2) by (simp add: alloc_node_def copy_name_def zero_inode_def str_def)
  have u: "upd_node 0 (\<lambda>r. r\<lparr>rinode := (rinode r)\<lparr>iops := Some ramfs_ops\<rparr>\<rparr>) (s\<lparr>nodes := [?root\<lparr>rinode := (rinode ?root)\<lparr>iops := None\<rparr>\<rparr>]\<rparr>)
      = s\<lparr>nodes := [?root]\<rparr>"
    by (simp add: upd_node_def)
  obtain s1 x s2 where s1: "ramfs_add_dirs 0 ramfs_dirs (s\<lparr>nodes := [?root]\<rparr>) = Some s1"
    and s2: "vfs_mount_root path ramfs_ops (Some (Node_inode 0)) s1 = Some (x, s2)" "ramfs_hostname 0 h s2 = Some s'"
    using assms(1) unfolding ramfs_mount_def 0 bind.simps prod.case option.case Let_def u by (auto split: bind_splits)
  have "ramfs_wf (nodes s1)" "0 < length (nodes s1)"
    using ramfs_add_dirs_wf [OF s1] ramfs_wf_root by (simp_all add: ramfs_dirs_def)
  with vfs_mount_root_nodes [OF s2(1)] ramfs_hostname_wf [OF s2(2)] show ?thesis by simp
qed

section \<open>Before the slab allocator is up\<close>

lemma ramfs_write_boot:
  assumes "\<not> slab_ready s"
  shows "ramfs_write f buf n s \<noteq> None"
proof -
  let ?d = "node_of (f_inode f)"
  obtain p s1 where k: "kmalloc (fpos f + n + 4096) s = Some (p, s1)" "\<not> slab_ready s1"
    using kmalloc_boot [OF assms] by blast
  have "ramfs_grow ?d (fpos f + n + 4096) s \<noteq> None"
    using k by (auto simp: ramfs_grow_def kfree_boot Let_def)
  then show ?thesis by (auto simp: ramfs_write_def Let_def)
qed

lemma alloc_node_total: "length name < 255 \<Longrightarrow> \<exists>r s'. alloc_node name ty s = Some (r, s') \<and> slab_ready s' = slab_ready s"
  by (simp add: alloc_node_def copy_name_def Let_def)

lemma ramfs_create_total:
  "length name < 255 \<Longrightarrow> \<exists>r s'. ramfs_create dir name ty s = Some (r, s') \<and> slab_ready s' = slab_ready s"
  by (simp add: ramfs_create_def alloc_node_def copy_name_def upd_node_def Let_def)

lemma ramfs_add_dirs_total:
  "\<forall>d \<in> set ds. length d < 255 \<Longrightarrow> \<exists>s'. ramfs_add_dirs root ds s = Some s' \<and> slab_ready s' = slab_ready s"
proof (induction root ds s rule: ramfs_add_dirs.induct)
  case (2 root d ds s)
  have "\<exists>s1. ramfs_add_dir root d s = Some s1 \<and> slab_ready s1 = slab_ready s"
    using 2(2) by (simp add: ramfs_add_dir_def alloc_node_def copy_name_def upd_node_def Let_def)
  with 2 show ?case by fastforce
qed simp

lemma vfs_mount_root_total:
  "length path < 256 \<Longrightarrow> \<exists>x s'. vfs_mount_root path ops r s = Some (x, s') \<and> slab_ready s' = slab_ready s"
  by (simp add: vfs_mount_root_def copy_name_def)

lemma ramfs_mount_total:
  assumes "\<not> slab_ready s" "nodes s = []" "length path < 256"
  shows "\<exists>s'. ramfs_mount h path s = Some (0, s')"
proof -
  obtain s0 where s0: "alloc_node (str ''/'') FT_DIR s = Some (Some 0, s0)" "slab_ready s0 = slab_ready s"
    using assms(2) by (simp add: alloc_node_def copy_name_def str_def)
  let ?s0 = "upd_node 0 (\<lambda>r. r\<lparr>rinode := (rinode r)\<lparr>iops := Some ramfs_ops\<rparr>\<rparr>) s0"
  have "slab_ready ?s0 = slab_ready s" using s0(2) by (simp add: upd_node_def)
  moreover obtain s1 where s1: "ramfs_add_dirs 0 ramfs_dirs ?s0 = Some s1" "slab_ready s1 = slab_ready ?s0"
    using ramfs_add_dirs_total [of ramfs_dirs 0 ?s0] by (auto simp: ramfs_dirs_def str_def)
  moreover obtain x s2 where s2: "vfs_mount_root path ramfs_ops (Some (Node_inode 0)) s1 = Some (x, s2)" "slab_ready s2 = slab_ready s1"
    using vfs_mount_root_total [OF assms(3), of ramfs_ops "Some (Node_inode 0)" s1] by blast
  ultimately have r2: "\<not> slab_ready s2" using assms(1) by simp
  have "\<exists>s3. ramfs_hostname 0 h s2 = Some s3"
  proof (cases "find (\<lambda>c. rname (nodes s2 ! c) = str ''etc'') (rchildren (nodes s2 ! 0))")
    case etc: (Some etc)
    obtain y s3 where s3: "ramfs_create (Node_inode etc) (str ''hostname'') FT_REG s2 = Some (y, s3)" "\<not> slab_ready s3"
      using ramfs_create_total [of "str ''hostname''" "Node_inode etc" FT_REG s2] r2 by (auto simp: str_def)
    show ?thesis
    proof (cases "ramfs_lookup (Node_inode etc) (str ''hostname'') s3")
      case (Some hn)
      obtain a f' b where "ramfs_write \<lparr>f_inode = hn, fpos = 0, fflags = 0, frefcount = 0, f_ops = Some ramfs_ops\<rparr> h 6 s3 = Some (a, f', b)"
        using ramfs_write_boot [OF s3(2)] by (metis not_None_eq prod_cases3)
      with Some etc s3(1) show ?thesis by (simp add: ramfs_hostname_def)
    qed (use etc s3(1) in \<open>simp add: ramfs_hostname_def\<close>)
  qed (simp add: ramfs_hostname_def)
  then show ?thesis
    unfolding ramfs_mount_def s0 bind.simps prod.case option.case Let_def s1(1) s2(1) by auto
qed

section \<open>Directories\<close>

text \<open>
  The contract of a directory: a finite map from names to entries that \<open>create\<close> extends and \<open>unlink\<close>
  shrinks.
\<close>

locale directory =
  fixes inv :: "'s \<Rightarrow> bool"
    and lookup :: "'s \<Rightarrow> 'k \<Rightarrow> 'v option"
    and room :: "'k \<Rightarrow> 's \<Rightarrow> bool"
    and create :: "'k \<Rightarrow> 's \<Rightarrow> 's"
    and unlink :: "'k \<Rightarrow> 's \<Rightarrow> 's"
  assumes create_inv: "inv s \<Longrightarrow> room k s \<Longrightarrow> lookup s k = None \<Longrightarrow> inv (create k s)"
    and create_lookup: "inv s \<Longrightarrow> room k s \<Longrightarrow> lookup s k = None \<Longrightarrow> lookup (create k s) k \<noteq> None"
    and create_other: "inv s \<Longrightarrow> room k s \<Longrightarrow> lookup s k = None \<Longrightarrow> k' \<noteq> k \<Longrightarrow> lookup (create k s) k' = lookup s k'"
    and unlink_inv: "inv s \<Longrightarrow> inv (unlink k s)"
    and unlink_lookup: "inv s \<Longrightarrow> lookup (unlink k s) = (lookup s)(k := None)"
begin

lemma create_unlink:
  assumes "inv s" "room k s" "lookup s k = None"
  shows "lookup (unlink k (create k s)) = lookup s"
  using unlink_lookup [OF create_inv [OF assms]] create_other [OF assms] assms(3) by (simp add: fun_eq_iff)

lemma names_create:
  assumes "inv s" "room k s" "lookup s k = None"
  shows "dom (lookup (create k s)) = insert k (dom (lookup s))"
proof -
  have "lookup (create k s) k' \<noteq> None \<longleftrightarrow> k' = k \<or> lookup s k' \<noteq> None" for k'
    using create_lookup [OF assms] create_other [OF assms, of k'] by (cases "k' = k") simp_all
  then show ?thesis by (auto simp: dom_def)
qed

lemma names_unlink: "inv s \<Longrightarrow> dom (lookup (unlink k s)) = dom (lookup s) - {k}"
  by (simp add: unlink_lookup)

end

definition dir_names :: "nat \<Rightarrow> 'a fs_state_scheme \<Rightarrow> u8 list list" where
  "dir_names d s = map (\<lambda>c. rname (nodes s ! c)) (rchildren (nodes s ! d))"

definition dir_ok :: "nat \<Rightarrow> 'a fs_state_scheme \<Rightarrow> bool" where
  "dir_ok d s \<longleftrightarrow> ramfs_wf (nodes s) \<and> d < length (nodes s) \<and> distinct (dir_names d s)"

definition dir_lookup :: "nat \<Rightarrow> 'a fs_state_scheme \<Rightarrow> u8 list \<Rightarrow> inode_ptr option" where
  "dir_lookup d s name = ramfs_lookup (Node_inode d) name s"

definition dir_room :: "nat \<Rightarrow> u8 list \<Rightarrow> 'a fs_state_scheme \<Rightarrow> bool" where
  "dir_room d name s \<longleftrightarrow> length name < 255 \<and> length (nodes s) < RAMFS_MAX_NODES
     \<and> length (rchildren (nodes s ! d)) < RAMFS_MAX_CHILDREN"

definition dir_create :: "nat \<Rightarrow> file_type_t \<Rightarrow> u8 list \<Rightarrow> 'a fs_state_scheme \<Rightarrow> 'a fs_state_scheme" where
  "dir_create d ty name s = snd (the (ramfs_create (Node_inode d) name ty s))"

definition dir_unlink :: "nat \<Rightarrow> u8 list \<Rightarrow> 'a fs_state_scheme \<Rightarrow> 'a fs_state_scheme" where
  "dir_unlink d name s = snd (ramfs_unlink (Node_inode d) name s)"

lemma find_unique: "distinct (map f xs) \<Longrightarrow> find (\<lambda>c. f c = k) xs = Some c \<longleftrightarrow> c \<in> set xs \<and> f c = k"
  by (induction xs) auto

lemma dir_lookup_iff:
  "dir_ok d s \<Longrightarrow> dir_lookup d s name = Some i \<longleftrightarrow> (\<exists>c \<in> set (rchildren (nodes s ! d)). i = Node_inode c \<and> rname (nodes s ! c) = name)"
  using find_unique [of "\<lambda>c. rname (nodes s ! c)" "rchildren (nodes s ! d)" name]
  by (auto simp: dir_ok_def dir_lookup_def ramfs_lookup_def dir_names_def)

lemma dir_lookup_None: "dir_lookup d s name = None \<longleftrightarrow> name \<notin> set (dir_names d s)"
  by (auto simp: dir_lookup_def ramfs_lookup_def find_None_iff dir_names_def)

lemma ramfs_unlink_absent:
  assumes "dir_lookup d s name = None"
  shows "ramfs_unlink (Node_inode d) name s = (-ENOENT, s)"
proof -
  have "rname (nodes s ! (rchildren (nodes s ! d) ! i)) \<noteq> name" if "i < length (rchildren (nodes s ! d))" for i
    using assms nth_mem [of i "dir_names d s"] that by (auto simp: dir_lookup_None dir_names_def)
  then have "find (\<lambda>i. rname (nodes s ! (rchildren (nodes s ! d) ! i)) = name) [0..<length (rchildren (nodes s ! d))] = None"
    by (simp add: find_upt_None)
  then show ?thesis by (simp add: ramfs_unlink_def)
qed

lemma dir_create_eq:
  assumes "dir_ok d s" "dir_room d name s"
  obtains node where "ramfs_create (Node_inode d) name ty s = Some (0, dir_create d ty name s)" "fresh_node name ty node"
    "iops (rinode node) = Some ramfs_ops"
    "dir_create d ty name s = s\<lparr>nodes := (nodes s @ [node])[d := (nodes s ! d)\<lparr>rchildren := rchildren (nodes s ! d) @ [length (nodes s)]\<rparr>]\<rparr>"
proof -
  obtain r s' where c: "ramfs_create (Node_inode d) name ty s = Some (r, s')"
    using assms(2) by (simp add: ramfs_create_def alloc_node_def copy_name_def dir_room_def Let_def)
  have d: "d < length (nodes s)" using assms(1) by (simp add: dir_ok_def)
  from c d show thesis
  proof (cases rule: ramfs_create_cases)
    case 1
    with assms(2) show ?thesis by (simp add: dir_room_def)
  next
    case (2 node)
    with c that [of node] show ?thesis by (simp add: dir_create_def)
  qed
qed

lemma dir_create_names:
  assumes "dir_ok d s" "dir_room d name s"
  shows "dir_names d (dir_create d ty name s) = dir_names d s @ [name]"
proof -
  obtain node where n: "fresh_node name ty node"
    "dir_create d ty name s = s\<lparr>nodes := (nodes s @ [node])[d := (nodes s ! d)\<lparr>rchildren := rchildren (nodes s ! d) @ [length (nodes s)]\<rparr>]\<rparr>"
    using dir_create_eq [OF assms] by metis
  have d: "d < length (nodes s)" "ramfs_wf (nodes s)" using assms(1) by (simp_all add: dir_ok_def)
  have "rname (nodes (dir_create d ty name s) ! c) = rname (nodes s ! c)" if "c \<in> set (rchildren (nodes s ! d))" for c
    using ramfs_wf_child [OF d(2,1) that] by (simp add: n(2) nth_append)
  then show ?thesis using d(1) n by (simp add: dir_names_def fresh_node_def nth_append)
qed

lemma dir_create_ok:
  assumes "dir_ok d s" "dir_room d name s" "dir_lookup d s name = None"
  shows "dir_ok d (dir_create d ty name s)"
proof -
  obtain node where n: "ramfs_create (Node_inode d) name ty s = Some (0, dir_create d ty name s)"
    "dir_create d ty name s = s\<lparr>nodes := (nodes s @ [node])[d := (nodes s ! d)\<lparr>rchildren := rchildren (nodes s ! d) @ [length (nodes s)]\<rparr>]\<rparr>"
    using dir_create_eq [OF assms(1,2)] by metis
  have "ramfs_wf (nodes (dir_create d ty name s))"
    using assms(1) by (intro ramfs_step_wf [OF step_create [OF n(1)]]) (simp_all add: dir_ok_def)
  moreover have "distinct (dir_names d (dir_create d ty name s))"
    using assms by (simp add: dir_create_names dir_lookup_None) (simp add: dir_ok_def)
  ultimately show ?thesis using assms(1) by (simp add: dir_ok_def n(2))
qed

lemma option_Some_ext: "(\<And>x. a = Some x \<longleftrightarrow> b = Some x) \<Longrightarrow> a = b"
  by (cases a; cases b) auto

lemma dir_create_lookup:
  assumes "dir_ok d s" "dir_room d name s" "dir_lookup d s name = None"
  shows "dir_lookup d (dir_create d ty name s) name = Some (Node_inode (length (nodes s)))"
    "k \<noteq> name \<Longrightarrow> dir_lookup d (dir_create d ty name s) k = dir_lookup d s k"
proof -
  obtain node where n: "fresh_node name ty node"
    "dir_create d ty name s = s\<lparr>nodes := (nodes s @ [node])[d := (nodes s ! d)\<lparr>rchildren := rchildren (nodes s ! d) @ [length (nodes s)]\<rparr>]\<rparr>"
    using dir_create_eq [OF assms(1,2)] by metis
  have d: "d < length (nodes s)" "ramfs_wf (nodes s)" using assms(1) by (simp_all add: dir_ok_def)
  let ?t = "dir_create d ty name s"
  have old: "rname (nodes ?t ! c) = rname (nodes s ! c)" if "c \<in> set (rchildren (nodes s ! d))" for c
    using ramfs_wf_child [OF d(2,1) that] by (simp add: n(2) nth_append)
  have new: "rname (nodes ?t ! length (nodes s)) = name" "rchildren (nodes ?t ! d) = rchildren (nodes s ! d) @ [length (nodes s)]"
    using n d(1) by (simp_all add: fresh_node_def)
  note ok = dir_create_ok [OF assms, of ty]
  show "dir_lookup d ?t name = Some (Node_inode (length (nodes s)))"
    unfolding dir_lookup_iff [OF ok] by (simp add: new)
  show "dir_lookup d ?t k = dir_lookup d s k" if "k \<noteq> name"
    using that old by (intro option_Some_ext) (auto simp: dir_lookup_iff [OF ok] dir_lookup_iff [OF assms(1)] new)
qed

lemma dir_unlink_eq:
  assumes "dir_ok d s"
  shows "dir_ok d (dir_unlink d name s)" "dir_lookup d (dir_unlink d name s) = (dir_lookup d s)(name := None)"
    "fst (ramfs_unlink (Node_inode d) name s) = (if dir_lookup d s name = None then -ENOENT else 0)"
proof -
  let ?t = "dir_unlink d name s"
  have d: "d < length (nodes s)" "ramfs_wf (nodes s)" "distinct (dir_names d s)" using assms by (simp_all add: dir_ok_def)
  obtain r where r: "ramfs_unlink (Node_inode d) name s = (r, ?t)" by (simp add: dir_unlink_def prod_eq_iff)
  have wf: "ramfs_wf (nodes ?t)" using ramfs_step_wf [OF step_unlink [OF r d(1)] d(2)] .
  from r have "dir_ok d ?t \<and> dir_lookup d ?t = (dir_lookup d s)(name := None) \<and> r = (if dir_lookup d s name = None then -ENOENT else 0)"
  proof (cases rule: ramfs_unlink_cases)
    case 1
    then have "dir_lookup d s name = None" by (auto simp: dir_lookup_None dir_names_def)
    with 1 assms show ?thesis by (auto simp: fun_eq_iff)
  next
    case (2 i)
    let ?cs = "rchildren (nodes s ! d)"
    have dc: "distinct ?cs" using d(3) by (simp add: dir_names_def distinct_map)
    note sw = swap_remove_props [OF 2(2) dc]
    have ch: "rchildren (nodes ?t ! d) = swap_remove i ?cs" using 2(5) d(1) by simp
    have nm: "rname (nodes ?t ! c) = rname (nodes s ! c)" for c using 2(5) d(1) by (cases "c = d") simp_all
    have "distinct (dir_names d ?t)"
      using d(3) sw by (auto simp: dir_names_def ch nm distinct_map intro: inj_on_subset)
    then have ok: "dir_ok d ?t" using wf d(1) 2(5) by (simp add: dir_ok_def)
    have i: "?cs ! i \<in> set ?cs" using 2(2) by simp
    have inj: "inj_on (\<lambda>c. rname (nodes s ! c)) (set ?cs)" using d(3) by (simp add: dir_names_def distinct_map)
    have "dir_lookup d ?t k = ((dir_lookup d s)(name := None)) k" for k
    proof (cases "k = name")
      case True
      have "name \<notin> set (dir_names d ?t)" using inj_onD [OF inj] i 2(3) sw(2) by (auto simp: dir_names_def ch nm)
      with True show ?thesis by (simp add: dir_lookup_None)
    next
      case False
      with 2(3) show ?thesis
        by (intro option_Some_ext) (auto simp: dir_lookup_iff [OF ok] dir_lookup_iff [OF assms] ch nm sw(2))
    qed
    moreover have "name \<in> (\<lambda>c. rname (nodes s ! c)) ` set ?cs" using 2(3) i by blast
    then have "dir_lookup d s name \<noteq> None" by (simp add: dir_lookup_None dir_names_def)
    ultimately show ?thesis using ok 2(1) by auto
  qed
  with r show "dir_ok d ?t" "dir_lookup d ?t = (dir_lookup d s)(name := None)"
    "fst (ramfs_unlink (Node_inode d) name s) = (if dir_lookup d s name = None then -ENOENT else 0)" by simp_all
qed

interpretation rd: directory "dir_ok d" "dir_lookup d" "dir_room d" "dir_create d ty" "dir_unlink d" for d ty
  by unfold_locales (simp_all add: dir_create_ok dir_create_lookup dir_unlink_eq)

section \<open>Properties\<close>

text \<open>C17. From the mount on, whatever files are created, unlinked, written, truncated or turned into a
  device, the nodes form a well-typed forest: at most 2048 nodes, every name and every table of children
  within its array, every child a node younger than its parent, no node with two parents, and the type of
  every inode that of its node.  So a lookup returns a node of the table with the name looked up.\<close>

theorem ramfs_tree:
  assumes "nodes s0 = []" "ramfs_mount h path s0 = Some (r, s)" "ramfs_step\<^sup>*\<^sup>* s s'"
  shows "ramfs_wf (nodes s') \<and> (\<forall>d name i. d < length (nodes s') \<and> ramfs_lookup (Node_inode d) name s' = Some i
    \<longrightarrow> (\<exists>c. i = Node_inode c \<and> d < c \<and> c < length (nodes s') \<and> rname (nodes s' ! c) = name))"
proof -
  have "ramfs_wf (nodes s')"
    using assms(3) by (induction rule: rtranclp_induct) (auto intro: ramfs_mount_wf [OF assms(2,1)] ramfs_step_wf)
  then show ?thesis using ramfs_lookup_child by blast
qed

theorem ramfs_tree_witness:
  "\<exists>s s'. ramfs_mount 0 (str ''/'') fs_demo = Some (0, s) \<and> ramfs_step\<^sup>*\<^sup>* s s' \<and> ramfs_wf (nodes s')"
proof -
  obtain s where s: "ramfs_mount 0 (str ''/'') fs_demo = Some (0, s)"
    using ramfs_mount_total [of fs_demo "str ''/''" 0] by (auto simp: fs_demo_simps str_def)
  from ramfs_tree [OF _ s rtranclp.rtrancl_refl] s show ?thesis by (auto simp: fs_demo_simps)
qed

text \<open>C24. A directory with distinct names and room for another entry: creating a name that is not in it
  succeeds, and looking it up then finds the new node, an empty file of the given type that belongs to the
  RAM file system; every other name is looked up as before.  Unlinking the name succeeds and gives back
  the lookup of every name; unlinking it again fails with \<open>ENOENT\<close>.\<close>

theorem ramfs_create_unlink:
  assumes "dir_ok d s" "dir_room d name s" "ramfs_lookup (Node_inode d) name s = None"
  shows "\<exists>s1 s2 c. ramfs_create (Node_inode d) name ty s = Some (0, s1)
    \<and> ramfs_lookup (Node_inode d) name s1 = Some (Node_inode c) \<and> fresh_node name ty (nodes s1 ! c)
    \<and> iops (rinode (nodes s1 ! c)) = Some ramfs_ops
    \<and> (\<forall>k. k \<noteq> name \<longrightarrow> ramfs_lookup (Node_inode d) k s1 = ramfs_lookup (Node_inode d) k s)
    \<and> ramfs_unlink (Node_inode d) name s1 = (0, s2)
    \<and> (\<forall>k. ramfs_lookup (Node_inode d) k s2 = ramfs_lookup (Node_inode d) k s)
    \<and> ramfs_unlink (Node_inode d) name s2 = (-ENOENT, s2)"
proof -
  have a: "dir_lookup d s name = None" using assms(3) by (simp add: dir_lookup_def)
  let ?s1 = "dir_create d ty name s" and ?s2 = "dir_unlink d name (dir_create d ty name s)"
  obtain node where n: "ramfs_create (Node_inode d) name ty s = Some (0, ?s1)" "fresh_node name ty node"
    "iops (rinode node) = Some ramfs_ops"
    "?s1 = s\<lparr>nodes := (nodes s @ [node])[d := (nodes s ! d)\<lparr>rchildren := rchildren (nodes s ! d) @ [length (nodes s)]\<rparr>]\<rparr>"
    using dir_create_eq [OF assms(1,2)] by metis
  have "nodes ?s1 ! length (nodes s) = node" using n(4) assms(1) by (simp add: dir_ok_def)
  moreover note dir_create_lookup [OF assms(1,2) a, where ty = ty]
  moreover have "dir_lookup d ?s2 = dir_lookup d s" by (rule rd.create_unlink [OF assms(1,2) a])
  moreover have "ramfs_unlink (Node_inode d) name ?s1 = (0, ?s2)"
    using dir_unlink_eq(3) [OF dir_create_ok [OF assms(1,2) a, of ty], of name] calculation(2)
    by (simp add: dir_unlink_def prod_eq_iff)
  moreover have "ramfs_unlink (Node_inode d) name ?s2 = (-ENOENT, ?s2)"
    by (rule ramfs_unlink_absent) (use calculation(4) a in simp)
  ultimately show ?thesis using n(1-3) unfolding dir_lookup_def by metis
qed

text \<open>A file system that has only the root.\<close>

definition ramfs_demo :: fs_state where
  "ramfs_demo = fs_demo\<lparr>nodes := [\<lparr>rname = [0x2F], rtype = FT_DIR, rdata = 0, rsize = 0, rcapacity = 0,
     rinode = zero_inode\<lparr>ino := 0, itype := FT_DIR, iops := Some ramfs_ops\<rparr>, rchildren = []\<rparr>]\<rparr>"

lemma ramfs_demo_dir: "dir_ok 0 ramfs_demo" "dir_room 0 (str ''motd'') ramfs_demo"
    "ramfs_lookup (Node_inode 0) (str ''motd'') ramfs_demo = None"
  using ramfs_wf_root by (simp_all add: dir_ok_def dir_room_def ramfs_demo_def dir_names_def str_def ramfs_lookup_def)

theorem ramfs_create_unlink_witness:
  "\<exists>s1 c. ramfs_create (Node_inode 0) (str ''motd'') FT_REG ramfs_demo = Some (0, s1)
    \<and> ramfs_lookup (Node_inode 0) (str ''motd'') s1 = Some (Node_inode c) \<and> rname (nodes s1 ! c) = str ''motd''"
  using ramfs_create_unlink [OF ramfs_demo_dir, of FT_REG] by (auto simp: fresh_node_def)

text \<open>C22. What is written is read back: a write of \<open>n\<close> bytes that fits the capacity of the file reports
  all of them, extends the size to the new position if that is beyond it, and a read of as many bytes at
  the same position into a buffer that does not overlap the file delivers exactly the bytes written.\<close>

theorem ramfs_write_read:
  assumes "f_inode f = Node_inode d" "d < length (nodes s)" "r = nodes s ! d" "rdata r \<noteq> 0"
    "unat (fpos f) + unat n \<le> unat (rcapacity r)" "0 < n" "unat n < 2 ^ 63"
    "disj_rng (rdata r + fpos f) n buf n" "disj_rng dst n (rdata r + fpos f) n"
  shows "\<exists>s1 s2 f1. ramfs_write f buf n s = Some (int (unat n), f1, s1)
    \<and> rsize (nodes s1 ! d) = max (rsize r) (fpos f + n)
    \<and> ramfs_read f dst n s1 = (int (unat n), f1, s2)
    \<and> bytes_at (memory s2) dst (unat n) = bytes_at (memory s) buf (unat n)"
proof -
  let ?p = "rdata r + fpos f" and ?f1 = "f\<lparr>fpos := fpos f + n\<rparr>"
  define m1 where "m1 = kmemcpy (memory s) ?p buf n"
  define m2 where "m2 = kmemcpy m1 dst ?p n"
  have add: "unat (fpos f + n) = unat (fpos f) + unat n"
    using assms(5) unat_bound [of "rcapacity r"] by (intro unat_add_small) simp
  have fits: "\<not> fpos f + n > rcapacity r" using assms(5) by (simp add: word_less_nat_alt add)
  define s1 where "s1 = (if fpos f + n > rsize r
    then upd_inode (Node_inode d) (\<lambda>i. i\<lparr>isize := fpos f + n\<rparr>) (upd_node d (\<lambda>r. r\<lparr>rsize := fpos f + n\<rparr>) (s\<lparr>memory := m1\<rparr>))
    else s\<lparr>memory := m1\<rparr>)"
  have sint: "sint n = int (unat n)" by (rule sint_small [OF assms(7)])
  have w: "ramfs_write f buf n s = Some (int (unat n), ?f1, s1)"
    using fits assms(1,3) by (simp add: ramfs_write_def Let_def s1_def m1_def sint)
  have n1: "rsize (nodes s1 ! d) = max (rsize r) (fpos f + n)" "rdata (nodes s1 ! d) = rdata r" "memory s1 = m1"
    using assms(2,3) by (auto simp: s1_def upd_inode_def upd_node_def max_def)
  have pos: "fpos f < fpos f + n" using assms(6) by (simp add: word_less_nat_alt add)
  have avail: "\<not> n > max (rsize r) (fpos f + n) - fpos f"
  proof -
    have "unat (max (rsize r) (fpos f + n) - fpos f) = unat (max (rsize r) (fpos f + n)) - unat (fpos f)"
      using less_imp_le [OF pos] by (intro unat_sub) (simp add: le_max_iff_disj)
    moreover have "unat (fpos f + n) \<le> unat (max (rsize r) (fpos f + n))" by (simp add: word_le_nat_alt [symmetric])
    ultimately show ?thesis by (simp add: word_less_nat_alt add)
  qed
  have rd: "ramfs_read f dst n s1 = (int (unat n), ?f1, s1\<lparr>memory := m2\<rparr>)"
    using pos avail n1 assms(1,4) by (auto simp: ramfs_read_def Let_def m2_def sint not_less max_def)
  have "m2 (dst + i) = memory s (buf + i)" if "i < n" for i
    using that assms(8,9) kmemcpy_apply [of dst ?p n m1 "dst + i"] kmemcpy_apply [of ?p buf n "memory s" "?p + i"]
    by (simp add: m1_def m2_def disj_rng_def)
  then have "bytes_at m2 dst (unat n) = bytes_at (memory s) buf (unat n)"
    by (auto simp: bytes_at_def word_less_nat_alt unat_of_nat less_le_trans [OF _ less_imp_le [OF unat_bound]])
  with w n1(1) rd show ?thesis by (intro exI [of _ s1] exI [of _ "s1\<lparr>memory := m2\<rparr>"] exI [of _ ?f1]) simp
qed

text \<open>A file of 16 bytes capacity at \<open>0x6000\<close>.\<close>

definition ramfs_file_demo :: fs_state where
  "ramfs_file_demo = ramfs_demo\<lparr>nodes := [(nodes ramfs_demo ! 0)\<lparr>rdata := 0x6000, rcapacity := 16\<rparr>]\<rparr>"

theorem ramfs_write_read_witness:
  "\<exists>s1 s2 f1. ramfs_write (files fs_demo 0) 0x9000 8 ramfs_file_demo = Some (8, f1, s1)
    \<and> ramfs_read (files fs_demo 0) 0x9100 8 s1 = (8, f1, s2)
    \<and> bytes_at (memory s2) 0x9100 8 = bytes_at (memory ramfs_file_demo) 0x9000 8"
proof -
  have f: "f_inode (files fs_demo 0) = Node_inode 0" "fpos (files fs_demo 0) = 0"
    by (simp_all add: fs_demo_def proc_state.defs)
  have n: "nodes ramfs_file_demo = [(nodes ramfs_demo ! 0)\<lparr>rdata := 0x6000, rcapacity := 16\<rparr>]"
    by (simp add: ramfs_file_demo_def)
  show ?thesis
    using ramfs_write_read [of "files fs_demo 0" 0 ramfs_file_demo _ 8 "0x9000" "0x9100", OF f(1) _ refl]
    by (simp add: n f disj_rng_def) blast
qed

end
