(* ===== verification/Procfs.thy ===== *)
theory Procfs
  imports FsTypes
begin

text \<open>
  The process file system, \<open>kernel/fs/procfs.c\<close>: inodes made on lookup, and the texts of its files.
\<close>

abbreviation PT_ROOT :: nat where "PT_ROOT \<equiv> 0"
abbreviation PT_VERSION :: nat where "PT_VERSION \<equiv> 1"
abbreviation PT_MEMINFO :: nat where "PT_MEMINFO \<equiv> 2"
abbreviation PT_UPTIME :: nat where "PT_UPTIME \<equiv> 3"
abbreviation PT_PID_DIR :: nat where "PT_PID_DIR \<equiv> 4"
abbreviation PT_PID_STATUS :: nat where "PT_PID_STATUS \<equiv> 5"

fun state_name :: "proc_state_t \<Rightarrow> string" where
  "state_name PROC_UNUSED = ''unused''"
| "state_name PROC_RUNNING = ''running''"
| "state_name PROC_READY = ''ready''"
| "state_name PROC_SLEEPING = ''sleeping''"
| "state_name PROC_ZOMBIE = ''zombie''"
| "state_name PROC_WAITING = ''waiting''"

text \<open>The switch of \<open>proc_read\<close>: the text left in \<open>tmp\<close>, or the value returned at once.\<close>

definition proc_text :: "proc_priv \<Rightarrow> 'a fs_state_scheme \<Rightarrow> int + u8 list" where
  "proc_text pp s =
     (if pp_type pp = PT_VERSION then Inr (str (''Sinux version 2.0 (x86_64)'' @ [CHR 10]))
      else if pp_type pp = PT_MEMINFO then Inr (str ''MemTotal: '')
      else if pp_type pp = PT_UPTIME then Inr (str ''uptime: '')
      else if pp_type pp = PT_PID_STATUS then
        case proc_find (pp_pid pp) s of None \<Rightarrow> Inl (-ENOENT)
        | Some i \<Rightarrow> Inr (str (''Name: sinux'' @ [CHR 10] @ ''State: '' @ state_name (pstate (proc_of s i)) @ [CHR 10]))
      else Inl 0)"

definition proc_read :: "file_t \<Rightarrow> u64 \<Rightarrow> u64 \<Rightarrow> 'a fs_state_scheme \<Rightarrow> int \<times> file_t \<times> 'a fs_state_scheme" where
  "proc_read f buf n s =
     (case proc_text (proc_privs s (iprivate (get_inode s (f_inode f)))) s of
        Inl r \<Rightarrow> (r, f, s)
      | Inr tmp \<Rightarrow>
          let len = of_nat (length tmp) in
          if fpos f \<ge> len then (0, f, s) else
          let avail = len - fpos f;
              n = (if n > avail then avail else n)
          in (sint n, f\<lparr>fpos := fpos f + n\<rparr>,
              s\<lparr>memory := store_bytes (memory s) buf (take (unat n) (drop (unat (fpos f)) tmp))\<rparr>))"

definition make_proc_inode :: "nat \<Rightarrow> int \<Rightarrow> file_type_t \<Rightarrow> 'a fs_state_scheme
    \<Rightarrow> (inode_ptr option \<times> 'a fs_state_scheme) option" where
  "make_proc_inode ty p ft s = do {
     (i, s) \<leftarrow> kmalloc 48 s;
     (priv, s) \<leftarrow> kmalloc 8 s;
     if i = 0 \<or> priv = 0 then Some (None, s) else
     Some (Some (Heap_inode i),
       s\<lparr>proc_privs := (proc_privs s)(priv := \<lparr>pp_type = ty, pp_pid = p\<rparr>),
         inodes := (inodes s)(i := zero_inode\<lparr>itype := ft, iprivate := priv, iops := Some procfs_ops\<rparr>)\<rparr>)}"

text \<open>The leading digits of a name as a number, and what follows them.\<close>

fun parse_pid :: "int \<Rightarrow> u8 list \<Rightarrow> int \<times> u8 list" where
  "parse_pid acc [] = (acc, [])"
| "parse_pid acc (c # cs) =
     (if 0x30 \<le> c \<and> c \<le> 0x39 then parse_pid (acc * 10 + (uint c - 0x30)) cs else (acc, c # cs))"

definition procfs_lookup :: "inode_ptr \<Rightarrow> u8 list \<Rightarrow> 'a fs_state_scheme \<Rightarrow> (inode_ptr option \<times> 'a fs_state_scheme) option" where
  "procfs_lookup dir name s =
     (let pp = proc_privs s (iprivate (get_inode s dir));
          (p, rest) = parse_pid 0 name in
      if pp_type pp = PT_ROOT \<and> name = str ''version'' then make_proc_inode PT_VERSION 0 FT_REG s
      else if pp_type pp = PT_ROOT \<and> name = str ''meminfo'' then make_proc_inode PT_MEMINFO 0 FT_REG s
      else if pp_type pp = PT_ROOT \<and> name = str ''uptime'' then make_proc_inode PT_UPTIME 0 FT_REG s
      else if pp_type pp = PT_ROOT \<and> rest = [] \<and> p > 0 \<and> proc_find p s \<noteq> None then make_proc_inode PT_PID_DIR p FT_DIR s
      else if pp_type pp = PT_PID_DIR \<and> name = str ''status''
        then make_proc_inode PT_PID_STATUS (pp_pid pp) FT_REG s
      else Some (None, s))"

definition procfs_mount :: "u8 list \<Rightarrow> 'a fs_state_scheme \<Rightarrow> (int \<times> 'a fs_state_scheme) option" where
  "procfs_mount path s = do {
     (r, s) \<leftarrow> make_proc_inode PT_ROOT 0 FT_DIR s;
     case r of None \<Rightarrow> Some (-ENOMEM, s)
     | Some root \<Rightarrow> do { (_, s) \<leftarrow> vfs_mount_root path procfs_ops (Some root) s; Some (0, s) }}"

end
