(* ===== verification/Ring.thy ===== *)
theory Ring
  imports Prelude
begin

text \<open>
  Queues of bytes.  A ring buffer is read as the list of its elements from the tail on; a queue is a
  structure with operations that append to that list and take from its front.  The locale is the
  contract of the two rings of the kernel, the pipe and the keyboard buffer.
\<close>

section \<open>The elements of a ring\<close>

definition ring :: "'b list \<Rightarrow> nat \<Rightarrow> nat \<Rightarrow> 'b list" where
  "ring buf tail n = map (\<lambda>i. buf ! ((tail + i) mod length buf)) [0..<n]"

lemma length_ring [simp]: "length (ring buf tail n) = n"
  by (simp add: ring_def)

lemma ring_0 [simp]: "ring buf tail 0 = []"
  by (simp add: ring_def)

lemma mod_add_inj: "i < n \<Longrightarrow> j < n \<Longrightarrow> (t + i) mod n = (t + j) mod n \<Longrightarrow> i = j" for i j n t :: nat
proof (induction i j rule: linorder_wlog)
  case (le i j)
  then have "n dvd j - i" using mod_eq_dvd_iff_nat [of "t + i" "t + j" n] by simp
  with le show ?case using dvd_imp_le [of n "j - i"] by (cases "i = j") auto
qed auto

lemma ring_put:
  assumes "n < length buf"
  shows "ring (buf[(tail + n) mod length buf := b]) tail (Suc n) = ring buf tail n @ [b]"
proof -
  have "(tail + n) mod length buf \<noteq> (tail + i) mod length buf" if "i < n" for i
    using mod_add_inj [of n "length buf" i tail] that assms by auto
  moreover have "(tail + n) mod length buf < length buf" using assms by (auto intro: mod_less_divisor)
  ultimately show ?thesis by (simp add: ring_def)
qed

lemma ring_get:
  assumes "tail < length buf" "0 < n"
  shows "ring buf tail n = buf ! tail # ring buf ((tail + 1) mod length buf) (n - 1)"
proof -
  obtain k where n: "n = Suc k" using assms(2) by (cases n) auto
  have "[0..<Suc k] = 0 # map Suc [0..<k]" by (simp add: upt_conv_Cons map_Suc_upt)
  then show ?thesis using assms(1) by (simp add: n ring_def mod_simps)
qed

section \<open>Queues\<close>

text \<open>A run of a queue: the bytes put in and the bytes taken out, in any interleaving.\<close>

inductive queue_run :: "('q \<Rightarrow> bool) \<Rightarrow> ('q \<Rightarrow> bool) \<Rightarrow> (u8 \<Rightarrow> 'q \<Rightarrow> 'q) \<Rightarrow> ('q \<Rightarrow> u8 \<times> 'q)
    \<Rightarrow> 'q \<Rightarrow> u8 list \<Rightarrow> u8 list \<Rightarrow> 'q \<Rightarrow> bool" for full empty put get q where
  run_start: "queue_run full empty put get q [] [] q"
| run_put: "queue_run full empty put get q ins outs q1 \<Longrightarrow> \<not> full q1
    \<Longrightarrow> queue_run full empty put get q (ins @ [b]) outs (put b q1)"
| run_get: "queue_run full empty put get q ins outs q1 \<Longrightarrow> \<not> empty q1 \<Longrightarrow> get q1 = (b, q2)
    \<Longrightarrow> queue_run full empty put get q ins (outs @ [b]) q2"

locale byte_queue =
  fixes inv :: "'q \<Rightarrow> bool"
    and contents :: "'q \<Rightarrow> u8 list"
    and full empty :: "'q \<Rightarrow> bool"
    and put :: "u8 \<Rightarrow> 'q \<Rightarrow> 'q"
    and get :: "'q \<Rightarrow> u8 \<times> 'q"
  assumes put_inv: "inv q \<Longrightarrow> \<not> full q \<Longrightarrow> inv (put b q)"
    and put_contents: "inv q \<Longrightarrow> \<not> full q \<Longrightarrow> contents (put b q) = contents q @ [b]"
    and empty_iff: "inv q \<Longrightarrow> empty q \<longleftrightarrow> contents q = []"
    and get_inv: "inv q \<Longrightarrow> \<not> empty q \<Longrightarrow> inv (snd (get q))"
    and get_contents: "inv q \<Longrightarrow> \<not> empty q \<Longrightarrow> contents q = fst (get q) # contents (snd (get q))"
begin

lemma fifo:
  assumes "queue_run full empty put get q ins outs q'" "inv q"
  shows "inv q' \<and> contents q @ ins = outs @ contents q'"
  using assms
proof (induction rule: queue_run.induct)
  case (run_put ins outs q1 b)
  then show ?case by (metis append_assoc put_contents put_inv)
next
  case (run_get ins outs q1 b q2)
  then show ?case using get_inv [of q1] get_contents [of q1] by simp
qed simp

end

end
