(* ===== verification/Pipe.thy ===== *)
theory Pipe
  imports FsTypes Ring
begin

text \<open>
  Pipes, \<open>kernel/ipc/pipe.c\<close>: a ring buffer of 4096 bytes.  Both ends wait by spinning; an operation
  that would spin has the value \<open>None\<close>.
\<close>

abbreviation PIPE_BUF_SIZE :: nat where "PIPE_BUF_SIZE \<equiv> 4096"

section \<open>The ring\<close>

text \<open>One iteration of the loops of \<open>pipe_read\<close> and \<open>pipe_write\<close>.\<close>

definition pipe_get :: "pipe \<Rightarrow> u8 \<times> pipe" where
  "pipe_get p = (pbuf p ! ptail p, p\<lparr>ptail := (ptail p + 1) mod PIPE_BUF_SIZE, pcount := pcount p - 1\<rparr>)"

definition pipe_put :: "u8 \<Rightarrow> pipe \<Rightarrow> pipe" where
  "pipe_put b p = p\<lparr>pbuf := (pbuf p)[phead p := b], phead := (phead p + 1) mod PIPE_BUF_SIZE, pcount := pcount p + 1\<rparr>"

fun pipe_read_loop :: "nat \<Rightarrow> u64 \<Rightarrow> mem \<Rightarrow> pipe \<Rightarrow> nat \<times> mem \<times> pipe" where
  "pipe_read_loop 0 dst m p = (0, m, p)"
| "pipe_read_loop (Suc n) dst m p =
     (if pcount p > 0 then
        let (b, p) = pipe_get p; (k, m, p) = pipe_read_loop n (dst + 1) (m(dst := b)) p in (k + 1, m, p)
      else (0, m, p))"

fun pipe_write_loop :: "nat \<Rightarrow> u64 \<Rightarrow> mem \<Rightarrow> pipe \<Rightarrow> pipe option" where
  "pipe_write_loop 0 src m p = Some p"
| "pipe_write_loop (Suc n) src m p =
     (if pcount p \<ge> PIPE_BUF_SIZE then None else pipe_write_loop n (src + 1) m (pipe_put (m src) p))"

section \<open>The operations\<close>

definition pipe_read :: "file_t \<Rightarrow> u64 \<Rightarrow> u64 \<Rightarrow> 'a fs_state_scheme \<Rightarrow> (int \<times> file_t \<times> 'a fs_state_scheme) option" where
  "pipe_read f buf n s =
     (let a = iprivate (get_inode s (f_inode f)); p = pipes s a in
      if a = 0 then Some (-EBADF, f, s) else
      if pcount p = 0 then if write_closed p then Some (0, f, s) else None else
      let (k, m, p) = pipe_read_loop (unat n) buf (memory s) p
      in Some (int k, f, s\<lparr>memory := m, pipes := (pipes s)(a := p)\<rparr>))"

definition pipe_write :: "file_t \<Rightarrow> u64 \<Rightarrow> u64 \<Rightarrow> 'a fs_state_scheme \<Rightarrow> (int \<times> file_t \<times> 'a fs_state_scheme) option" where
  "pipe_write f buf n s =
     (let a = iprivate (get_inode s (f_inode f)); p = pipes s a in
      if a = 0 then Some (-EBADF, f, s) else
      if read_closed p then do {
        c \<leftarrow> current_proc s;
        Some (-EINVAL, f, snd (signal_send (pid (proc_of s c)) 13 s)) }
      else do {
        p \<leftarrow> pipe_write_loop (unat n) buf (memory s) p;
        Some (sint n, f, s\<lparr>pipes := (pipes s)(a := p)\<rparr>)})"

definition pipe_close :: "file_t \<Rightarrow> 'a fs_state_scheme \<Rightarrow> (int \<times> 'a fs_state_scheme) option" where
  "pipe_close f s =
     (let a = iprivate (get_inode s (f_inode f)); p = pipes s a in
      if a = 0 then Some (0, s) else
      let p = (if fflags f AND O_WRONLY \<noteq> 0 then p\<lparr>write_closed := True\<rparr> else p\<lparr>read_closed := True\<rparr>);
          p = p\<lparr>prefcount := prefcount p - 1\<rparr>;
          s = s\<lparr>pipes := (pipes s)(a := p)\<rparr>
      in if prefcount p \<le> 0 then do { s \<leftarrow> kfree a s; Some (0, s) } else Some (0, s))"

definition zero_pipe :: pipe where
  "zero_pipe = \<lparr>pbuf = replicate PIPE_BUF_SIZE 0, phead = 0, ptail = 0, pcount = 0,
     read_closed = False, write_closed = False, prefcount = 0\<rparr>"

definition pipe_alloc :: "'a fs_state_scheme \<Rightarrow> (u64 \<times> 'a fs_state_scheme) option" where
  "pipe_alloc s = do {
     (p, s) \<leftarrow> kmalloc 4128 s;
     if p = 0 then Some (0, s) else Some (p, s\<lparr>pipes := (pipes s)(p := zero_pipe\<lparr>prefcount := 2\<rparr>)\<rparr>)}"

text \<open>The result, and the two descriptors left in \<open>fds\<close>.\<close>

definition pipe_create :: "'a fs_state_scheme \<Rightarrow> ((int \<times> int \<times> int) \<times> 'a fs_state_scheme) option" where
  "pipe_create s = do {
     (p, s) \<leftarrow> pipe_alloc s;
     if p = 0 then Some ((-ENOMEM, 0, 0), s) else do {
       (ri, s) \<leftarrow> kmalloc 48 s;
       (wi, s) \<leftarrow> kmalloc 48 s;
       (rf, s) \<leftarrow> kmalloc 32 s;
       (wf, s) \<leftarrow> kmalloc 32 s;
       if ri = 0 \<or> wi = 0 \<or> rf = 0 \<or> wf = 0 then Some ((-ENOMEM, 0, 0), s) else do {
         let i = zero_inode\<lparr>itype := FT_FIFO, iprivate := p, iops := Some pipe_ops\<rparr>;
         let s = s\<lparr>inodes := (inodes s)(ri := i, wi := i),
           files := (files s)(
             rf := \<lparr>f_inode = Heap_inode ri, fpos = 0, fflags = O_RDONLY, frefcount = 1, f_ops = Some pipe_ops\<rparr>,
             wf := \<lparr>f_inode = Heap_inode wi, fpos = 0, fflags = O_WRONLY, frefcount = 1, f_ops = Some pipe_ops\<rparr>)\<rparr>;
         c \<leftarrow> current_proc s;
         let (fd0, s) = proc_alloc_fd c rf s;
         let (fd1, s) = proc_alloc_fd c wf s;
         Some ((if fd0 < 0 \<or> fd1 < 0 then -EMFILE else 0, fd0, fd1), s)}}}"

section \<open>The ring as a queue\<close>

definition pipe_wf :: "pipe \<Rightarrow> bool" where
  "pipe_wf p \<longleftrightarrow> length (pbuf p) = PIPE_BUF_SIZE \<and> ptail p < PIPE_BUF_SIZE \<and> pcount p \<le> PIPE_BUF_SIZE
     \<and> phead p = (ptail p + pcount p) mod PIPE_BUF_SIZE"

definition pipe_contents :: "pipe \<Rightarrow> u8 list" where
  "pipe_contents p = ring (pbuf p) (ptail p) (pcount p)"

definition pipe_full :: "pipe \<Rightarrow> bool" where "pipe_full p \<longleftrightarrow> pcount p \<ge> PIPE_BUF_SIZE"

definition pipe_empty :: "pipe \<Rightarrow> bool" where "pipe_empty p \<longleftrightarrow> pcount p = 0"

lemma length_pipe_contents [simp]: "length (pipe_contents p) = pcount p"
  by (simp add: pipe_contents_def)

lemma pipe_put_wf: "pipe_wf p \<Longrightarrow> \<not> pipe_full p \<Longrightarrow> pipe_wf (pipe_put b p)"
  by (auto simp: pipe_wf_def pipe_full_def pipe_put_def mod_simps)

lemma pipe_put_contents: "pipe_wf p \<Longrightarrow> \<not> pipe_full p \<Longrightarrow> pipe_contents (pipe_put b p) = pipe_contents p @ [b]"
  using ring_put [of "pcount p" "pbuf p" "ptail p" b]
  by (simp add: pipe_wf_def pipe_full_def pipe_put_def pipe_contents_def)

lemma pipe_get_wf: "pipe_wf p \<Longrightarrow> \<not> pipe_empty p \<Longrightarrow> pipe_wf (snd (pipe_get p))"
  by (cases "pcount p") (auto simp: pipe_wf_def pipe_empty_def pipe_get_def mod_simps)

lemma pipe_get_contents: "pipe_wf p \<Longrightarrow> \<not> pipe_empty p
    \<Longrightarrow> pipe_contents p = fst (pipe_get p) # pipe_contents (snd (pipe_get p))"
  using ring_get [of "ptail p" "pbuf p" "pcount p"]
  by (simp add: pipe_wf_def pipe_empty_def pipe_get_def pipe_contents_def)

interpretation pq: byte_queue pipe_wf pipe_contents pipe_full pipe_empty pipe_put pipe_get
  by unfold_locales
    (simp_all add: pipe_put_wf pipe_put_contents pipe_get_wf pipe_get_contents,
     simp add: pipe_empty_def pipe_contents_def ring_def)

section \<open>The loops\<close>

lemma pipe_write_loop_fits:
  assumes "pipe_wf p" "pcount p + n \<le> PIPE_BUF_SIZE"
  shows "\<exists>p'. pipe_write_loop n src m p = Some p' \<and> pipe_wf p' \<and> pipe_contents p' = pipe_contents p @ bytes_at m src n"
  using assms
proof (induction n src m p rule: pipe_write_loop.induct)
  case (2 n src m p)
  then have room: "\<not> pipe_full p" by (simp add: pipe_full_def)
  have "pcount (pipe_put (m src) p) = Suc (pcount p)" by (simp add: pipe_put_def)
  with 2 room obtain p' where "pipe_write_loop n (src + 1) m (pipe_put (m src) p) = Some p'" "pipe_wf p'"
    "pipe_contents p' = pipe_contents (pipe_put (m src) p) @ bytes_at m (src + 1) n"
    using pipe_put_wf by (auto simp: pipe_full_def)
  with 2 room show ?case by (simp add: pipe_put_contents bytes_at_Suc pipe_full_def)
qed simp

lemma pipe_write_loop_spins:
  "pcount p + n > PIPE_BUF_SIZE \<Longrightarrow> pcount p \<le> PIPE_BUF_SIZE \<Longrightarrow> pipe_write_loop n src m p = None"
proof (induction n src m p rule: pipe_write_loop.induct)
  case (2 n src m p)
  have "pcount (pipe_put (m src) p) = Suc (pcount p)" by (simp add: pipe_put_def)
  with 2 show ?case by simp
qed simp

lemma pipe_read_loop_takes:
  assumes "pipe_wf p"
  shows "\<exists>p'. pipe_read_loop n dst m p = (min n (pcount p), store_bytes m dst (take n (pipe_contents p)), p')
    \<and> pipe_wf p' \<and> pipe_contents p' = drop n (pipe_contents p)"
  using assms
proof (induction n dst m p rule: pipe_read_loop.induct)
  case (2 n dst m p)
  show ?case
  proof (cases "pipe_empty p")
    case False
    obtain b q where g: "pipe_get p = (b, q)" by (cases "pipe_get p")
    have c: "pipe_wf q" "pipe_contents p = b # pipe_contents q" "pcount p = Suc (pcount q)"
      using pipe_get_wf [OF 2(2) False] pipe_get_contents [OF 2(2) False] False g
      by (auto simp: pipe_empty_def pipe_get_def)
    obtain q' where "pipe_read_loop n (dst + 1) (m(dst := b)) q
        = (min n (pcount q), store_bytes (m(dst := b)) (dst + 1) (take n (pipe_contents q)), q')"
      "pipe_wf q'" "pipe_contents q' = drop n (pipe_contents q)"
      using 2(1) [OF _ g [symmetric] refl c(1)] c(3) by auto
    then show ?thesis by (simp add: g c)
  qed (use 2(2) in \<open>simp add: pipe_empty_def pipe_contents_def\<close>)
qed simp

section \<open>Properties\<close>

text \<open>C15. A pipe is a first-in first-out queue: whatever the interleaving of the bytes that writers put
  into the ring and readers take out of it, the bytes taken out followed by those still in the ring are
  the bytes that were in the ring followed by those put in.\<close>

theorem pipe_fifo:
  assumes "pipe_wf p" "queue_run pipe_full pipe_empty pipe_put pipe_get p ins outs p'"
  shows "pipe_wf p' \<and> pipe_contents p @ ins = outs @ pipe_contents p'"
  using assms by (intro pq.fifo)

lemma zero_pipe_wf: "pipe_wf zero_pipe"
  by (simp add: pipe_wf_def zero_pipe_def)

theorem pipe_fifo_witness:
  "\<exists>b p'. queue_run pipe_full pipe_empty pipe_put pipe_get zero_pipe [7, 8] [b] p' \<and> [7, 8] = [b] @ pipe_contents p'"
proof -
  let ?p = "pipe_put 8 (pipe_put 7 zero_pipe)"
  have r: "queue_run pipe_full pipe_empty pipe_put pipe_get zero_pipe (([] @ [7]) @ [8]) ([] @ [fst (pipe_get ?p)]) (snd (pipe_get ?p))"
    by (rule run_get, rule run_put, rule run_put, rule run_start)
      (simp_all add: pipe_full_def pipe_empty_def pipe_put_def zero_pipe_def)
  from pipe_fifo [OF zero_pipe_wf r] r show ?thesis
    by (intro exI [of _ "fst (pipe_get ?p)"] exI [of _ "snd (pipe_get ?p)"]) (simp add: zero_pipe_def pipe_contents_def)
qed

text \<open>C16. A write that fits appends its bytes to the queue and reports all of them; one that does not
  fit never returns.  A read of a pipe that is not empty delivers the oldest bytes, up to its count; at
  an empty pipe it reports the end of the file when the write end is closed and otherwise never
  returns.\<close>

theorem pipe_ops_queue:
  assumes "pipe_wf p" "a = iprivate (get_inode s (f_inode f))" "a \<noteq> 0" "p = pipes s a" "n \<le> 0x7FFFFFFFFFFFFFFF"
  shows "(\<not> read_closed p \<and> pcount p + unat n \<le> PIPE_BUF_SIZE \<longrightarrow>
      (\<exists>p'. pipe_write f buf n s = Some (int (unat n), f, s\<lparr>pipes := (pipes s)(a := p')\<rparr>) \<and> pipe_wf p'
         \<and> pipe_contents p' = pipe_contents p @ bytes_at (memory s) buf (unat n)))
    \<and> (\<not> read_closed p \<and> pcount p + unat n > PIPE_BUF_SIZE \<longrightarrow> pipe_write f buf n s = None)
    \<and> (pipe_contents p \<noteq> [] \<longrightarrow>
      (\<exists>p'. pipe_read f buf n s = Some (int (min (unat n) (pcount p)), f,
           s\<lparr>memory := store_bytes (memory s) buf (take (unat n) (pipe_contents p)), pipes := (pipes s)(a := p')\<rparr>)
         \<and> pipe_wf p' \<and> pipe_contents p' = drop (unat n) (pipe_contents p)))
    \<and> (pipe_contents p = [] \<longrightarrow> pipe_read f buf n s = (if write_closed p then Some (0, f, s) else None))"
proof -
  have n: "sint n = int (unat n)" using assms(5) by (intro sint_small) (simp add: word_le_nat_alt)
  have e: "pipe_contents p = [] \<longleftrightarrow> pcount p = 0" by (metis length_pipe_contents length_0_conv)
  have le: "pcount p \<le> PIPE_BUF_SIZE" using assms(1) by (simp add: pipe_wf_def)
  show ?thesis
  proof (intro conjI impI)
    assume w: "\<not> read_closed p \<and> pcount p + unat n \<le> PIPE_BUF_SIZE"
    with pipe_write_loop_fits [OF assms(1), of "unat n" buf "memory s"] obtain p'
      where p': "pipe_write_loop (unat n) buf (memory s) p = Some p'" "pipe_wf p'"
        "pipe_contents p' = pipe_contents p @ bytes_at (memory s) buf (unat n)" by auto
    have "pipe_write f buf n s = Some (int (unat n), f, s\<lparr>pipes := (pipes s)(a := p')\<rparr>)"
      using w p'(1) assms(3) by (simp add: pipe_write_def Let_def n flip: assms(2,4))
    with p' show "\<exists>p'. pipe_write f buf n s = Some (int (unat n), f, s\<lparr>pipes := (pipes s)(a := p')\<rparr>) \<and> pipe_wf p'
         \<and> pipe_contents p' = pipe_contents p @ bytes_at (memory s) buf (unat n)" by blast
  next
    assume "\<not> read_closed p \<and> pcount p + unat n > PIPE_BUF_SIZE"
    with pipe_write_loop_spins [OF _ le] assms(3) show "pipe_write f buf n s = None"
      by (simp add: pipe_write_def Let_def flip: assms(2,4))
  next
    assume ne: "pipe_contents p \<noteq> []"
    obtain p' where p': "pipe_read_loop (unat n) buf (memory s) p
        = (min (unat n) (pcount p), store_bytes (memory s) buf (take (unat n) (pipe_contents p)), p')"
      "pipe_wf p'" "pipe_contents p' = drop (unat n) (pipe_contents p)"
      using pipe_read_loop_takes [OF assms(1), of "unat n" buf "memory s"] by blast
    have "pipe_read f buf n s = Some (int (min (unat n) (pcount p)), f,
        s\<lparr>memory := store_bytes (memory s) buf (take (unat n) (pipe_contents p)), pipes := (pipes s)(a := p')\<rparr>)"
      using ne p'(1) assms(3) by (simp add: pipe_read_def Let_def e flip: assms(2,4))
    with p' show "\<exists>p'. pipe_read f buf n s = Some (int (min (unat n) (pcount p)), f,
           s\<lparr>memory := store_bytes (memory s) buf (take (unat n) (pipe_contents p)), pipes := (pipes s)(a := p')\<rparr>)
         \<and> pipe_wf p' \<and> pipe_contents p' = drop (unat n) (pipe_contents p)" by blast
  next
    assume "pipe_contents p = []"
    with assms(3) show "pipe_read f buf n s = (if write_closed p then Some (0, f, s) else None)"
      by (simp add: pipe_read_def Let_def e flip: assms(2,4))
  qed
qed

text \<open>A sample state with a pipe at \<open>0x5000\<close> whose file has the inode at \<open>0x100\<close>.\<close>

definition pipe_demo :: "pipe \<Rightarrow> fs_state" where
  "pipe_demo p = fs_demo\<lparr>pipes := (\<lambda>_. p), inodes := (\<lambda>_. zero_inode\<lparr>iprivate := 0x5000\<rparr>)\<rparr>"

definition pipe_file :: file_t where
  "pipe_file = \<lparr>f_inode = Heap_inode 0x100, fpos = 0, fflags = 0, frefcount = 1, f_ops = Some pipe_ops\<rparr>"

theorem pipe_ops_queue_witness:
  "(\<exists>s'. pipe_read pipe_file 0x9000 3 (pipe_demo (pipe_put 7 zero_pipe)) = Some (1, pipe_file, s') \<and> memory s' 0x9000 = 7)
   \<and> pipe_read pipe_file 0x9000 3 (pipe_demo zero_pipe) = None
   \<and> (\<exists>s'. pipe_write pipe_file 0x9000 4096 (pipe_demo zero_pipe) = Some (4096, pipe_file, s'))
   \<and> pipe_write pipe_file 0x9000 4097 (pipe_demo zero_pipe) = None"
proof -
  let ?q = "pipe_put 7 zero_pipe"
  have a: "0x5000 = iprivate (get_inode (pipe_demo p) (f_inode pipe_file))" "p = pipes (pipe_demo p) 0x5000" for p
    by (simp_all add: pipe_demo_def pipe_file_def get_inode_def)
  have z: "pcount zero_pipe = 0" "\<not> read_closed zero_pipe" "\<not> write_closed zero_pipe" "pipe_contents zero_pipe = []"
    by (simp_all add: zero_pipe_def pipe_contents_def)
  have q: "pipe_wf ?q" "pipe_contents ?q = [7]" "pcount ?q = 1"
    using pipe_put_wf [OF zero_pipe_wf] pipe_put_contents [OF zero_pipe_wf] z by (auto simp: pipe_full_def pipe_put_def)
  note w = pipe_ops_queue [OF _ a(1) _ a(2), where buf = "0x9000"]
  have 1: "\<exists>s'. pipe_read pipe_file 0x9000 3 (pipe_demo ?q) = Some (1, pipe_file, s') \<and> memory s' 0x9000 = 7"
    using w [of ?q 3] q by auto
  have 2: "pipe_read pipe_file 0x9000 3 (pipe_demo zero_pipe) = None" using w [of zero_pipe 3] zero_pipe_wf z by simp
  have 3: "\<exists>s'. pipe_write pipe_file 0x9000 4096 (pipe_demo zero_pipe) = Some (4096, pipe_file, s')"
    using w [of zero_pipe 4096] zero_pipe_wf z by auto
  have 4: "pipe_write pipe_file 0x9000 4097 (pipe_demo zero_pipe) = None"
    using w [of zero_pipe 4097] zero_pipe_wf z by simp
  from 1 2 3 4 show ?thesis by blast
qed

end
