(* ===== verification/Keyboard.thy ===== *)
theory Keyboard
  imports FsTypes Ring
begin

text \<open>
  The keyboard driver, \<open>drivers/keyboard.c\<close>, and the terminal device of \<open>drivers/tty.c\<close>.  The scan code
  that \<open>inb\<close> reads is an argument; \<open>tty_out\<close> collects the characters given to \<open>tty_putc\<close>.
\<close>

section \<open>Scan codes\<close>

text \<open>The tables have 128 entries; those not listed in the initialiser are 0.\<close>

definition sc_table :: "u8 list \<Rightarrow> u8 list" where
  "sc_table xs = xs @ replicate (128 - length xs) 0"

definition sc_normal :: "u8 list" where
  "sc_normal = sc_table (
     [0, 27] @ map of_char ''1234567890-='' @ [8] @
     [9] @ map of_char ''qwertyuiop[]'' @ [10] @
     [0] @ map of_char ''asdfghjkl;'' @ [39] @ map of_char ''`'' @
     [0, 92] @ map of_char ''zxcvbnm,./'' @ [0] @ map of_char ''*'' @ [0] @ map of_char '' '')"

definition sc_shift :: "u8 list" where
  "sc_shift = sc_table (
     [0, 27] @ map of_char ''!@#$%^&*()_+'' @ [8] @
     [9] @ map of_char ''QWERTYUIOP{}'' @ [10] @
     [0] @ map of_char ''ASDFGHJKL:'' @ [34] @ map of_char ''~'' @
     [0] @ map of_char ''|'' @ map of_char ''ZXCVBNM<>?'' @ [0] @ map of_char ''*'' @ [0] @ map of_char '' '')"

section \<open>The ring\<close>

abbreviation KBUF :: nat where "KBUF \<equiv> 512"

definition kbd_put :: "u8 \<Rightarrow> 'a fs_state_scheme \<Rightarrow> 'a fs_state_scheme" where
  "kbd_put c s =
     (let nxt = (kbd_head s + 1) mod KBUF in
      if nxt \<noteq> kbd_tail s then s\<lparr>kbd_buf := (kbd_buf s)[kbd_head s := c], kbd_head := nxt\<rparr> else s)"

definition handle_keyboard :: "u8 \<Rightarrow> 'a fs_state_scheme \<Rightarrow> 'a fs_state_scheme" where
  "handle_keyboard sc s =
     (if sc = 0x2A \<or> sc = 0x36 then s\<lparr>kbd_shift := True\<rparr>
      else if sc = 0xAA \<or> sc = 0xB6 then s\<lparr>kbd_shift := False\<rparr>
      else if sc AND 0x80 = 0 \<and> sc < 128 then
        let c = (if kbd_shift s then sc_shift else sc_normal) ! unat sc
        in if c \<noteq> 0 then kbd_put c s else s
      else s)"

definition kbd_haschar :: "'a fs_state_scheme \<Rightarrow> bool" where
  "kbd_haschar s \<longleftrightarrow> kbd_head s \<noteq> kbd_tail s"

definition kbd_getc :: "'a fs_state_scheme \<Rightarrow> (u8 \<times> 'a fs_state_scheme) option" where
  "kbd_getc s = (if kbd_tail s = kbd_head s then None
     else Some (kbd_buf s ! kbd_tail s, s\<lparr>kbd_tail := (kbd_tail s + 1) mod KBUF\<rparr>))"

definition tty_putc :: "u8 \<Rightarrow> 'a fs_state_scheme \<Rightarrow> 'a fs_state_scheme" where
  "tty_putc c s = s\<lparr>tty_out := tty_out s @ [c]\<rparr>"

definition tty_puts :: "u8 list \<Rightarrow> 'a fs_state_scheme \<Rightarrow> 'a fs_state_scheme" where
  "tty_puts cs s = fold tty_putc cs s"

text \<open>
  \<open>kbd_readline\<close> with the cursor left out: \<open>n\<close> characters are in the buffer \<open>b\<close> so far, \<open>max\<close> is its size.
\<close>

partial_function (option) readline_loop ::
  "u64 \<Rightarrow> nat \<Rightarrow> nat \<Rightarrow> 'a fs_state_scheme \<Rightarrow> (nat \<times> 'a fs_state_scheme) option" where
  "readline_loop b mx n s =
     (if n + 1 < mx then
        Option.bind (kbd_getc s) (\<lambda>(c, s).
        if c = 10 then Some (n, tty_putc 10 s)
        else if c = 8 then
          if n > 0 then readline_loop b mx (n - 1) (tty_putc 8 s) else readline_loop b mx n s
        else readline_loop b mx (n + 1) (tty_putc c (s\<lparr>memory := (memory s)(b + of_nat n := c)\<rparr>)))
      else Some (n, s))"

definition kbd_readline :: "u64 \<Rightarrow> nat \<Rightarrow> 'a fs_state_scheme \<Rightarrow> 'a fs_state_scheme option" where
  "kbd_readline b mx s = do {
     (n, s) \<leftarrow> readline_loop b mx 0 s;
     Some (s\<lparr>memory := (memory s)(b + of_nat n := 0)\<rparr>)}"

section \<open>The terminal device\<close>

partial_function (option) tty_read_loop ::
  "u64 \<Rightarrow> u64 \<Rightarrow> u64 \<Rightarrow> 'a fs_state_scheme \<Rightarrow> (u64 \<times> 'a fs_state_scheme) option" where
  "tty_read_loop b n i s =
     (if i < n then
        Option.bind (kbd_getc s) (\<lambda>(c, s).
        if c = 8 \<or> c = 127 then
          if i > 0 then tty_read_loop b n (i - 1) (tty_putc 8 s) else tty_read_loop b n i s
        else
          let s = (tty_putc c s)\<lparr>memory := (memory s)(b + i := c)\<rparr>
          in if c = 10 then Some (i + 1, s) else tty_read_loop b n (i + 1) s)
      else Some (i, s))"

definition tty_dev_read :: "file_t \<Rightarrow> u64 \<Rightarrow> u64 \<Rightarrow> 'a fs_state_scheme \<Rightarrow> (int \<times> file_t \<times> 'a fs_state_scheme) option" where
  "tty_dev_read f buf n s =
     (if n = 0 then Some (0, f, s) else do {
        (i, s) \<leftarrow> tty_read_loop buf n 0 s;
        Some (sint i, f, s)})"

definition tty_dev_write :: "file_t \<Rightarrow> u64 \<Rightarrow> u64 \<Rightarrow> 'a fs_state_scheme \<Rightarrow> int \<times> file_t \<times> 'a fs_state_scheme" where
  "tty_dev_write f buf n s =
     (sint n, f, fold (\<lambda>i s. tty_putc (memory s (buf + of_nat i)) s) [0..<unat n] s)"

section \<open>The buffer as a queue\<close>

definition kbd_wf :: "'a fs_state_scheme \<Rightarrow> bool" where
  "kbd_wf s \<longleftrightarrow> length (kbd_buf s) = KBUF \<and> kbd_head s < KBUF \<and> kbd_tail s < KBUF"

definition kbd_count :: "'a fs_state_scheme \<Rightarrow> nat" where
  "kbd_count s = (if kbd_tail s \<le> kbd_head s then kbd_head s - kbd_tail s else kbd_head s + KBUF - kbd_tail s)"

definition kbd_contents :: "'a fs_state_scheme \<Rightarrow> u8 list" where
  "kbd_contents s = ring (kbd_buf s) (kbd_tail s) (kbd_count s)"

definition kbd_full :: "'a fs_state_scheme \<Rightarrow> bool" where
  "kbd_full s \<longleftrightarrow> (kbd_head s + 1) mod KBUF = kbd_tail s"

definition kbd_take :: "'a fs_state_scheme \<Rightarrow> u8 \<times> 'a fs_state_scheme" where
  "kbd_take s = (kbd_buf s ! kbd_tail s, s\<lparr>kbd_tail := (kbd_tail s + 1) mod KBUF\<rparr>)"

lemma kbd_getc_take: "kbd_getc s = (if kbd_haschar s then Some (kbd_take s) else None)"
  by (simp add: kbd_getc_def kbd_haschar_def kbd_take_def)

lemma mod_KBUF: "h < KBUF \<Longrightarrow> Suc h mod KBUF = (if h = 511 then 0 else Suc h)"
  by auto

lemma kbd_put_contents:
  assumes "kbd_wf s" "\<not> kbd_full s"
  shows "kbd_contents (kbd_put b s) = kbd_contents s @ [b]"
proof -
  have h: "kbd_head s < KBUF" "kbd_tail s < KBUF" "length (kbd_buf s) = KBUF" using assms(1) by (simp_all add: kbd_wf_def)
  have "(kbd_tail s + kbd_count s) mod KBUF = kbd_head s" using h by (simp add: kbd_count_def)
  moreover have "kbd_count (kbd_put b s) = Suc (kbd_count s)"
    using h assms(2) unfolding kbd_full_def kbd_put_def Let_def by (auto simp: kbd_count_def mod_KBUF)
  moreover have "kbd_count s < KBUF" using h by (auto simp: kbd_count_def)
  ultimately show ?thesis
    using ring_put [of "kbd_count s" "kbd_buf s" "kbd_tail s" b] h assms(2)
    by (simp add: kbd_contents_def kbd_put_def kbd_full_def Let_def)
qed

lemma kbd_take_contents:
  assumes "kbd_wf s" "kbd_haschar s"
  shows "kbd_contents s = fst (kbd_take s) # kbd_contents (snd (kbd_take s))"
proof -
  have h: "kbd_head s < KBUF" "kbd_tail s < KBUF" "length (kbd_buf s) = KBUF" using assms(1) by (simp_all add: kbd_wf_def)
  have "0 < kbd_count s" "kbd_count (snd (kbd_take s)) = kbd_count s - 1"
    using h assms(2) unfolding kbd_haschar_def kbd_take_def by (auto simp: kbd_count_def mod_KBUF)
  then show ?thesis
    using ring_get [of "kbd_tail s" "kbd_buf s" "kbd_count s"] h by (simp add: kbd_contents_def kbd_take_def)
qed

lemma kbd_empty_iff: "kbd_wf s \<Longrightarrow> \<not> kbd_haschar s \<longleftrightarrow> kbd_contents s = []"
  by (auto simp: kbd_wf_def kbd_haschar_def kbd_contents_def ring_def kbd_count_def split: if_splits)

lemma kbd_put_wf: "kbd_wf s \<Longrightarrow> kbd_wf (kbd_put b s)"
  by (simp add: kbd_wf_def kbd_put_def Let_def)

lemma kbd_take_wf: "kbd_wf s \<Longrightarrow> kbd_wf (snd (kbd_take s))"
  by (simp add: kbd_wf_def kbd_take_def)

interpretation kq: byte_queue kbd_wf kbd_contents kbd_full "\<lambda>s. \<not> kbd_haschar s" kbd_put kbd_take
  by unfold_locales
    (auto intro: kbd_put_wf kbd_take_wf kbd_put_contents dest: kbd_empty_iff simp: kbd_take_contents [symmetric])

section \<open>Lines\<close>

text \<open>
  The line discipline on the list of waiting characters: \<open>cook n line cs\<close> is the line delivered, what
  is echoed and the characters left, or \<open>None\<close> when the characters run out before the line is complete.
\<close>

fun cook :: "nat \<Rightarrow> u8 list \<Rightarrow> u8 list \<Rightarrow> (u8 list \<times> u8 list \<times> u8 list) option" where
  "cook n line [] = (if n \<le> length line then Some (line, [], []) else None)"
| "cook n line (c # cs) =
     (if n \<le> length line then Some (line, [], c # cs)
      else if c = 8 \<or> c = 127 then
        if line = [] then cook n [] cs else map_option (apsnd (apfst (Cons 8))) (cook n (butlast line) cs)
      else if c = 10 then Some (line @ [10], [10], cs)
      else map_option (apsnd (apfst (Cons c))) (cook n (line @ [c]) cs))"

definition delivers :: "u64 \<Rightarrow> u64 \<Rightarrow> 'a fs_state_scheme \<Rightarrow> u8 list \<Rightarrow> u8 list \<Rightarrow> u8 list \<Rightarrow> 'a fs_state_scheme \<Rightarrow> bool" where
  "delivers b n s line echo rest s' \<longleftrightarrow> kbd_wf s' \<and> kbd_contents s' = rest \<and> tty_out s' = tty_out s @ echo
     \<and> length line \<le> unat n \<and> bytes_at (memory s') b (length line) = line
     \<and> (\<forall>x. unat n \<le> unat (x - b) \<longrightarrow> memory s' x = memory s x)"

lemma kbd_others [simp]:
  "kbd_wf (tty_putc c s) = kbd_wf s" "kbd_contents (tty_putc c s) = kbd_contents s"
  "kbd_wf (memory_update g s) = kbd_wf s" "kbd_contents (memory_update g s) = kbd_contents s"
  "memory (tty_putc c s) = memory s" "tty_out (tty_putc c s) = tty_out s @ [c]"
  "memory (snd (kbd_take s)) = memory s" "tty_out (snd (kbd_take s)) = tty_out s"
  by (simp_all add: kbd_wf_def kbd_contents_def kbd_count_def tty_putc_def kbd_take_def)

text \<open>Taking the first waiting character.\<close>

lemma kbd_getc_Nil: "kbd_wf s \<Longrightarrow> kbd_contents s = [] \<Longrightarrow> kbd_getc s = None"
  using kbd_empty_iff [of s] by (simp add: kbd_getc_take)

lemma kbd_getc_Cons:
  assumes "kbd_wf s" "kbd_contents s = c # cs"
  obtains s1 where "kbd_getc s = Some (c, s1)" "kbd_wf s1" "kbd_contents s1 = cs" "memory s1 = memory s" "tty_out s1 = tty_out s"
  using that [of "snd (kbd_take s)"] kbd_empty_iff [OF assms(1)] kbd_take_contents [OF assms(1)] kbd_take_wf [OF assms(1)] assms(2)
  by (auto simp: kbd_getc_take prod_eq_iff)

lemma delivers_step:
  assumes "delivers b n s1 line echo rest s'" "tty_out s1 = tty_out s @ e"
    "\<And>x. unat n \<le> unat (x - b) \<Longrightarrow> memory s1 x = memory s x"
  shows "delivers b n s line (e @ echo) rest s'"
  using assms by (simp add: delivers_def)

lemma index_length:
  assumes "k \<le> unat n"
  shows "unat (of_nat k :: u64) = k" "(of_nat k :: u64) < n \<longleftrightarrow> k < unat n"
proof -
  show "unat (of_nat k :: u64) = k" using assms unat_bound [of n] by (simp add: unat_of_nat)
  then show "(of_nat k :: u64) < n \<longleftrightarrow> k < unat n" by (simp add: word_less_nat_alt)
qed

lemma tty_read_loop_full: "\<not> i < n \<Longrightarrow> tty_read_loop b n i s = Some (i, s)"
  by (subst tty_read_loop.simps) simp

lemma tty_read_loop_empty: "i < n \<Longrightarrow> kbd_getc s = None \<Longrightarrow> tty_read_loop b n i s = None"
  by (subst tty_read_loop.simps) simp

lemma tty_read_loop_char:
  assumes "k < unat n" "kbd_getc s = Some (c, s1)"
  shows "tty_read_loop b n (of_nat k) s =
    (if c = 8 \<or> c = 127 then
       if k > 0 then tty_read_loop b n (of_nat (k - 1)) (tty_putc 8 s1) else tty_read_loop b n 0 s1
     else let s2 = (tty_putc c s1)\<lparr>memory := (memory s1)(b + of_nat k := c)\<rparr>
       in if c = 10 then Some (of_nat (Suc k), s2) else tty_read_loop b n (of_nat (Suc k)) s2)"
proof -
  have k: "unat (of_nat k :: u64) = k" "(of_nat k :: u64) < n" using assms(1) index_length [of k n] by simp_all
  have "(0 :: u64) < of_nat k \<longleftrightarrow> 0 < k" by (simp add: word_less_nat_alt k)
  moreover have "0 < k \<Longrightarrow> (of_nat (k - 1) :: u64) = of_nat k - 1" by simp
  ultimately show ?thesis using assms(2) k(2) by (subst tty_read_loop.simps) (auto simp: Let_def add.commute)
qed

lemma tty_read_loop_cook:
  assumes "kbd_wf s" "kbd_contents s = cs" "length line \<le> unat n" "bytes_at (memory s) b (length line) = line"
  shows "case cook (unat n) line cs of None \<Rightarrow> tty_read_loop b n (of_nat (length line)) s = None
    | Some (l, echo, rest) \<Rightarrow> \<exists>s'. tty_read_loop b n (of_nat (length line)) s = Some (of_nat (length l), s')
        \<and> delivers b n s l echo rest s'"
  using assms
proof (induction cs arbitrary: line s)
  case Nil
  then show ?case
    using index_length [OF Nil(3)] kbd_getc_Nil [OF Nil(1,2)]
    by (auto simp: delivers_def tty_read_loop_full tty_read_loop_empty)
next
  case (Cons c cs)
  note i = index_length [OF Cons(4)]
  show ?case
  proof (cases "length line < unat n")
    case False
    with i Cons(2-5) show ?thesis by (auto simp: tty_read_loop_full delivers_def)
  next
    case less: True
    obtain s1 where s1: "kbd_getc s = Some (c, s1)" "kbd_wf s1" "kbd_contents s1 = cs" "memory s1 = memory s" "tty_out s1 = tty_out s"
      using kbd_getc_Cons [OF Cons(2,3)] .
    note step = tty_read_loop_char [OF less s1(1), of b]
    show ?thesis
    proof (cases "c = 8 \<or> c = 127")
      case True
      show ?thesis
      proof (cases "line = []")
        case True
        with Cons(1) [of s1 "[]"] s1 \<open>c = 8 \<or> c = 127\<close> less step show ?thesis
          by (auto simp: delivers_def split: option.splits)
      next
        case False
        then have "bytes_at (memory s1) b (length line - 1) = butlast line"
          using Cons(5) s1(4) bytes_at_butlast [of "memory s" b "length line"] by simp
        with Cons(1) [of "tty_putc 8 s1" "butlast line"] s1 \<open>c = 8 \<or> c = 127\<close> less step False show ?thesis
          by (auto simp: delivers_def split: option.splits)
      qed
    next
      case False
      let ?s2 = "(tty_putc c s1)\<lparr>memory := (memory s1)(b + of_nat (length line) := c)\<rparr>"
      have m: "bytes_at (memory ?s2) b (Suc (length line)) = line @ [c]"
        using Cons(5) s1(4) less unat_bound [of n] by (simp add: bytes_at_snoc)
      have o: "unat n \<le> unat (x - b) \<Longrightarrow> memory ?s2 x = memory s x" for x
        using less i by (auto simp: s1)
      show ?thesis
        using Cons(1) [of ?s2 "line @ [c]"] m o s1 False less step i
        by (auto simp: delivers_def Let_def split: option.splits)
    qed
  qed
qed

section \<open>Property\<close>

text \<open>C23. Reading the terminal is the line discipline: with the characters \<open>cs\<close> waiting in the keyboard
  buffer, a read of at most \<open>n\<close> bytes delivers the line that \<open>cook\<close> computes from them (ended by the
  newline or by the size of the buffer, with every backspace applied), stores its bytes at \<open>buf\<close> and
  changes nothing beyond the buffer, echoes what \<open>cook\<close> says and leaves the other characters waiting.  It
  returns exactly when the waiting characters complete a line.\<close>

theorem tty_dev_read_line:
  assumes "kbd_wf s" "kbd_contents s = cs" "0 < n" "unat n < 2 ^ 63"
  shows "case cook (unat n) [] cs of
      None \<Rightarrow> tty_dev_read f buf n s = None
    | Some (line, echo, rest) \<Rightarrow>
        \<exists>s'. tty_dev_read f buf n s = Some (int (length line), f, s')
          \<and> length line \<le> unat n \<and> bytes_at (memory s') buf (length line) = line
          \<and> (\<forall>x. unat n \<le> unat (x - buf) \<longrightarrow> memory s' x = memory s x)
          \<and> tty_out s' = tty_out s @ echo \<and> kbd_wf s' \<and> kbd_contents s' = rest"
proof (cases "cook (unat n) [] cs")
  case None
  with tty_read_loop_cook [OF assms(1,2), of "[]" n buf] assms(3) show ?thesis
    by (simp add: tty_dev_read_def)
next
  case (Some r)
  obtain line echo rest where r: "r = (line, echo, rest)" by (cases r)
  from tty_read_loop_cook [OF assms(1,2), of "[]" n buf] obtain s'
    where s': "tty_read_loop buf n 0 s = Some (of_nat (length line), s')" "delivers buf n s line echo rest s'"
    by (auto simp: Some r)
  then have l: "length line \<le> unat n" by (simp add: delivers_def)
  then have "sint (of_nat (length line) :: u64) = int (length line)"
    using sint_small [of "of_nat (length line)"] index_length(1) [OF l] assms(4) by simp
  then have "tty_dev_read f buf n s = Some (int (length line), f, s')" using s'(1) assms(3) by (simp add: tty_dev_read_def)
  with s'(2) show ?thesis by (auto simp: Some r delivers_def)
qed

text \<open>The user types \<open>l\<close>, \<open>x\<close>, a backspace, \<open>s\<close> and the newline.\<close>

definition typed :: "fs_state" where
  "typed = fold handle_keyboard [0x26, 0x2D, 0x0E, 0x1F, 0x1C] fs_demo"

lemma typed_contents: "kbd_wf typed" "kbd_contents typed = [0x6C, 0x78, 8, 0x73, 10]"
  by (simp_all add: typed_def fs_demo_simps handle_keyboard_def kbd_put_def Let_def sc_normal_def sc_table_def
      kbd_wf_def kbd_contents_def kbd_count_def ring_def upt_conv_Cons)

theorem tty_dev_read_line_witness:
  "\<exists>s'. tty_dev_read (files fs_demo 0) 0x9000 80 typed = Some (3, files fs_demo 0, s') \<and> bytes_at (memory s') 0x9000 3 = [0x6C, 0x73, 10]
     \<and> kbd_contents s' = []"
  using tty_dev_read_line [OF typed_contents, of 80 "files fs_demo 0" "0x9000"]
  by (auto simp: numeral_3_eq_3)

end
