(* ===== verification/Vfs.thy ===== *)
theory Vfs
  imports Ramfs Procfs Pipe Keyboard
begin

text \<open>
  The file operations of \<open>kernel/fs/vfs.c\<close> over the four back ends, the device node of
  \<open>tty_dev_init\<close> and the first process of \<open>proc_init\<close>, which opens it.

  A member of \<open>fs_ops_t\<close> is a function of the table's name with value \<open>None\<close> where the initialiser of
  the table leaves the pointer \<open>NULL\<close>; no table sets \<open>open\<close>.  An open file is named by its address, 0 is
  \<open>NULL\<close>.
\<close>

abbreviation slash :: u8 where "slash \<equiv> 0x2F"

section \<open>Function tables\<close>

definition ops_lookup :: "fs_ops \<Rightarrow> (inode_ptr \<Rightarrow> u8 list \<Rightarrow> 'a fs_state_scheme \<Rightarrow> (inode_ptr option \<times> 'a fs_state_scheme) option) option" where
  "ops_lookup ops = (case ops of
     ramfs_ops \<Rightarrow> Some (\<lambda>d name s. Some (ramfs_lookup d name s, s)) | procfs_ops \<Rightarrow> Some procfs_lookup | _ \<Rightarrow> None)"

definition ops_read :: "fs_ops \<Rightarrow> file_t \<Rightarrow> u64 \<Rightarrow> u64 \<Rightarrow> 'a fs_state_scheme \<Rightarrow> (int \<times> file_t \<times> 'a fs_state_scheme) option" where
  "ops_read ops f buf n s = (case ops of
     ramfs_ops \<Rightarrow> Some (ramfs_read f buf n s) | procfs_ops \<Rightarrow> Some (proc_read f buf n s)
   | pipe_ops \<Rightarrow> pipe_read f buf n s | tty_dev_ops \<Rightarrow> tty_dev_read f buf n s)"

definition ops_write :: "fs_ops \<Rightarrow> (file_t \<Rightarrow> u64 \<Rightarrow> u64 \<Rightarrow> 'a fs_state_scheme \<Rightarrow> (int \<times> file_t \<times> 'a fs_state_scheme) option) option" where
  "ops_write ops = (case ops of
     ramfs_ops \<Rightarrow> Some ramfs_write | procfs_ops \<Rightarrow> None
   | pipe_ops \<Rightarrow> Some pipe_write | tty_dev_ops \<Rightarrow> Some (\<lambda>f buf n s. Some (tty_dev_write f buf n s)))"

section \<open>Paths\<close>

text \<open>One component: at most 255 characters up to the next slash, and the rest of the path.\<close>

definition next_component :: "u8 list \<Rightarrow> u8 list \<times> u8 list" where
  "next_component p =
     (let c = take 255 (takeWhile (\<lambda>x. x \<noteq> slash) p); rest = drop (length c) p
      in (c, if rest \<noteq> [] \<and> hd rest = slash then tl rest else rest))"

lemma next_component_shorter:
  assumes "p \<noteq> []" "(c, rest) = next_component p"
  shows "length rest < length p"
proof (cases "hd p = slash")
  case True
  with assms show ?thesis by (cases p) (auto simp: next_component_def)
next
  case False
  with assms have "c \<noteq> []" by (cases p) (auto simp: next_component_def Let_def)
  moreover from assms have "length rest \<le> length p - length c"
    by (auto simp: next_component_def Let_def split: if_splits)
  ultimately show ?thesis using assms(1) by (cases p; cases c) auto
qed

function vfs_walk :: "inode_ptr \<Rightarrow> u8 list \<Rightarrow> 'a fs_state_scheme \<Rightarrow> (inode_ptr option \<times> 'a fs_state_scheme) option" where
  "vfs_walk cur p s =
     (if p = [] then Some (Some cur, s) else
      case next_component p of (c, rest) \<Rightarrow>
      if c = [] then vfs_walk cur rest s else
      case Option.bind (iops (get_inode s cur)) ops_lookup of
        None \<Rightarrow> Some (None, s)
      | Some lookup \<Rightarrow>
          (case lookup cur c s of
             None \<Rightarrow> None
           | Some (None, s) \<Rightarrow> Some (None, s)
           | Some (Some cur, s) \<Rightarrow> vfs_walk cur rest s))"
  by pat_completeness auto
termination
  by (relation "measure (\<lambda>(cur, p, s). length p)") (auto intro: next_component_shorter)

declare vfs_walk.simps [simp del]

definition vfs_lookup :: "u8 list \<Rightarrow> 'a fs_state_scheme \<Rightarrow> (inode_ptr option \<times> 'a fs_state_scheme) option" where
  "vfs_lookup path s =
     (case find_mount path s of None \<Rightarrow> Some (None, s) | Some m \<Rightarrow>
      case m_root m of None \<Rightarrow> Some (None, s) | Some root \<Rightarrow>
      let rel = drop (length (m_path m)) path;
          rel = (if rel \<noteq> [] \<and> hd rel = slash then tl rel else rel) in
      if rel = [] then Some (Some root, s) else
      case (ops_lookup (m_ops m) :: (inode_ptr \<Rightarrow> u8 list \<Rightarrow> 'a fs_state_scheme \<Rightarrow> _) option) of
        None \<Rightarrow> Some (None, s)
      | Some _ \<Rightarrow> vfs_walk root rel s)"

text \<open>
  \<open>split_path\<close>: \<open>last\<close> stays at the first character when no slash follows it, and that character is
  dropped from the name whatever it is.
\<close>

definition split_path :: "u8 list \<Rightarrow> (u8 list \<times> u8 list) option" where
  "split_path path = do {
     dir \<leftarrow> copy_name 255 path;
     let lst = fold (\<lambda>i lst. if dir ! i = slash then i else lst) [0..<length dir] 0;
     Some (if lst = 0 then ([slash], drop 1 dir) else (take lst dir, drop (lst + 1) dir))}"

section \<open>Operations on paths\<close>

definition vfs_create :: "u8 list \<Rightarrow> file_type_t \<Rightarrow> 'a fs_state_scheme \<Rightarrow> (int \<times> 'a fs_state_scheme) option" where
  "vfs_create path ty s = do {
     (dir, name) \<leftarrow> split_path path;
     if name = [] then Some (-EINVAL, s) else do {
       (r, s) \<leftarrow> vfs_lookup dir s;
       case r of None \<Rightarrow> Some (-ENOENT, s)
       | Some parent \<Rightarrow>
           if itype (get_inode s parent) \<noteq> FT_DIR then Some (-ENOENT, s)
           else if iops (get_inode s parent) \<noteq> Some ramfs_ops then Some (-EACCES, s)
           else ramfs_create parent name ty s}}"

definition vfs_unlink :: "u8 list \<Rightarrow> 'a fs_state_scheme \<Rightarrow> (int \<times> 'a fs_state_scheme) option" where
  "vfs_unlink path s = do {
     (dir, name) \<leftarrow> split_path path;
     if name = [] then Some (-EINVAL, s) else do {
       (r, s) \<leftarrow> vfs_lookup dir s;
       case r of None \<Rightarrow> Some (-ENOENT, s)
       | Some parent \<Rightarrow>
           if iops (get_inode s parent) \<noteq> Some ramfs_ops then Some (-EACCES, s)
           else Some (ramfs_unlink parent name s)}}"

text \<open>The part of \<open>vfs_open\<close> after the inode is found.\<close>

definition open_inode :: "inode_ptr \<Rightarrow> u32 \<Rightarrow> 'a fs_state_scheme \<Rightarrow> (u64 \<times> 'a fs_state_scheme) option" where
  "open_inode i flags s = do {
     (a, s) \<leftarrow> kmalloc 32 s;
     if a = 0 then Some (0, s) else do {
       let s = (if flags AND O_TRUNC \<noteq> 0 then upd_inode i (\<lambda>x. x\<lparr>isize := 0\<rparr>) s else s);
       let f = \<lparr>f_inode = i, fpos = (if flags AND O_APPEND \<noteq> 0 then isize (get_inode s i) else 0),
                fflags = flags, frefcount = 1, f_ops = iops (get_inode s i)\<rparr>;
       Some (a, s\<lparr>files := (files s)(a := f)\<rparr>)}}"

definition vfs_open :: "u8 list \<Rightarrow> u32 \<Rightarrow> 'a fs_state_scheme \<Rightarrow> (u64 \<times> 'a fs_state_scheme) option" where
  "vfs_open path flags s = do {
     (r, s) \<leftarrow> vfs_lookup path s;
     case r of Some i \<Rightarrow> open_inode i flags s
     | None \<Rightarrow>
         if flags AND O_CREAT = 0 then Some (0, s) else do {
           (_, s) \<leftarrow> vfs_create path FT_REG s;
           (r, s) \<leftarrow> vfs_lookup path s;
           case r of None \<Rightarrow> Some (0, s) | Some i \<Rightarrow> open_inode i flags s}}"

section \<open>Operations on open files\<close>

definition vfs_close :: "u64 \<Rightarrow> 'a fs_state_scheme \<Rightarrow> (int \<times> 'a fs_state_scheme) option" where
  "vfs_close a s =
     (if a = 0 then Some (-EBADF, s) else
      let f = (files s a)\<lparr>frefcount := frefcount (files s a) - 1\<rparr>; s = s\<lparr>files := (files s)(a := f)\<rparr> in
      if frefcount f > 0 then Some (0, s) else do {
        s \<leftarrow> (if f_ops f = Some pipe_ops then map_option snd (pipe_close f s) else Some s);
        s \<leftarrow> kfree a s;
        Some (0, s)})"

text \<open>The \<open>file_t\<close> that a back end leaves behind is stored at the address of the open file.\<close>

definition put_file :: "u64 \<Rightarrow> int \<times> file_t \<times> 'a fs_state_scheme \<Rightarrow> int \<times> 'a fs_state_scheme" where
  "put_file a = (\<lambda>(r, f, s). (r, s\<lparr>files := (files s)(a := f)\<rparr>))"

definition vfs_read :: "u64 \<Rightarrow> u64 \<Rightarrow> u64 \<Rightarrow> 'a fs_state_scheme \<Rightarrow> (int \<times> 'a fs_state_scheme) option" where
  "vfs_read a buf n s =
     (if a = 0 then Some (-EBADF, s) else
      case f_ops (files s a) of None \<Rightarrow> Some (-EBADF, s)
      | Some ops \<Rightarrow> map_option (put_file a) (ops_read ops (files s a) buf n s))"

definition vfs_write :: "u64 \<Rightarrow> u64 \<Rightarrow> u64 \<Rightarrow> 'a fs_state_scheme \<Rightarrow> (int \<times> 'a fs_state_scheme) option" where
  "vfs_write a buf n s =
     (if a = 0 then Some (-EBADF, s) else
      case Option.bind (f_ops (files s a)) ops_write of None \<Rightarrow> Some (-EBADF, s)
      | Some write \<Rightarrow> map_option (put_file a) (write (files s a) buf n s))"

definition vfs_readdir :: "u64 \<Rightarrow> 'a fs_state_scheme \<Rightarrow> (u8 list \<times> inode_ptr) option \<times> 'a fs_state_scheme" where
  "vfs_readdir a s =
     (if a = 0 \<or> f_ops (files s a) \<noteq> Some ramfs_ops then (None, s)
      else case ramfs_readdir (files s a) s of (d, f) \<Rightarrow> (d, s\<lparr>files := (files s)(a := f)\<rparr>))"

section \<open>The terminal and the first process\<close>

definition tty0_path :: "u8 list" where
  "tty0_path = str ''/dev/tty0''"

definition tty_dev_init :: "'a fs_state_scheme \<Rightarrow> 'a fs_state_scheme option" where
  "tty_dev_init s = do {
     (_, s) \<leftarrow> vfs_create tty0_path FT_CHR s;
     (r, s) \<leftarrow> vfs_lookup tty0_path s;
     case r of None \<Rightarrow> Some s | Some i \<Rightarrow> Some (upd_inode i (\<lambda>x. x\<lparr>iops := Some tty_dev_ops\<rparr>) s)}"

definition open_fd0 :: "nat \<Rightarrow> u32 \<Rightarrow> 'a fs_state_scheme \<Rightarrow> 'a fs_state_scheme option" where
  "open_fd0 fd flags s = do {
     (f, s) \<leftarrow> vfs_open tty0_path flags s;
     Some (if f \<noteq> 0 then upd_proc 0 (\<lambda>p. p\<lparr>fds := (fds p)[fd := (fds p ! fd)\<lparr>fd_file := f\<rparr>]\<rparr>) s else s)}"

definition proc_init :: "'a fs_state_scheme \<Rightarrow> 'a fs_state_scheme option" where
  "proc_init s = do {
     let s = s\<lparr>proc_table := replicate MAX_PROCS zero_process\<rparr>;
     let s = upd_proc 0 (\<lambda>p. p\<lparr>pid := 0, pstate := PROC_RUNNING, timeslice := 5, pml4 := vmm_kernel_pml4 s,
               cwd := root_dir\<rparr>) s;
     let s = proc_set_current 0 s;
     s \<leftarrow> open_fd0 0 O_RDONLY s;
     s \<leftarrow> open_fd0 1 O_WRONLY s;
     open_fd0 2 O_WRONLY s}"

section \<open>Paths and trees\<close>

text \<open>The components of a path, and the node that they lead to in the tree of the RAM file system.\<close>

definition component_ok :: "u8 list \<Rightarrow> bool" where
  "component_ok c \<longleftrightarrow> c \<noteq> [] \<and> slash \<notin> set c \<and> length c \<le> 255"

fun join :: "u8 list list \<Rightarrow> u8 list" where
  "join [] = []"
| "join [c] = c"
| "join (c # d # cs) = c @ slash # join (d # cs)"

fun resolve :: "nat \<Rightarrow> u8 list list \<Rightarrow> 'a fs_state_scheme \<Rightarrow> nat option" where
  "resolve n [] s = Some n"
| "resolve n (c # cs) s =
     (if iops (rinode (nodes s ! n)) = Some ramfs_ops then
        case find (\<lambda>k. rname (nodes s ! k) = c) (rchildren (nodes s ! n)) of
          None \<Rightarrow> None | Some k \<Rightarrow> resolve k cs s
      else None)"

lemma resolve_append: "resolve n (cs @ ds) s = Option.bind (resolve n cs s) (\<lambda>k. resolve k ds s)"
  by (induction n cs s rule: resolve.induct) (auto split: option.splits)

lemma next_component_join:
  assumes "component_ok c"
  shows "next_component (join (c # cs)) = (c, join cs)"
proof -
  define r where "r = (if cs = [] then [] else slash # join cs)"
  have j: "join (c # cs) = c @ r" by (cases cs) (simp_all add: r_def)
  have t: "takeWhile (\<lambda>x. x \<noteq> slash) (c @ r) = c"
    using assms by (auto simp: component_ok_def takeWhile_append r_def)
  have "take 255 c = c" using assms by (simp add: component_ok_def)
  then show ?thesis unfolding next_component_def j t by (simp add: r_def)
qed

lemma join_nonempty: "component_ok c \<Longrightarrow> join (c # cs) \<noteq> []"
  by (cases cs) (auto simp: component_ok_def)

lemma vfs_walk_resolve:
  assumes "ramfs_wf (nodes s)" "n < length (nodes s)" "\<forall>c \<in> set cs. component_ok c"
  shows "vfs_walk (Node_inode n) (join cs) s = Some (map_option Node_inode (resolve n cs s), s)"
  using assms(2,3)
proof (induction cs arbitrary: n)
  case (Cons c cs)
  have c: "component_ok c" using Cons(3) by simp
  have ops: "iops (rinode (nodes s ! n)) \<noteq> Some procfs_ops" "iops (rinode (nodes s ! n)) \<noteq> Some pipe_ops"
    using ramfs_wfD(2) [OF assms(1) Cons(2)] by (simp_all add: node_ok_def)
  have ne: "c \<noteq> []" using c by (simp add: component_ok_def)
  show ?case
  proof (cases "iops (rinode (nodes s ! n)) = Some ramfs_ops")
    case True
    show ?thesis
    proof (cases "find (\<lambda>k. rname (nodes s ! k) = c) (rchildren (nodes s ! n))")
      case None
      with True ne show ?thesis
        by (subst vfs_walk.simps) (simp add: join_nonempty [OF c] next_component_join [OF c] get_inode_def ops_lookup_def ramfs_lookup_def)
    next
      case (Some k)
      then have "k < length (nodes s)"
        using ramfs_wf_child [OF assms(1) Cons(2)] by (auto simp: find_Some_iff in_set_conv_nth)
      with Cons(1) [of k] Cons(3) True Some ne show ?thesis
        by (subst vfs_walk.simps) (simp add: join_nonempty [OF c] next_component_join [OF c] get_inode_def ops_lookup_def ramfs_lookup_def)
    qed
  next
    case False
    with ops have "Option.bind (iops (rinode (nodes s ! n))) ops_lookup
        = (None :: (inode_ptr \<Rightarrow> u8 list \<Rightarrow> 'a fs_state_scheme \<Rightarrow> (inode_ptr option \<times> 'a fs_state_scheme) option) option)"
      by (cases "iops (rinode (nodes s ! n))") (auto simp: ops_lookup_def split: fs_ops.splits)
    with False ne show ?thesis
      by (subst vfs_walk.simps) (simp add: join_nonempty [OF c] next_component_join [OF c] get_inode_def)
  qed
qed (subst vfs_walk.simps, simp)

text \<open>A mount of the RAM file system at the root.\<close>

definition root_mount :: "nat \<Rightarrow> mount \<Rightarrow> bool" where
  "root_mount r m \<longleftrightarrow> m_path m = [slash] \<and> m_ops m = ramfs_ops \<and> m_root m = Some (Node_inode r)"

lemma vfs_lookup_root:
  assumes "ramfs_wf (nodes s)" "r < length (nodes s)" "find_mount (slash # join cs) s = Some m" "root_mount r m"
    "\<forall>c \<in> set cs. component_ok c"
  shows "vfs_lookup (slash # join cs) s = Some (map_option Node_inode (resolve r cs s), s)"
proof -
  have h: "join cs \<noteq> [] \<Longrightarrow> hd (join cs) \<noteq> slash"
    using assms(5) by (cases cs rule: join.cases) (auto simp: component_ok_def hd_append dest: hd_in_set)
  show ?thesis
  proof (cases "cs = []")
    case True
    then show ?thesis using assms(3,4) by (simp add: vfs_lookup_def root_mount_def)
  next
    case False
    then have "join cs \<noteq> []" using assms(5) join_nonempty by (cases cs) auto
    with h vfs_walk_resolve [OF assms(1,2,5)] assms(3,4) show ?thesis
      by (simp add: vfs_lookup_def root_mount_def ops_lookup_def)
  qed
qed

section \<open>Creating a file by its path\<close>

lemma join_snoc: "cs \<noteq> [] \<Longrightarrow> join (cs @ [c]) = join cs @ slash # c"
  by (induction cs rule: join.induct) auto

lemma last_slash:
  assumes "slash \<notin> set name"
  shows "fold (\<lambda>i lst. if (pre @ slash # name) ! i = slash then i else lst) [0..<length (pre @ slash # name)] 0 = length pre"
proof -
  let ?f = "\<lambda>i lst. if (pre @ slash # name) ! i = slash then i else lst"
  have u: "[0..<length (pre @ slash # name)] = [0..<length pre] @ length pre # [Suc (length pre)..<length (pre @ slash # name)]"
    using upt_add_eq_append [of 0 "length pre" "Suc (length name)"] by (simp add: upt_conv_Cons del: upt_Suc)
  have "fold ?f [Suc (length pre)..<length (pre @ slash # name)] k = k" for k
  proof (rule fold_invariant [where Q = "\<lambda>i. i \<in> {Suc (length pre)..<length (pre @ slash # name)}"])
    show "?f i l = k" if "i \<in> {Suc (length pre)..<length (pre @ slash # name)}" "l = k" for i l
    proof -
      have "(pre @ slash # name) ! i = name ! (i - Suc (length pre))" "i - Suc (length pre) < length name"
        using that(1) by (auto simp: nth_append nth_Cons')
      with assms that(2) show ?thesis by (metis nth_mem)
    qed
  qed auto
  then show ?thesis unfolding u by simp
qed

lemma split_path_join:
  assumes "component_ok name" "length (slash # join (cs @ [name])) < 255" "\<forall>c \<in> set cs. component_ok c"
  shows "split_path (slash # join (cs @ [name])) = Some (slash # join cs, name)"
proof (cases "cs = []")
  case True
  have "slash \<notin> set name" using assms(1) by (simp add: component_ok_def)
  from last_slash [OF this, of "[]"] True assms(2) show ?thesis by (simp add: split_path_def copy_name_def Let_def)
next
  case False
  have "slash \<notin> set name" using assms(1) by (simp add: component_ok_def)
  note l = last_slash [OF this, of "slash # join cs"]
  have p: "slash # join (cs @ [name]) = (slash # join cs) @ slash # name" using join_snoc [OF False] by simp
  from l show ?thesis using assms(2) unfolding p by (simp add: split_path_def copy_name_def Let_def)
qed

text \<open>A new entry at the end of a directory leaves the resolution of every existing path alone.\<close>

lemma find_append_Some: "find P xs = Some x \<Longrightarrow> find P (xs @ ys) = Some x"
  by (induction xs) (auto split: if_splits)

lemma resolve_kept:
  assumes "ramfs_wf (nodes s)" "d < length (nodes s)"
    "nodes t = (nodes s @ [node])[d := (nodes s ! d)\<lparr>rchildren := rchildren (nodes s ! d) @ [length (nodes s)]\<rparr>]"
    "n < length (nodes s)" "resolve n cs s = Some k"
  shows "resolve n cs t = Some k"
  using assms(4,5)
proof (induction cs arbitrary: n)
  case (Cons c cs)
  have same: "rname (nodes t ! k) = rname (nodes s ! k)" "rinode (nodes t ! k) = rinode (nodes s ! k)" if "k < length (nodes s)" for k
    using that assms(2,3) by (cases "k = d"; simp add: nth_append)+
  obtain x where x: "find (\<lambda>k. rname (nodes s ! k) = c) (rchildren (nodes s ! n)) = Some x" "resolve x cs s = Some k"
    and ops: "iops (rinode (nodes s ! n)) = Some ramfs_ops"
    using Cons(3) by (auto split: if_splits option.splits)
  have ch: "k < length (nodes s)" if "k \<in> set (rchildren (nodes s ! n))" for k
    using ramfs_wf_child [OF assms(1) Cons(2) that] by simp
  have "find (\<lambda>k. rname (nodes t ! k) = c) (rchildren (nodes s ! n)) = Some x"
    using x(1) same(1) ch by (subst find_cong [OF refl]) auto
  then have "find (\<lambda>k. rname (nodes t ! k) = c) (rchildren (nodes t ! n)) = Some x"
    using Cons(2) assms(2,3) by (cases "n = d") (simp_all add: nth_append find_append_Some)
  moreover have "x < length (nodes s)" using x(1) ch by (auto simp: find_Some_iff)
  ultimately show ?case using Cons(1) [OF _ x(2)] ops same(2) [OF Cons(2)] by simp
qed simp

section \<open>Properties\<close>

text \<open>C18. Looking up a path under the root mount is the walk down the tree: for a path made of components
  of 1 to 255 characters, \<open>vfs_lookup\<close> returns, leaves the state alone, and finds the node that the
  components lead to from the root, child by child through directories of the RAM file system, or nothing
  if one of them is missing.\<close>

theorem vfs_lookup_resolves:
  assumes "ramfs_wf (nodes s)" "r < length (nodes s)" "find_mount (slash # join cs) s = Some m" "root_mount r m"
    "\<forall>c \<in> set cs. component_ok c"
  shows "vfs_lookup (slash # join cs) s = Some (map_option Node_inode (resolve r cs s), s)"
  using assms by (rule vfs_lookup_root)

text \<open>The RAM file system at the root and the process file system at \<open>/proc\<close>.\<close>

definition mnt :: "u8 list \<Rightarrow> fs_ops \<Rightarrow> inode_ptr \<Rightarrow> mount" where
  "mnt path ops root = \<lparr>m_path = path, m_ops = ops, m_root = Some root, m_active = True\<rparr>"

definition vfs_demo :: fs_state where
  "vfs_demo = (vfs_init ramfs_demo)\<lparr>mount_count := 2,
     mounts := (mounts (vfs_init ramfs_demo))[0 := mnt [slash] ramfs_ops (Node_inode 0), 1 := mnt (str ''/proc'') procfs_ops (Heap_inode 0x100)]\<rparr>"

lemma vfs_demo_nodes: "nodes vfs_demo = nodes ramfs_demo" "ramfs_wf (nodes vfs_demo)" "length (nodes vfs_demo) = 1"
  using ramfs_demo_dir(1) by (simp_all add: vfs_demo_def vfs_init_def dir_ok_def) (simp add: ramfs_demo_def)

lemma fold_inactive:
  "(\<And>i. i \<in> set is \<Longrightarrow> \<not> m_active (mounts s ! i)) \<Longrightarrow> fold (better_mount path s) is b = b"
  by (induction "is" arbitrary: b) (auto simp: better_mount_def split: prod.splits)

lemma find_mount_demo:
  "find_mount path vfs_demo =
     (if mount_matches path (mnt (str ''/proc'') procfs_ops (Heap_inode 0x100)) then Some (mnt (str ''/proc'') procfs_ops (Heap_inode 0x100))
      else if mount_matches path (mnt [slash] ramfs_ops (Node_inode 0)) then Some (mnt [slash] ramfs_ops (Node_inode 0)) else None)"
proof -
  have u: "[0..<MAX_MOUNTS] = 0 # Suc 0 # [Suc (Suc 0)..<MAX_MOUNTS]"
    by (subst upt_conv_Cons, simp, subst upt_conv_Cons, simp, rule refl)
  have m: "mounts vfs_demo ! 0 = mnt [slash] ramfs_ops (Node_inode 0)" "mounts vfs_demo ! Suc 0 = mnt (str ''/proc'') procfs_ops (Heap_inode 0x100)"
    by (simp_all add: vfs_demo_def vfs_init_def)
  have inactive: "fold (better_mount path vfs_demo) [Suc (Suc 0)..<MAX_MOUNTS] b = b" for b
  proof (rule fold_inactive)
    fix i
    assume "i \<in> set [Suc (Suc 0)..<MAX_MOUNTS]"
    then have "i \<noteq> 0" "i \<noteq> 1" "i < MAX_MOUNTS" unfolding set_upt by simp_all
    then show "\<not> m_active (mounts vfs_demo ! i)" by (simp add: vfs_demo_def vfs_init_def)
  qed
  show ?thesis
    unfolding find_mount_def u by (simp add: better_mount_def [of _ _ 0] better_mount_def [of _ _ "Suc 0"] inactive m mnt_def str_def Let_def del: upt_rec_numeral upt_Suc)
qed

lemma demo_root: "root_mount 0 (mnt [slash] ramfs_ops (Node_inode 0))"
  by (simp add: root_mount_def mnt_def)

theorem vfs_lookup_resolves_witness:
  "vfs_lookup (str ''/a/b'') vfs_demo = Some (None, vfs_demo) \<and> vfs_lookup (str ''/'') vfs_demo = Some (Some (Node_inode 0), vfs_demo)"
proof -
  have p: "str ''/a/b'' = slash # join [str ''a'', str ''b'']" "str ''/'' = slash # join []" by (simp_all add: str_def)
  have f: "find_mount (slash # join [str ''a'', str ''b'']) vfs_demo = Some (mnt [slash] ramfs_ops (Node_inode 0))"
    "find_mount (slash # join []) vfs_demo = Some (mnt [slash] ramfs_ops (Node_inode 0))"
    by (simp_all add: find_mount_demo mount_matches_def mnt_def str_def)
  have "resolve 0 [str ''a'', str ''b''] vfs_demo = None"
    by (simp add: vfs_demo_nodes(1)) (simp add: ramfs_demo_def)
  with vfs_lookup_resolves [OF vfs_demo_nodes(2) _ f(1) demo_root] vfs_lookup_resolves [OF vfs_demo_nodes(2) _ f(2) demo_root]
  show ?thesis unfolding p by (simp add: vfs_demo_nodes(3) component_ok_def str_def)
qed

text \<open>C19. Creating a file by its path and looking the path up: when the path of the directory leads to a
  directory with room and without the name, \<open>vfs_create\<close> succeeds and \<open>vfs_lookup\<close> of the same path then
  finds a new empty file of the given type and name.\<close>

theorem vfs_create_lookup:
  assumes "ramfs_wf (nodes s)" "r < length (nodes s)" "root_mount r m"
    "find_mount (slash # join cs) s = Some m" "find_mount (slash # join (cs @ [name])) s = Some m"
    "\<forall>c \<in> set (cs @ [name]). component_ok c" "length (slash # join (cs @ [name])) < 255"
    "resolve r cs s = Some d" "dir_ok d s" "dir_room d name s" "ramfs_lookup (Node_inode d) name s = None"
    "rtype (nodes s ! d) = FT_DIR" "iops (rinode (nodes s ! d)) = Some ramfs_ops"
  shows "\<exists>s1 c. vfs_create (slash # join (cs @ [name])) ty s = Some (0, s1)
    \<and> vfs_lookup (slash # join (cs @ [name])) s1 = Some (Some (Node_inode c), s1) \<and> fresh_node name ty (nodes s1 ! c)"
proof -
  have d: "d < length (nodes s)" using assms(9) by (simp add: dir_ok_def)
  let ?t = "dir_create d ty name s"
  have a: "dir_lookup d s name = None" using assms(11) by (simp add: dir_lookup_def)
  obtain node where n: "ramfs_create (Node_inode d) name ty s = Some (0, ?t)" "fresh_node name ty node"
    "?t = s\<lparr>nodes := (nodes s @ [node])[d := (nodes s ! d)\<lparr>rchildren := rchildren (nodes s ! d) @ [length (nodes s)]\<rparr>]\<rparr>"
    using dir_create_eq [OF assms(9,10)] by metis
  have wf: "ramfs_wf (nodes ?t)" using dir_create_ok [OF assms(9,10) a] by (simp add: dir_ok_def)
  have "itype (rinode (nodes s ! d)) = FT_DIR" using ramfs_wfD(2) [OF assms(1) d] assms(12) by (simp add: node_ok_def)
  then have c: "vfs_create (slash # join (cs @ [name])) ty s = Some (0, ?t)"
    using split_path_join [of name cs] vfs_lookup_root [OF assms(1,2,4,3)] assms(6-8,13) n(1)
    by (simp add: vfs_create_def get_inode_def) (auto simp: component_ok_def)
  have "resolve r cs ?t = Some d" using resolve_kept [OF assms(1) d _ assms(2,8), of ?t node] n(3) by simp
  moreover have "resolve d [name] ?t = Some (length (nodes s))"
    using dir_create_lookup(1) [OF assms(9,10) a, of ty] assms(13) d n(3)
    by (simp add: dir_lookup_def ramfs_lookup_def)
  ultimately have "resolve r (cs @ [name]) ?t = Some (length (nodes s))" by (simp only: resolve_append bind.simps)
  moreover have "find_mount (slash # join (cs @ [name])) ?t = Some m" using assms(5) n(3) by (simp add: find_mount_def better_mount_def cong: fold_cong)
  moreover have "r < length (nodes ?t)" "nodes ?t ! length (nodes s) = node" using assms(2) d n(3) by simp_all
  ultimately show ?thesis
    using vfs_lookup_root [OF wf _ _ assms(3,6)] c n(2) by (intro exI [of _ ?t] exI [of _ "length (nodes s)"]) simp
qed

theorem vfs_create_lookup_witness:
  "\<exists>s1 c. vfs_create (str ''/motd'') FT_REG vfs_demo = Some (0, s1)
     \<and> vfs_lookup (str ''/motd'') s1 = Some (Some (Node_inode c), s1) \<and> rname (nodes s1 ! c) = str ''motd''"
proof -
  have p: "str ''/motd'' = slash # join ([] @ [str ''motd''])" by (simp add: str_def)
  have d: "dir_ok 0 vfs_demo" "dir_room 0 (str ''motd'') vfs_demo" "ramfs_lookup (Node_inode 0) (str ''motd'') vfs_demo = None"
    using ramfs_demo_dir by (simp_all add: dir_ok_def dir_room_def dir_names_def ramfs_lookup_def vfs_demo_nodes(1))
  have f: "find_mount (slash # join []) vfs_demo = Some (mnt [slash] ramfs_ops (Node_inode 0))"
    "find_mount (slash # join ([] @ [str ''motd''])) vfs_demo = Some (mnt [slash] ramfs_ops (Node_inode 0))"
    by (simp_all add: find_mount_demo mount_matches_def mnt_def str_def)
  have r: "rtype (nodes vfs_demo ! 0) = FT_DIR" "iops (rinode (nodes vfs_demo ! 0)) = Some ramfs_ops"
    by (simp_all add: vfs_demo_nodes(1) ramfs_demo_def)
  show ?thesis unfolding p
    using vfs_create_lookup [OF vfs_demo_nodes(2) _ demo_root f _ _ _ d r, of FT_REG]
    by (auto simp: vfs_demo_nodes(3) component_ok_def str_def fresh_node_def)
qed


definition trunc_demo :: fs_state where
  "trunc_demo = ramfs_demo\<lparr>heap_cur := 0x7000, heap_left := 0x1000,
     nodes := [(nodes ramfs_demo ! 0)\<lparr>rdata := 0x6000, rcapacity := 16, rsize := 8\<rparr>]\<rparr>"


end
