(* ===== verification/Usermode.thy ===== *)
theory Usermode
  imports Elf Vfs
begin

text \<open>
  The way into user mode: \<open>kernel/proc/usermode.c\<close> and the entry paths of \<open>boot.asm\<close>.

  \<open>translate\<close> is the page walk of the processor for pages of 4096 bytes.  The user stack lives at
  virtual addresses of the process, so the stores of \<open>build_user_stack\<close> go through it; a store to an
  unmapped address faults and the code does not come back.
\<close>

section \<open>Stores to user addresses\<close>

definition translate :: "mem \<Rightarrow> u64 \<Rightarrow> u64 \<Rightarrow> u64 option" where
  "translate m root va =
     (let e4 = pt_load m root (p4_idx va) in
      if \<not> present e4 then None else
      let e3 = pt_load m (page_of e4) (p3_idx va) in
      if \<not> present e3 then None else
      let e2 = pt_load m (page_of e3) (p2_idx va) in
      if \<not> present e2 then None else
      let e1 = pt_load m (page_of e2) (p1_idx va) in
      if \<not> present e1 then None else Some (page_of e1 + (va AND 0xFFF)))"

fun put_user :: "u64 \<Rightarrow> u8 list \<Rightarrow> 'a vmm_state_scheme \<Rightarrow> 'a vmm_state_scheme option" where
  "put_user va [] s = Some s"
| "put_user va (b # bs) s =
     (case translate (memory s) (cr3 s) va of
        None \<Rightarrow> None
      | Some a \<Rightarrow> put_user (va + 1) bs (s\<lparr>memory := (memory s)(a := b)\<rparr>))"

definition bytes64 :: "u64 \<Rightarrow> u8 list" where
  "bytes64 v = map (\<lambda>i. ucast (drop_bit (8 * i) v)) [0..<8]"

section \<open>The initial stack\<close>

abbreviation USER_STACK_TOP :: u64 where "USER_STACK_TOP \<equiv> 0x7FFFFFF00000"
abbreviation USER_STACK_SIZE :: u64 where "USER_STACK_SIZE \<equiv> 0x200000"

partial_function (option) map_stack_loop :: "u64 \<Rightarrow> u64 \<Rightarrow> 'a pmm_scheme \<Rightarrow> 'a pmm_scheme option" where
  "map_stack_loop root va s =
     (if va < USER_STACK_TOP then
        case pmm_alloc s of (page, s) \<Rightarrow>
        if page = 0 then Some s else
        map_stack_loop root (va + PAGE_SIZE)
          (vmm_map root va page (VMM_PRESENT OR VMM_WRITABLE OR VMM_USER)
             (s\<lparr>memory := kmemset (memory s) page 0 PAGE_SIZE\<rparr>))
      else Some s)"

definition usermode_map_stack :: "u64 \<Rightarrow> 'a pmm_scheme \<Rightarrow> 'a pmm_scheme option" where
  "usermode_map_stack root s = map_stack_loop root (USER_STACK_TOP - USER_STACK_SIZE) s"

text \<open>
  The loops of \<open>build_user_stack\<close> run from the last element to the first: \<open>push_strings\<close> and
  \<open>push_words\<close> take the list reversed.  \<open>push_strings\<close> returns the addresses in the order of the array.
\<close>

fun push_strings :: "u8 list list \<Rightarrow> u64 \<Rightarrow> u64 list \<Rightarrow> 'a vmm_state_scheme \<Rightarrow> (u64 \<times> u64 list \<times> 'a vmm_state_scheme) option" where
  "push_strings [] sp us s = Some (sp, us, s)"
| "push_strings (x # xs) sp us s =
     (let sp = sp - of_nat (length x + 1) in do {
        s \<leftarrow> put_user sp (x @ [0]) s;
        push_strings xs sp (sp # us) s})"

fun push_words :: "u64 list \<Rightarrow> u64 \<Rightarrow> 'a vmm_state_scheme \<Rightarrow> (u64 \<times> 'a vmm_state_scheme) option" where
  "push_words [] sp s = Some (sp, s)"
| "push_words (v # vs) sp s = (let sp = sp - 8 in do { s \<leftarrow> put_user sp (bytes64 v) s; push_words vs sp s})"

definition build_user_stack :: "u64 \<Rightarrow> u8 list list \<Rightarrow> u8 list list \<Rightarrow> 'a vmm_state_scheme
    \<Rightarrow> (u64 \<times> 'a vmm_state_scheme) option" where
  "build_user_stack stack_top argv envp s = do {
     (sp, uenv, s) \<leftarrow> push_strings (rev envp) stack_top [] s;
     (sp, uarg, s) \<leftarrow> push_strings (rev argv) sp [] s;
     let sp = sp AND NOT 15;
     (sp, s) \<leftarrow> push_words (0 # rev uenv) sp s;
     (sp, s) \<leftarrow> push_words (0 # rev uarg) sp s;
     push_words [of_nat (length argv)] sp s}"

section \<open>The registers in user mode\<close>

record user_ctx =
  u_rip :: u64
  u_rsp :: u64
  u_rflags :: u64
  u_rax :: u64
  u_cs :: u16
  u_ss :: u16

text \<open>
  \<open>MSR_STAR\<close> as \<open>syscall_arch_init\<close> writes it, and the processor's 64-bit \<open>sysret\<close>, which takes the
  instruction pointer from \<open>rcx\<close>, the flags from \<open>r11\<close> and the selectors from the upper half of the
  register.
\<close>

definition msr_star :: u64 where
  "msr_star = push_bit 48 0x0013 OR push_bit 32 0x0008"

definition sysret :: "u64 \<Rightarrow> u64 \<Rightarrow> u64 \<Rightarrow> u64 \<Rightarrow> user_ctx" where
  "sysret rax rcx r11 sp = \<lparr>u_rip = rcx, u_rsp = sp, u_rflags = (r11 AND 0x3C7FD7) OR 2, u_rax = rax,
     u_cs = (ucast (drop_bit 48 msr_star) + 16) OR 3, u_ss = (ucast (drop_bit 48 msr_star) + 8) OR 3\<rparr>"

definition fork_child_stub :: "regs \<Rightarrow> user_ctx" where
  "fork_child_stub r = sysret 0 (r_r12 r) (r_r14 r) (r_r13 r)"

text \<open>The frame that \<open>_enter_usermode\<close> pushes for \<open>iretq\<close>; \<open>rax\<close> keeps the 0x23 of its low half.\<close>

definition enter_usermode :: "u64 \<Rightarrow> u64 \<Rightarrow> u64 \<Rightarrow> user_ctx" where
  "enter_usermode rax ep sp = \<lparr>u_rip = ep, u_rsp = sp, u_rflags = 0x202,
     u_rax = (rax AND NOT 0xFFFF) OR 0x23, u_cs = 0x1B, u_ss = 0x23\<rparr>"

text \<open>
  \<open>None\<close> in the result is the early return for a process without an address space; \<open>rax\<close> is whatever
  the compiled code leaves in that register.
\<close>

definition usermode_exec :: "u64 \<Rightarrow> nat \<Rightarrow> u64 \<Rightarrow> u64 \<Rightarrow> u8 list list \<Rightarrow> u8 list list \<Rightarrow> 'a fs_state_scheme
    \<Rightarrow> (user_ctx option \<times> 'a fs_state_scheme) option" where
  "usermode_exec rax i ep lend argv envp s =
     (if pml4 (proc_of s i) = 0 then Some (None, s) else do {
        s \<leftarrow> usermode_map_stack (pml4 (proc_of s i)) s;
        let b = (lend + PAGE_SIZE - 1) AND NOT (PAGE_SIZE - 1);
        let s = upd_proc i (\<lambda>p. p\<lparr>brk_start := b, brk := b\<rparr>) s;
        let s = gdt_set_kernel_stack (kstack (proc_of s i) + KSTACK_SIZE) s;
        let s = vmm_switch (pml4 (proc_of s i)) s;
        (sp, s) \<leftarrow> build_user_stack USER_STACK_TOP argv envp s;
        Some (Some (enter_usermode rax ep sp), s)})"

end
