(* ===== verification/Syscall.thy ===== *)
theory Syscall
  imports Usermode
begin

text \<open>
  System calls: \<open>kernel/syscall/syscall.c\<close>, the entry stub \<open>syscall_asm_entry\<close> of \<open>boot.asm\<close>, and the
  start of the first user process in \<open>kernel/proc/init.c\<close>.

  A pointer that a system call receives is used as an address of the modelled memory.  The outcome of a
  call is what becomes of the calling process: it gets a value, it enters user mode at a new place, it
  yields inside the loop of \<open>sys_wait4\<close> and runs the loop again when it is resumed, or it halts.  After a
  call of \<open>sched_yield\<close> the registers belong to the process switched to; \<open>Ret\<close> is the value that the
  caller gets when it is resumed.  The address of the stub \<open>fork_child_stub\<close> is an argument, it is chosen
  by the linker.
\<close>

section \<open>State and outcomes\<close>

record sys_state = fs_state +
  user_ctx_rip :: u64
  user_ctx_rflags :: u64
  user_ctx_rsp :: u64

datatype outcome = Ret int | User user_ctx | Again | Hlt

abbreviation SYS_READ :: u64 where "SYS_READ \<equiv> 0"
abbreviation SYS_WRITE :: u64 where "SYS_WRITE \<equiv> 1"
abbreviation SYS_OPEN :: u64 where "SYS_OPEN \<equiv> 2"
abbreviation SYS_CLOSE :: u64 where "SYS_CLOSE \<equiv> 3"
abbreviation SYS_BRK :: u64 where "SYS_BRK \<equiv> 12"
abbreviation SYS_SIGACTION :: u64 where "SYS_SIGACTION \<equiv> 13"
abbreviation SYS_PIPE :: u64 where "SYS_PIPE \<equiv> 22"
abbreviation SYS_GETPID :: u64 where "SYS_GETPID \<equiv> 39"
abbreviation SYS_FORK :: u64 where "SYS_FORK \<equiv> 57"
abbreviation SYS_EXECVE :: u64 where "SYS_EXECVE \<equiv> 59"
abbreviation SYS_EXIT :: u64 where "SYS_EXIT \<equiv> 60"
abbreviation SYS_WAIT4 :: u64 where "SYS_WAIT4 \<equiv> 61"
abbreviation SYS_KILL :: u64 where "SYS_KILL \<equiv> 62"
abbreviation SYS_GETPPID :: u64 where "SYS_GETPPID \<equiv> 110"
abbreviation SYS_SLEEP :: u64 where "SYS_SLEEP \<equiv> 162"

text \<open>The conversion of a register to \<open>int\<close>.\<close>

definition c_int :: "u64 \<Rightarrow> int" where
  "c_int a = sint (ucast a :: u32)"

text \<open>The characters of the string at an address, as \<open>kstrlen\<close> measures it.\<close>

definition read_str :: "mem \<Rightarrow> u64 \<Rightarrow> u8 list option" where
  "read_str m a = map_option (\<lambda>n. map (\<lambda>i. m (a + of_nat i)) [0..<unat n]) (kstrlen m a)"

section \<open>Files\<close>

definition fd_of :: "nat \<Rightarrow> int \<Rightarrow> 'a proc_state_scheme \<Rightarrow> u64" where
  "fd_of p fd s = fd_file (fds (proc_of s p) ! nat fd)"

definition sys_write :: "int \<Rightarrow> u64 \<Rightarrow> u64 \<Rightarrow> 'a fs_state_scheme \<Rightarrow> (int \<times> 'a fs_state_scheme) option" where
  "sys_write fd buf n s = do {
     p \<leftarrow> current_proc s;
     if fd < 0 \<or> fd \<ge> int MAX_FDS then Some (-EBADF, s) else
     if fd_of p fd s = 0 then Some (-EBADF, s) else
     vfs_write (fd_of p fd s) buf n s}"

definition sys_read :: "int \<Rightarrow> u64 \<Rightarrow> u64 \<Rightarrow> 'a fs_state_scheme \<Rightarrow> (int \<times> 'a fs_state_scheme) option" where
  "sys_read fd buf n s = do {
     p \<leftarrow> current_proc s;
     if fd < 0 \<or> fd \<ge> int MAX_FDS then Some (-EBADF, s) else
     if fd_of p fd s = 0 then Some (-EBADF, s) else
     vfs_read (fd_of p fd s) buf n s}"

definition sys_open :: "u64 \<Rightarrow> u32 \<Rightarrow> 'a fs_state_scheme \<Rightarrow> (int \<times> 'a fs_state_scheme) option" where
  "sys_open path flags s = do {
     p \<leftarrow> current_proc s;
     name \<leftarrow> read_str (memory s) path;
     (f, s) \<leftarrow> vfs_open name flags s;
     if f = 0 then Some (-ENOENT, s) else
     case proc_alloc_fd p f s of (fd, s) \<Rightarrow>
     if fd < 0 then do { (_, s) \<leftarrow> vfs_close f s; Some (-EMFILE, s) } else Some (fd, s)}"

definition sys_close :: "int \<Rightarrow> 'a fs_state_scheme \<Rightarrow> (int \<times> 'a fs_state_scheme) option" where
  "sys_close fd s = do {
     p \<leftarrow> current_proc s;
     if fd < 0 \<or> fd \<ge> int MAX_FDS \<or> fd_of p fd s = 0 then Some (-EBADF, s) else do {
       (_, s) \<leftarrow> vfs_close (fd_of p fd s) s;
       Some (0, proc_free_fd p fd s)}}"

definition sys_pipe :: "u64 \<Rightarrow> 'a fs_state_scheme \<Rightarrow> (int \<times> 'a fs_state_scheme) option" where
  "sys_pipe a s = do {
     ((r, fd0, fd1), s) \<leftarrow> pipe_create s;
     Some (r, if r = 0 then s\<lparr>memory := store32 (store32 (memory s) a (word_of_int fd0)) (a + 4) (word_of_int fd1)\<rparr> else s)}"

section \<open>Processes\<close>

definition sys_brk :: "u64 \<Rightarrow> 'a proc_state_scheme \<Rightarrow> (int \<times> 'a proc_state_scheme) option" where
  "sys_brk addr s = do {
     p \<leftarrow> current_proc s;
     if addr = 0 then Some (sint (brk (proc_of s p)), s) else
     if addr < brk_start (proc_of s p) then Some (-EINVAL, s) else
     Some (sint addr, upd_proc p (\<lambda>x. x\<lparr>brk := addr\<rparr>) s)}"

definition sys_exit :: "int \<Rightarrow> 'a proc_state_scheme \<Rightarrow> (outcome \<times> 'a proc_state_scheme) option" where
  "sys_exit code s = do {
     p \<leftarrow> current_proc s;
     Some (Hlt, sched_yield (proc_exit p code s))}"

text \<open>The frame that \<open>arch_switch\<close> pops, pushed from the return address down.\<close>

fun push_frame :: "u64 list \<Rightarrow> u64 \<Rightarrow> mem \<Rightarrow> u64 \<times> mem" where
  "push_frame [] sp m = (sp, m)"
| "push_frame (v # vs) sp m = push_frame vs (sp - 8) (store64 m (sp - 8) v)"

definition fork_frame :: "u64 \<Rightarrow> u64 \<Rightarrow> u64 \<Rightarrow> u64 \<Rightarrow> u64 list" where
  "fork_frame stub rip sp rflags = [stub, 0, 0, rip, sp, rflags, 0, 0x202]"

definition start_frame :: "nat \<Rightarrow> u64 list \<Rightarrow> 'a proc_state_scheme \<Rightarrow> 'a proc_state_scheme" where
  "start_frame c vs s =
     (case push_frame vs (kstack (proc_of s c) + KSTACK_SIZE) (memory s) of (sp, m) \<Rightarrow>
      upd_proc c (\<lambda>p. p\<lparr>rsp := sp\<rparr>) (s\<lparr>memory := m\<rparr>))"

text \<open>The copy of one descriptor, with the count of its open file.\<close>

definition inherit_fd :: "nat \<Rightarrow> nat \<Rightarrow> nat \<Rightarrow> 'a fs_state_scheme \<Rightarrow> 'a fs_state_scheme" where
  "inherit_fd parent child i s =
     (let e = fds (proc_of s parent) ! i; s = upd_proc child (\<lambda>p. p\<lparr>fds := (fds p)[i := e]\<rparr>) s
      in if fd_file e \<noteq> 0
         then s\<lparr>files := (files s)(fd_file e := (files s (fd_file e))\<lparr>frefcount := frefcount (files s (fd_file e)) + 1\<rparr>)\<rparr>
         else s)"

definition sys_fork :: "u64 \<Rightarrow> 'a sys_state_scheme \<Rightarrow> (int \<times> 'a sys_state_scheme) option" where
  "sys_fork stub s = do {
     parent \<leftarrow> current_proc s;
     let (child_pml4, s) = vmm_clone_pml4 (pml4 (proc_of s parent)) s;
     if child_pml4 = 0 then Some (-ENOMEM, s) else
     case proc_create s of
       (None, s) \<Rightarrow> Some (-ENOMEM, vmm_destroy_pml4 child_pml4 s)
     | (Some child, s) \<Rightarrow>
         let s = upd_proc child (\<lambda>p. p\<lparr>pml4 := child_pml4, ppid := pid (proc_of s parent),
                   brk := brk (proc_of s parent), cwd := cwd (proc_of s parent)\<rparr>) s;
             s = fold (inherit_fd parent child) [0..<MAX_FDS] s;
             s = start_frame child (fork_frame stub (user_ctx_rip s) (user_ctx_rsp s) (user_ctx_rflags s)) s;
             s = sched_add child s
         in Some (pid (proc_of s child), s)}"

text \<open>One round of the loop of \<open>sys_wait4\<close>.\<close>

definition sys_wait4 :: "int \<Rightarrow> u64 \<Rightarrow> 'a proc_state_scheme \<Rightarrow> (outcome \<times> 'a proc_state_scheme) option" where
  "sys_wait4 n status s = do {
     p \<leftarrow> current_proc s;
     case proc_find n s of None \<Rightarrow> Some (Ret (-EINVAL), s)
     | Some c \<Rightarrow>
         if pstate (proc_of s c) = PROC_ZOMBIE then
           let s = (if status \<noteq> 0 then s\<lparr>memory := store32 (memory s) status (word_of_int (exit_code (proc_of s c)))\<rparr> else s)
           in Some (Ret n, upd_proc c (\<lambda>x. x\<lparr>pstate := PROC_UNUSED\<rparr>) s)
         else Some (Again, sched_yield (upd_proc p (\<lambda>x. x\<lparr>pstate := PROC_WAITING\<rparr>) s))}"

definition sys_nanosleep :: "u64 \<Rightarrow> u64 \<Rightarrow> 'a proc_state_scheme \<Rightarrow> int \<times> 'a proc_state_scheme" where
  "sys_nanosleep seconds nanoseconds s = (0, sched_sleep (seconds * 1000 + nanoseconds div 1000000) s)"

section \<open>\<open>execve\<close>\<close>

abbreviation EXEC_MAX_ARGS :: nat where "EXEC_MAX_ARGS \<equiv> 64"

fun free_all :: "u64 list \<Rightarrow> 'a vmm_state_scheme \<Rightarrow> 'a vmm_state_scheme option" where
  "free_all [] s = Some s"
| "free_all (a # as) s = do { s \<leftarrow> kfree a s; free_all as s }"

text \<open>
  The copy loop for \<open>argv\<close> and \<open>envp\<close>: \<open>k\<close> is the room left, \<open>acc\<close> the buffers so far in order.  The
  result says whether every allocation succeeded.
\<close>

fun copy_args :: "nat \<Rightarrow> u64 \<Rightarrow> u64 list \<Rightarrow> 'a vmm_state_scheme \<Rightarrow> (bool \<times> u64 list \<times> 'a vmm_state_scheme) option" where
  "copy_args 0 ptr acc s = Some (True, acc, s)"
| "copy_args (Suc k) ptr acc s =
     (let str = load64 (memory s) ptr in
      if str = 0 then Some (True, acc, s) else do {
        len \<leftarrow> kstrlen (memory s) str;
        (a, s) \<leftarrow> kmalloc (len + 1) s;
        if a = 0 then Some (False, acc, s) else
        copy_args k (ptr + 8) (acc @ [a]) (s\<lparr>memory := kmemcpy (memory s) a str (len + 1)\<rparr>)})"

definition copy_vec :: "u64 \<Rightarrow> 'a vmm_state_scheme \<Rightarrow> (bool \<times> u64 list \<times> 'a vmm_state_scheme) option" where
  "copy_vec ptr s = (if ptr = 0 then Some (True, [], s) else copy_args EXEC_MAX_ARGS ptr [] s)"

text \<open>Reading the file: its contents at an address, or the error to return.\<close>

definition read_image :: "u64 \<Rightarrow> 'a fs_state_scheme \<Rightarrow> ((int + u64 \<times> u64) \<times> 'a fs_state_scheme) option" where
  "read_image f s = do {
     let sz = isize (get_inode s (f_inode (files s f)));
     (buf, s) \<leftarrow> kmalloc sz s;
     if buf = 0 then do { (_, s) \<leftarrow> vfs_close f s; Some (Inl (-ENOMEM), s) } else do {
       (_, s) \<leftarrow> vfs_read f buf sz s;
       (_, s) \<leftarrow> vfs_close f s;
       Some (Inr (buf, sz), s)}}"

text \<open>The strings that the kernel buffers hold when the new stack is built.\<close>

definition read_strs :: "mem \<Rightarrow> u64 list \<Rightarrow> u8 list list option" where
  "read_strs m as = those (map (read_str m) as)"

definition exec_image :: "u64 \<Rightarrow> nat \<Rightarrow> u64 \<Rightarrow> u64 \<Rightarrow> u64 list \<Rightarrow> u64 list \<Rightarrow> 'a fs_state_scheme
    \<Rightarrow> (outcome \<times> 'a fs_state_scheme) option" where
  "exec_image rax p buf sz kargv kenvp s = do {
     let (new_pml4, s) = vmm_new_pml4 s;
     if new_pml4 = 0 then do {
       s \<leftarrow> kfree buf s; s \<leftarrow> free_all kargv s; s \<leftarrow> free_all kenvp s; Some (Ret (-ENOMEM), s) }
     else do {
       (info, s) \<leftarrow> elf_load new_pml4 buf sz s;
       s \<leftarrow> kfree buf s;
       if \<not> valid info then do {
         let s = vmm_destroy_pml4 new_pml4 s;
         s \<leftarrow> free_all kargv s; s \<leftarrow> free_all kenvp s; Some (Ret (-EINVAL), s) }
       else do {
         let old_pml4 = pml4 (proc_of s p);
         let s = upd_proc p (\<lambda>x. x\<lparr>pml4 := new_pml4\<rparr>) s;
         argv \<leftarrow> read_strs (memory s) kargv;
         envp \<leftarrow> read_strs (memory s) kenvp;
         (u, s) \<leftarrow> usermode_exec rax p (entry info) (load_end info) argv envp s;
         case u of Some u \<Rightarrow> Some (User u, s)
         | None \<Rightarrow> do {
             let s = vmm_destroy_pml4 old_pml4 s;
             s \<leftarrow> free_all kargv s; s \<leftarrow> free_all kenvp s; Some (Ret 0, s) }}}}"

definition sys_execve :: "u64 \<Rightarrow> u64 \<Rightarrow> u64 \<Rightarrow> u64 \<Rightarrow> 'a fs_state_scheme \<Rightarrow> (outcome \<times> 'a fs_state_scheme) option" where
  "sys_execve rax path user_argv user_envp s = do {
     (ok, kargv, s) \<leftarrow> copy_vec user_argv s;
     if \<not> ok then do { s \<leftarrow> free_all kargv s; Some (Ret (-ENOMEM), s) } else do {
     (ok, kenvp, s) \<leftarrow> copy_vec user_envp s;
     if \<not> ok then do { s \<leftarrow> free_all kenvp s; s \<leftarrow> free_all kargv s; Some (Ret (-ENOMEM), s) } else do {
     name \<leftarrow> read_str (memory s) path;
     (f, s) \<leftarrow> vfs_open name O_RDONLY s;
     if f = 0 then do { s \<leftarrow> free_all kargv s; s \<leftarrow> free_all kenvp s; Some (Ret (-ENOENT), s) } else do {
     (r, s) \<leftarrow> read_image f s;
     case r of
       Inl e \<Rightarrow> do { s \<leftarrow> free_all kargv s; s \<leftarrow> free_all kenvp s; Some (Ret e, s) }
     | Inr (buf, sz) \<Rightarrow> do {
         p \<leftarrow> current_proc s;
         exec_image rax p buf sz kargv kenvp s}}}}}"

section \<open>The dispatcher\<close>

abbreviation ret :: "(int \<times> 's) option \<Rightarrow> (outcome \<times> 's) option" where
  "ret r \<equiv> map_option (map_prod Ret id) r"

definition syscall_entry :: "u64 \<Rightarrow> u64 \<Rightarrow> u64 \<Rightarrow> u64 \<Rightarrow> u64 \<Rightarrow> u64 \<Rightarrow> 'a sys_state_scheme
    \<Rightarrow> (outcome \<times> 'a sys_state_scheme) option" where
  "syscall_entry stub rax nr a1 a2 a3 s =
     (if nr = SYS_READ then ret (sys_read (c_int a1) a2 a3 s)
      else if nr = SYS_WRITE then ret (sys_write (c_int a1) a2 a3 s)
      else if nr = SYS_OPEN then ret (sys_open a1 (ucast a2) s)
      else if nr = SYS_CLOSE then ret (sys_close (c_int a1) s)
      else if nr = SYS_BRK then ret (sys_brk a1 s)
      else if nr = SYS_GETPID then ret (map_option (\<lambda>p. (pid (proc_of s p), s)) (current_proc s))
      else if nr = SYS_GETPPID then ret (map_option (\<lambda>p. (ppid (proc_of s p), s)) (current_proc s))
      else if nr = SYS_FORK then ret (sys_fork stub s)
      else if nr = SYS_EXIT then sys_exit (c_int a1) s
      else if nr = SYS_WAIT4 then sys_wait4 (c_int a1) a2 s
      else if nr = SYS_SLEEP then ret (Some (sys_nanosleep a1 a2 s))
      else if nr = SYS_PIPE then ret (sys_pipe a1 s)
      else if nr = SYS_KILL then ret (Some (signal_send (c_int a1) (c_int a2) s))
      else if nr = SYS_SIGACTION then
        ret (Some (signal_set_handler (c_int a1) \<lparr>sa_handler = a2, sa_mask = 0, sa_flags = 0\<rparr> s))
      else if nr = SYS_EXECVE then sys_execve rax a1 a2 a3 s
      else Some (Ret (-EINVAL), s))"

text \<open>
  The entry stub: it records the user's registers, keeps three of them on the stack that \<open>rsp\<close> still
  points to, and returns with the value of the call in \<open>rax\<close>.
\<close>

definition syscall_asm_entry :: "u64 \<Rightarrow> u64 \<Rightarrow> u64 \<Rightarrow> u64 \<Rightarrow> u64 \<Rightarrow> u64 \<Rightarrow> u64 \<Rightarrow> u64 \<Rightarrow> 'a sys_state_scheme
    \<Rightarrow> (outcome \<times> 'a sys_state_scheme) option" where
  "syscall_asm_entry stub rax nr a1 a2 a3 rcx r11 s = do {
     let sp = r_rsp (regs s);
     let s = s\<lparr>user_ctx_rip := rcx, user_ctx_rflags := r11, user_ctx_rsp := sp\<rparr>;
     let s = push64 (r_rbp (regs s)) (push64 r11 (push64 rcx s));
     (out, s) \<leftarrow> syscall_entry stub rax nr a1 a2 a3 s;
     case out of
       Ret v \<Rightarrow> Some (User (sysret (word_of_int v) (load64 (memory s) (sp - 8)) (load64 (memory s) (sp - 16)) sp), s)
     | _ \<Rightarrow> Some (out, s)}"

section \<open>The first user process\<close>

definition init_paths :: "u8 list list" where
  "init_paths = map str [''/sbin/init'', ''/bin/init'']"

definition init_env :: "u8 list list" where
  "init_env = map str [''PATH=/bin:/sbin:/usr/bin'', ''HOME=/root'', ''TERM=vt100'']"

fun open_first :: "u8 list list \<Rightarrow> 'a fs_state_scheme \<Rightarrow> ((u64 \<times> u8 list) option \<times> 'a fs_state_scheme) option" where
  "open_first [] s = Some (None, s)"
| "open_first (p # ps) s = do {
     (f, s) \<leftarrow> vfs_open p O_RDONLY s;
     if f \<noteq> 0 then Some (Some (f, p), s) else open_first ps s}"

definition spawn_loaded :: "u64 \<Rightarrow> nat \<Rightarrow> u8 list \<Rightarrow> elf_info \<Rightarrow> 'a fs_state_scheme \<Rightarrow> (int \<times> 'a fs_state_scheme) option" where
  "spawn_loaded stub p path info s = do {
     let b = (load_end info + PAGE_SIZE - 1) AND NOT (PAGE_SIZE - 1);
     let s = upd_proc p (\<lambda>x. x\<lparr>brk_start := b, brk := b, cwd := root_dir\<rparr>) s;
     kp \<leftarrow> proc_find 0 s;
     let s = vmm_switch (pml4 (proc_of s p)) s;
     (sp, s) \<leftarrow> build_user_stack USER_STACK_TOP [path] init_env s;
     let s = vmm_switch (pml4 (proc_of s kp)) s;
     let s = fold (inherit_fd kp p) [0..<3] s;
     let s = start_frame p (fork_frame stub (entry info) sp 0x202) s;
     Some (0, sched_add p s)}"

definition proc_spawn_init :: "u64 \<Rightarrow> 'a fs_state_scheme \<Rightarrow> (int \<times> 'a fs_state_scheme) option" where
  "proc_spawn_init stub s = do {
     (r, s) \<leftarrow> open_first init_paths s;
     case r of None \<Rightarrow> Some (-1, s)
     | Some (f, path) \<Rightarrow> do {
         (r, s) \<leftarrow> read_image f s;
         case r of Inl e \<Rightarrow> Some (e, s)
         | Inr (buf, sz) \<Rightarrow>
             (case proc_create s of
                (None, s) \<Rightarrow> do { s \<leftarrow> kfree buf s; Some (-ENOMEM, s) }
              | (Some p, s) \<Rightarrow> do {
                  s \<leftarrow> usermode_map_stack (pml4 (proc_of s p)) s;
                  (info, s) \<leftarrow> elf_load (pml4 (proc_of s p)) buf sz s;
                  s \<leftarrow> kfree buf s;
                  if \<not> valid info then Some (-1, upd_proc p (\<lambda>x. x\<lparr>pstate := PROC_UNUSED\<rparr>) s)
                  else spawn_loaded stub p path info s})}}"

end
