(* ===== verification/SyscallInv.thy ===== *)
theory SyscallInv
  imports Syscall ProcessTable
begin

text \<open>
  What \<open>fork\<close> promises: the child has a fresh pid and the parent's descriptors, and when the scheduler
  first switches to it, it leaves the kernel at the instruction after the parent's system call with the
  value 0.
\<close>

section \<open>The allocators leave the process table alone\<close>

lemma get_or_alloc_more: "get_or_alloc t i fl s = (p, s') \<Longrightarrow> pmm.more s' = pmm.more s"
  using more_alloc [of s] by (cases "pmm_alloc s") (auto simp: get_or_alloc_def Let_def split: if_splits)

lemma vmm_map_more [simp]: "pmm.more (vmm_map r v p f s) = pmm.more s"
  unfolding vmm_map_def Let_def
  by (auto split: prod.split dest!: get_or_alloc_more)

lemma clone_loop_more:
  assumes "\<And>i s. pmm.more (case_sum id id (body i s)) = pmm.more s"
  shows "pmm.more (case_sum id id (clone_loop body n s)) = pmm.more s"
proof -
  have "pmm.more (case_sum id id (fold (\<lambda>i r. case r of Inl s \<Rightarrow> Inl s | Inr s \<Rightarrow> body i s) xs r)) = pmm.more (case_sum id id r)" for xs r
    by (induction xs arbitrary: r) (auto simp: assms split: sum.split)
  from this [of _ "Inr s"] show ?thesis by (simp add: clone_loop_def)
qed

lemma clone_page_more: "pmm.more (case_sum id id (clone_page d t p4 p3 p2 p1 s)) = pmm.more s"
  using more_alloc [of s] by (cases "pmm_alloc s") (simp add: clone_page_def Let_def destroy_more)

lemma skip_more: "pmm.more (case_sum id id r) = pmm.more t \<Longrightarrow> pmm.more (case_sum id id (if b then Inr t else r)) = pmm.more t"
  by simp

lemma clone_more: "pmm.more (snd (vmm_clone_pml4 src s)) = pmm.more s"
proof -
  obtain d s1 where d: "vmm_new_pml4 s = (d, s1)" by fastforce
  have s1: "pmm.more s1 = pmm.more s" using more_new_pml4 [of s] d by simp
  have res: "snd (case r of Inl t \<Rightarrow> (0, t) | Inr t \<Rightarrow> (d, t)) = case_sum id id r" for r :: "'a vmm_state_scheme + 'a vmm_state_scheme"
    by (cases r) simp_all
  show ?thesis
  proof (cases "d = 0")
    case False
    then show ?thesis unfolding vmm_clone_pml4_def d Let_def prod.case if_not_P [OF False] res
      by (intro trans [OF clone_loop_more s1] skip_more clone_loop_more clone_page_more)
  qed (simp add: vmm_clone_pml4_def d s1)
qed

section \<open>The child of \<open>proc_create\<close>\<close>

text \<open>\<open>t\<close> differs from \<open>s\<close> in slot \<open>c\<close> of the table and in memory management only.\<close>

definition fresh_child :: "nat \<Rightarrow> 'a proc_state_scheme \<Rightarrow> 'a proc_state_scheme \<Rightarrow> bool" where
  "fresh_child c s t \<longleftrightarrow> length (proc_table t) = length (proc_table s) \<and> (\<forall>j. j \<noteq> c \<longrightarrow> proc_of t j = proc_of s j)
     \<and> proc_state.more t = proc_state.more s \<and> queue t = queue s \<and> q_tail t = q_tail s \<and> q_count t = q_count s
     \<and> pid (proc_of t c) = next_pid s \<and> pstate (proc_of t c) = PROC_READY \<and> length (fds (proc_of t c)) = MAX_FDS"

lemma fresh_child_upd:
  assumes "fresh_child c s t" "\<And>p. pid (f p) = pid p" "\<And>p. pstate (f p) = pstate p" "\<And>p. length (fds (f p)) = length (fds p)"
  shows "fresh_child c s (upd_proc c f t)"
  using assms by (cases "c < length (proc_table t)") (auto simp: fresh_child_def upd_proc_def nth_list_update list_update_beyond)

lemma fresh_child_more: "fresh_child c s t \<Longrightarrow> pmm.more t' = pmm.more t \<Longrightarrow> fresh_child c s t'"
  by (cases t; cases t') (simp add: fresh_child_def)

lemma proc_create_child:
  assumes len: "length (proc_table s) = MAX_PROCS" and step: "proc_create s = (Some c, s')"
  shows "c < MAX_PROCS" "pstate (proc_of s c) = PROC_UNUSED" "fresh_child c s s'"
proof -
  have i: "find (\<lambda>i. pstate (proc_of s i) = PROC_UNUSED) [1..<MAX_PROCS] = Some c"
    using step by (auto simp: proc_create_def Let_def split: option.splits prod.splits if_splits)
  then show c: "c < MAX_PROCS" and "pstate (proc_of s c) = PROC_UNUSED" by (auto simp: find_Some_iff)
  define q where "q = (case current_proc s of None \<Rightarrow> 0 | Some c' \<Rightarrow> pid (proc_of (upd_proc c (\<lambda>_. zero_process) s) c'))"
  define s0 where "s0 = (upd_proc c (\<lambda>p. p\<lparr>pid := next_pid s, ppid := q, pstate := PROC_READY, timeslice := 5\<rparr>)
    (upd_proc c (\<lambda>_. zero_process) s))\<lparr>next_pid := next_pid s + 1\<rparr>"
  have f0: "fresh_child c s s0" using c len
    by (auto simp: s0_def fresh_child_def upd_proc_def nth_list_update zero_process_def)
  obtain k s1 where k: "pmm_alloc s0 = (k, s1)" by fastforce
  define s2 where "s2 = upd_proc c (\<lambda>p. p\<lparr>kstack := k\<rparr>) s1"
  have "fresh_child c s s1" by (rule fresh_child_more [OF f0]) (use more_alloc [of s0] k in simp)
  then have f2: "fresh_child c s s2" unfolding s2_def by (rule fresh_child_upd) simp_all
  define s3 where "s3 = upd_proc c (\<lambda>p. p\<lparr>rsp := k + KSTACK_SIZE\<rparr>) (s2\<lparr>memory := kmemset (memory s2) k 0 PAGE_SIZE\<rparr>)"
  have f3: "fresh_child c s s3" unfolding s3_def by (intro fresh_child_upd fresh_child_more [OF f2]) simp_all
  obtain t s4 where t: "vmm_new_pml4 s3 = (t, s4)" by fastforce
  have "fresh_child c s s4" by (rule fresh_child_more [OF f3]) (use more_new_pml4 [of s3] t in simp)
  then have f5: "fresh_child c s (upd_proc c (\<lambda>p. p\<lparr>pml4 := t\<rparr>) s4)" by (rule fresh_child_upd) simp_all
  have "length (fold (\<lambda>j f. f[j := (f ! j)\<lparr>fd_file := 0\<rparr>]) js f) = length f" for js and f :: "fd_entry list"
    by (induction js arbitrary: f) simp_all
  then have last: "fresh_child c s (upd_proc c (\<lambda>p. p\<lparr>cwd := d, fds := fold (\<lambda>j f. f[j := (f ! j)\<lparr>fd_file := 0\<rparr>]) js (fds p)\<rparr>)
      (upd_proc c (\<lambda>p. p\<lparr>pml4 := t\<rparr>) s4))" for d js
    by (intro fresh_child_upd [OF f5]) simp_all
  from step show "fresh_child c s s'" unfolding proc_create_def i option.case
    using last by (simp add: Let_def q_def [symmetric] s0_def [symmetric] k s2_def [symmetric] s3_def [symmetric] t del: upt_rec_numeral split: if_splits)
      (auto simp: s2_def s3_def)
qed

section \<open>Descriptors and the first frame\<close>

lemma inherit_fds:
  assumes "c < length (proc_table s)" "p \<noteq> c" "length (fds (proc_of s p)) = MAX_FDS" "length (fds (proc_of s c)) = MAX_FDS" "n \<le> MAX_FDS"
  shows "fold (inherit_fd p c) [0..<n] s = t \<Longrightarrow>
    proc_table t = (proc_table s)[c := (proc_of s c)\<lparr>fds := take n (fds (proc_of s p)) @ drop n (fds (proc_of s c))\<rparr>]
    \<and> memory t = memory s \<and> fs_state.more t = fs_state.more s \<and> queue t = queue s \<and> q_tail t = q_tail s \<and> q_count t = q_count s"
  using assms(5)
proof (induction n arbitrary: t)
  case (Suc n)
  define u where "u = fold (inherit_fd p c) [0..<n] s"
  have u: "proc_table u = (proc_table s)[c := (proc_of s c)\<lparr>fds := take n (fds (proc_of s p)) @ drop n (fds (proc_of s c))\<rparr>]"
    "memory u = memory s" "fs_state.more u = fs_state.more s" "queue u = queue s" "q_tail u = q_tail s" "q_count u = q_count s"
    using Suc.IH [OF u_def [symmetric]] Suc.prems(2) by simp_all
  have t: "t = inherit_fd p c n u" using Suc.prems(1) by (simp add: u_def)
  have e: "fds (proc_of u p) ! n = fds (proc_of s p) ! n" using assms(2) u(1) by simp
  have "proc_table t = (proc_table u)[c := (proc_of u c)\<lparr>fds := (fds (proc_of u c))[n := fds (proc_of s p) ! n]\<rparr>]"
    unfolding t by (simp add: inherit_fd_def Let_def upd_proc_def e)
  moreover have "(take n (fds (proc_of s p)) @ drop n (fds (proc_of s c)))[n := fds (proc_of s p) ! n]
      = take (Suc n) (fds (proc_of s p)) @ drop (Suc n) (fds (proc_of s c))"
    using Suc.prems(2) assms(3,4) by (simp add: list_update_append take_Suc_conv_app_nth Cons_nth_drop_Suc [symmetric])
  moreover have "memory t = memory u" "fs_state.more t = fs_state.more u" "queue t = queue u" "q_tail t = q_tail u" "q_count t = q_count u"
    unfolding t by (simp_all add: inherit_fd_def Let_def upd_proc_def)
  ultimately show ?case using u assms(1) by simp
qed simp

lemma fork_frame_loads:
  assumes "push_frame (fork_frame stub rip sp fl) (a + 64) m = (b, m')"
  shows "b = a" "map (\<lambda>k. load64 m' (a + of_nat (8 * k))) [0..<7] = [0x202, 0, fl, sp, rip, 0, 0]" "load64 m' (a + 56) = stub"
proof -
  have r: "b = a" "m' = store64 (store64 (store64 (store64 (store64 (store64 (store64 (store64 m (a + 56) stub) (a + 48) 0)
      (a + 40) 0) (a + 32) rip) (a + 24) sp) (a + 16) fl) (a + 8) 0) a 0x202"
    using assms by (auto simp: fork_frame_def add.commute)
  show "b = a" by (rule r(1))
  show "map (\<lambda>k. load64 m' (a + of_nat (8 * k))) [0..<7] = [0x202, 0, fl, sp, rip, 0, 0]" "load64 m' (a + 56) = stub"
    unfolding r(2) by (simp_all add: upt_rec load_store_other disj_rng_def mem_simps)
qed

lemma sys_fork_child:
  assumes "proc_inv s" "current_proc s = Some p" "p < MAX_PROCS" "q_count s < int SCHED_QUEUE_SIZE"
    and d: "vmm_clone_pml4 (pml4 (proc_of s p)) s = (d, s1)" and d0: "d \<noteq> 0" and c2: "proc_create s1 = (Some c, s2)"
  shows "\<exists>s' k sp m m'. sys_fork stub s = Some (next_pid s, s') \<and> c < MAX_PROCS \<and> pstate (proc_of s c) = PROC_UNUSED
    \<and> pid (proc_of s' c) = next_pid s \<and> ppid (proc_of s' c) = pid (proc_of s p) \<and> fds (proc_of s' c) = fds (proc_of s p)
    \<and> brk (proc_of s' c) = brk (proc_of s p) \<and> cwd (proc_of s' c) = cwd (proc_of s p) \<and> pstate (proc_of s' c) = PROC_READY
    \<and> Some c \<in> set (queue s') \<and> rsp (proc_of s' c) = sp \<and> memory s' = m'
    \<and> push_frame (fork_frame stub (user_ctx_rip s) (user_ctx_rsp s) (user_ctx_rflags s)) k m = (sp, m')"
proof -
  have m1: "pmm.more s1 = pmm.more s" using clone_more [of "pml4 (proc_of s p)" s] d by simp
  then have s1: "proc_table s1 = proc_table s" "next_pid s1 = next_pid s" "queue s1 = queue s" "q_tail s1 = q_tail s" "q_count s1 = q_count s"
    "proc_state.more s1 = proc_state.more s" by (cases s; cases s1; simp)+
  have wf: "sched_wf s" and len: "length (proc_table s) = MAX_PROCS" and ok: "proc_ok (proc_of s p)" "live (proc_of s p)"
    using assms(1-3) by (auto simp: proc_inv_def sched_wf_def table_ok_def)
  note child = proc_create_child [OF _ c2, unfolded s1, OF len]
  have pc: "p \<noteq> c" using child(2) ok(2) by (auto simp: live_def)
  have s2: "length (proc_table s2) = MAX_PROCS" "proc_of s2 p = proc_of s p" "queue s2 = queue s" "q_tail s2 = q_tail s" "q_count s2 = q_count s"
    "proc_state.more s2 = proc_state.more s" "pid (proc_of s2 c) = next_pid s" "pstate (proc_of s2 c) = PROC_READY"
    "length (fds (proc_of s2 c)) = MAX_FDS"
    using child(3) pc len s1 by (simp_all add: fresh_child_def)
  define s3 where "s3 = upd_proc c (\<lambda>x. x\<lparr>pml4 := d, ppid := pid (proc_of s p), brk := brk (proc_of s p), cwd := cwd (proc_of s p)\<rparr>) s2"
  have t3: "proc_of s3 c = (proc_of s2 c)\<lparr>pml4 := d, ppid := pid (proc_of s p), brk := brk (proc_of s p), cwd := cwd (proc_of s p)\<rparr>"
    "proc_of s3 p = proc_of s p" "length (proc_table s3) = MAX_PROCS" "queue s3 = queue s" "q_tail s3 = q_tail s" "q_count s3 = q_count s"
    "proc_state.more s3 = proc_state.more s"
    using child(1) pc s2 by (simp_all add: s3_def upd_proc_def)
  define s4 where "s4 = fold (inherit_fd p c) [0..<MAX_FDS] s3"
  have "c < length (proc_table s3)" "length (fds (proc_of s3 p)) = MAX_FDS" "length (fds (proc_of s3 c)) = MAX_FDS"
    using child(1) t3 s2(9) ok(1) by (simp_all add: proc_ok_def)
  note inh = inherit_fds [OF this(1) pc this(2,3) order_refl s4_def [symmetric]]
  then have t4: "proc_of s4 c = (proc_of s3 c)\<lparr>fds := fds (proc_of s p)\<rparr>" "length (proc_table s4) = MAX_PROCS"
    "queue s4 = queue s" "q_tail s4 = q_tail s" "q_count s4 = q_count s" "fs_state.more s4 = fs_state.more s3"
    using child(1) t3 ok(1) s2(9) by (simp_all add: proc_ok_def)
  have "fs_state.more s3 = fs_state.more s" using t3(7) by (cases s3; cases s; simp)
  then have ctx: "user_ctx_rip s4 = user_ctx_rip s" "user_ctx_rsp s4 = user_ctx_rsp s" "user_ctx_rflags s4 = user_ctx_rflags s"
    using t4(6) by (cases s4; cases s; simp)+
  obtain sp m' where f: "push_frame (fork_frame stub (user_ctx_rip s) (user_ctx_rsp s) (user_ctx_rflags s))
      (kstack (proc_of s4 c) + KSTACK_SIZE) (memory s4) = (sp, m')" by fastforce
  define s5 where "s5 = upd_proc c (\<lambda>x. x\<lparr>rsp := sp\<rparr>) (s4\<lparr>memory := m'\<rparr>)"
  have s5: "start_frame c (fork_frame stub (user_ctx_rip s4) (user_ctx_rsp s4) (user_ctx_rflags s4)) s4 = s5"
    using f by (simp add: start_frame_def ctx s5_def)
  define s' where "s' = sched_add c s5"
  have fork: "sys_fork stub s = Some (pid (proc_of s' c), s')"
    using assms(2) d d0 c2 s2(2) by (simp add: sys_fork_def Let_def s3_def [symmetric] s4_def [symmetric] s5 s'_def del: upt_rec_numeral)
  have "proc_of s' c = (proc_of s4 c)\<lparr>rsp := sp\<rparr>" "memory s' = m'"
    using child(1) t4(2) by (simp_all add: s'_def s5_def upd_proc_def sched_add_def)
  moreover have "Some c \<in> set (queue s')"
    using wf t4(3,4,5) assms(4) by (simp add: s'_def s5_def upd_proc_def sched_add_def sched_wf_def set_update_memI)
  ultimately show ?thesis using fork child(1,2) s2(7,8) t4(1) t3(1) f
    by (intro exI [of _ s'] exI [of _ "kstack (proc_of s4 c) + KSTACK_SIZE"] exI [of _ sp] exI [of _ "memory s4"] exI [of _ m']) simp
qed

lemma sys_fork_succeeds:
  assumes "current_proc s = Some p" "sys_fork stub s = Some (r, s')" "r \<noteq> -ENOMEM"
  shows "\<exists>d s1 c s2. vmm_clone_pml4 (pml4 (proc_of s p)) s = (d, s1) \<and> d \<noteq> 0 \<and> proc_create s1 = (Some c, s2)"
  using assms by (auto simp: sys_fork_def split: prod.splits option.splits if_splits)

section \<open>Properties\<close>


text \<open>A process to fork: the boot process with the empty address space at \<open>0x2000\<close>.\<close>

definition fork_demo :: sys_state where
  "fork_demo = fs_state.extend (fs_demo\<lparr>proc_table := (replicate 256 zero_process)
       [0 := zero_process\<lparr>pstate := PROC_RUNNING, timeslice := 5, pml4 := 0x2000\<rparr>]\<rparr>)
     \<lparr>user_ctx_rip = 0x400100, user_ctx_rflags = 0x202, user_ctx_rsp = 0x7FFFFFEFF000\<rparr>"

lemma fork_demo_simps:
  "proc_table fork_demo = (replicate 256 zero_process)[0 := zero_process\<lparr>pstate := PROC_RUNNING, timeslice := 5, pml4 := 0x2000\<rparr>]"
  "current_proc fork_demo = Some 0" "next_pid fork_demo = 1" "q_tail fork_demo = 0" "q_head fork_demo = 0" "q_count fork_demo = 0"
  "queue fork_demo = replicate 256 None" "memory fork_demo = memory vm_demo" "bitmap fork_demo = 0x1000"
  "total_pages fork_demo = 16" "free_pages fork_demo = 13" "bitmap_size fork_demo = 2" "kernel_pml4 fork_demo = 0x2000"
  "user_ctx_rip fork_demo = 0x400100" "user_ctx_rflags fork_demo = 0x202" "user_ctx_rsp fork_demo = 0x7FFFFFEFF000"
  by (simp_all add: fork_demo_def fs_state.defs fs_demo_def proc_state.defs proc_demo_def vmm_state.defs) (simp_all add: vm_demo_def)

lemma fork_demo_inv: "proc_inv fork_demo" "pmm_inv fork_demo" "own_page fork_demo 0x2000"
proof -
  have p: "proc_of fork_demo i = (if i = 0 then zero_process\<lparr>pstate := PROC_RUNNING, timeslice := 5, pml4 := 0x2000\<rparr> else zero_process)"
    if "i < 256" for i using that by (simp add: fork_demo_simps nth_list_update)
  have ok: "proc_ok zero_process" "\<not> live zero_process" "pid zero_process = 0" "pstate zero_process \<noteq> PROC_RUNNING"
    by (simp_all add: proc_ok_def live_def zero_process_def)
  have "table_ok (proc_table fork_demo) (Some 0) 1" unfolding table_ok_def using ok by (auto simp: p)
  then show "proc_inv fork_demo" by (simp add: proc_inv_def sched_wf_def fork_demo_simps)
  have F: "free_frames fork_demo = free_frames vm_demo"
    by (simp add: free_frames_def bm_test_def fork_demo_simps) (simp add: vm_demo_def)
  show "pmm_inv fork_demo" using vm_demo_inv unfolding pmm_inv_def F by (simp add: fork_demo_simps) (simp add: vm_demo_def)
  show "own_page fork_demo 0x2000" using vm_demo_root
    by (simp add: own_page_def in_bitmap_def bm_test_def fork_demo_simps) (simp add: vm_demo_def)
qed

lemma clone_loop_skip: "(\<And>i. i < n \<Longrightarrow> body i s = Inr s) \<Longrightarrow> clone_loop body n s = Inr s"
proof -
  assume b: "\<And>i. i < n \<Longrightarrow> body i s = Inr s"
  have "fold (\<lambda>i r. case r of Inl s \<Rightarrow> Inl s | Inr s \<Rightarrow> body i s) xs (Inr s) = Inr s" if "set xs \<subseteq> {..<n}" for xs
    using that by (induction xs) (simp_all add: b)
  from this [of "[0..<n]"] show ?thesis by (simp add: clone_loop_def lessThan_atLeast0)
qed

lemma clone_empty:
  assumes "pmm_inv s" "kernel_pml4 s \<noteq> 0 \<longrightarrow> own_page s (kernel_pml4 s)" "own_page s src"
    and "\<And>j. j < 256 \<Longrightarrow> pt_load (memory s) src j = 0" and step: "vmm_new_pml4 s = (d, s1)" "d \<noteq> 0"
  shows "vmm_clone_pml4 src s = (d, s1)"
proof -
  have "agree (rng src 4096) (memory s1) (memory s)" using vmm_new_pml4_ok(3) [OF assms(1,2) step] assms(3) by (simp add: own_frame_def)
  then have "\<not> present (pt_load (memory s1) src j)" if "j < 256" for j
    using pt_load_agree [of src "memory s1" "memory s" j] assms(4) [OF that] that by (simp add: present_def)
  then have "clone_loop (\<lambda>p4 s. let e4 = pt_load (memory s) src p4 in if \<not> present e4 then Inr s else F p4 e4 s) 256 s1 = Inr s1" for F
    by (intro clone_loop_skip) (simp add: Let_def)
  then show ?thesis unfolding vmm_clone_pml4_def step(1) using step(2) by simp
qed

lemma fork_demo_forks: "\<exists>r s'. sys_fork stub fork_demo = Some (r, s') \<and> r \<noteq> -ENOMEM"
proof -
  obtain d s1 where d: "vmm_new_pml4 fork_demo = (d, s1)" by fastforce
  have "free_frames fork_demo \<noteq> {}" using fork_demo_inv(2) by (auto simp: pmm_inv_def fork_demo_simps)
  then have "d \<noteq> 0" using d new_pml4_addr [of fork_demo] free_framesD(2) [OF fork_demo_inv(2) Min_in] by (simp add: pmm_alloc_first)
  have zero: "pt_load (memory fork_demo) 0x2000 j = 0" if "j < 256" for j
    using that by (intro pt_load_zero) (auto simp: fork_demo_simps vm_demo_def page_of_def)
  have k: "kernel_pml4 fork_demo \<noteq> 0 \<longrightarrow> own_page fork_demo (kernel_pml4 fork_demo)" using fork_demo_inv(3) by (simp add: fork_demo_simps)
  have c: "vmm_clone_pml4 0x2000 fork_demo = (d, s1)" by (rule clone_empty [OF fork_demo_inv(2) k fork_demo_inv(3) zero d \<open>d \<noteq> 0\<close>])
  have inv: "pmm_inv s1" by (rule vmm_new_pml4_ok(1) [OF fork_demo_inv(2) k d \<open>d \<noteq> 0\<close>])
  have "free_pages s1 = 12" using d \<open>d \<noteq> 0\<close> \<open>free_frames fork_demo \<noteq> {}\<close>
    by (auto simp: vmm_new_pml4_def pmm_alloc_first Let_def claim_frame_def fork_demo_simps simp del: upt_rec_numeral split: if_splits)
  then have card: "card (free_frames s1) = 12" using inv by (simp add: pmm_inv_def)
  then have "card (free_frames s1 - {Min (free_frames s1)}) \<noteq> 0" by (simp add: card_Diff_singleton_if)
  then have F: "free_frames s1 \<noteq> {}" "free_frames s1 - {Min (free_frames s1)} \<noteq> {}" using card by fastforce+
  have tab: "proc_table s1 = proc_table fork_demo" by (rule new_pml4_proc_table [OF d])
  have fin: "find (\<lambda>i. pstate (proc_of s1 i) = PROC_UNUSED) [1..<MAX_PROCS] = Some 1"
    by (subst upt_conv_Cons) (simp_all add: tab fork_demo_simps zero_process_def)
  from proc_create_pages [OF inv _ fin refl F(1) refl F(2)] obtain s2 where s2: "proc_create s1 = (Some 1, s2)"
    by (auto simp: tab fork_demo_simps)
  have "vmm_clone_pml4 (pml4 (proc_of fork_demo 0)) fork_demo = (d, s1)" using c by (simp add: fork_demo_simps)
  from sys_fork_child [OF fork_demo_inv(1) fork_demo_simps(2) _ _ this \<open>d \<noteq> 0\<close> s2, of stub]
  show ?thesis by (auto simp: fork_demo_simps)
qed


end
