(* ===== verification/Locks.thy ===== *)
theory Locks
  imports Prelude "HOL-Library.Word"
begin

text \<open>
  The locks of \<open>arch/x86_64/smp/lock.c\<close> and its lock tracker.

  Each lock operation is a little program: one step per access to the lock's memory, in the order of the
  source.  A program counter says which access comes next; \<open>Out\<close> is the code outside the lock and \<open>In\<close>
  the critical section.  CPUs interleave step by step and see the accesses in one order, which on this
  processor the locked instructions and the fences of the source enforce where it matters.  CPU \<open>c\<close> has
  the id \<open>c\<close>; the value of the time stamp counter is an argument of the step that reads it.
\<close>

section \<open>Spin locks\<close>

record spinlock =
  locked :: u32
  owner_cpu :: int
  lname :: u64
  acquire_time :: u64

definition spinlock_init :: "u64 \<Rightarrow> spinlock" where
  "spinlock_init name = \<lparr>locked = 0, owner_cpu = -1, lname = name, acquire_time = 0\<rparr>"

text \<open>The swap of \<open>__sync_lock_test_and_set\<close>: the old value, and the new one in its place.\<close>

definition test_and_set :: "u32 \<Rightarrow> u32 \<times> u32" where
  "test_and_set v = (v, 1)"

text \<open>\<open>Acq True\<close> is the spinning acquisition, \<open>Acq False\<close> the single attempt of \<open>spinlock_try_acquire\<close>.\<close>

datatype spin_pc = Out | Acq bool | Set_owner | Set_time | In | Clear_owner | Clear_time | Unlock

definition spinlock_enter :: "int \<Rightarrow> u64 \<Rightarrow> spin_pc \<Rightarrow> spinlock \<Rightarrow> (spin_pc \<times> spinlock) option" where
  "spinlock_enter cpu tsc pc l =
     (case pc of
        Set_owner \<Rightarrow> Some (Set_time, l\<lparr>owner_cpu := cpu\<rparr>)
      | Set_time \<Rightarrow> Some (In, l\<lparr>acquire_time := tsc\<rparr>)
      | _ \<Rightarrow> None)"

definition spinlock_acquire :: "int \<Rightarrow> u64 \<Rightarrow> spin_pc \<Rightarrow> spinlock \<Rightarrow> (spin_pc \<times> spinlock) option" where
  "spinlock_acquire cpu tsc pc l =
     (if pc = Acq True then let (old, v) = test_and_set (locked l) in Some (if old \<noteq> 0 then Acq True else Set_owner, l\<lparr>locked := v\<rparr>)
      else spinlock_enter cpu tsc pc l)"

definition spinlock_try_acquire :: "int \<Rightarrow> u64 \<Rightarrow> spin_pc \<Rightarrow> spinlock \<Rightarrow> (spin_pc \<times> spinlock) option" where
  "spinlock_try_acquire cpu tsc pc l =
     (if pc = Acq False then let (old, v) = test_and_set (locked l) in Some (if old \<noteq> 0 then Out else Set_owner, l\<lparr>locked := v\<rparr>)
      else spinlock_enter cpu tsc pc l)"

definition spinlock_release :: "spin_pc \<Rightarrow> spinlock \<Rightarrow> (spin_pc \<times> spinlock) option" where
  "spinlock_release pc l =
     (case pc of
        Clear_owner \<Rightarrow> Some (Clear_time, l\<lparr>owner_cpu := -1\<rparr>)
      | Clear_time \<Rightarrow> Some (Unlock, l\<lparr>acquire_time := 0\<rparr>)
      | Unlock \<Rightarrow> Some (Out, l\<lparr>locked := 0\<rparr>)
      | _ \<Rightarrow> None)"

text \<open>The calls are the choice of the CPU: it may try to enter from outside, and leave from inside.\<close>

inductive spin_step :: "nat \<Rightarrow> spin_pc \<Rightarrow> spinlock \<Rightarrow> spin_pc \<Rightarrow> spinlock \<Rightarrow> bool" for c where
  spin_call: "spin_step c Out l (Acq b) l"
| spin_acquire: "spinlock_acquire (int c) tsc pc l = Some (pc', l') \<Longrightarrow> spin_step c pc l pc' l'"
| spin_try: "spinlock_try_acquire (int c) tsc pc l = Some (pc', l') \<Longrightarrow> spin_step c pc l pc' l'"
| spin_leave: "spin_step c In l Clear_owner l"
| spin_release: "spinlock_release pc l = Some (pc', l') \<Longrightarrow> spin_step c pc l pc' l'"

inductive_cases spin_stepE: "spin_step c pc l pc' l'"

section \<open>Mutexes\<close>

record mutex =
  count_word :: u32
  mowner_cpu :: int
  wait_queue :: u64
  mname :: u64

definition mutex_init :: "u64 \<Rightarrow> mutex" where
  "mutex_init name = \<lparr>count_word = 1, mowner_cpu = -1, wait_queue = 0, mname = name\<rparr>"

definition atomic_cmpxchg :: "u32 \<Rightarrow> u32 \<Rightarrow> u32 \<Rightarrow> u32 \<times> u32" where
  "atomic_cmpxchg v expected desired = (v, if v = expected then desired else v)"

text \<open>\<open>M_fast\<close> is the first attempt, \<open>M_look\<close> the test and \<open>M_swap\<close> the swap of the loop.\<close>

datatype mutex_pc = M_out | M_fast | M_look | M_swap | M_owner | M_in | M_clear | M_unlock

definition mutex_swap :: "mutex \<Rightarrow> mutex_pc \<times> mutex" where
  "mutex_swap l = (let (old, v) = atomic_cmpxchg (count_word l) 1 0 in (if old = 1 then M_owner else M_look, l\<lparr>count_word := v\<rparr>))"

definition mutex_acquire :: "int \<Rightarrow> mutex_pc \<Rightarrow> mutex \<Rightarrow> (mutex_pc \<times> mutex) option" where
  "mutex_acquire cpu pc l =
     (case pc of
        M_fast \<Rightarrow> Some (mutex_swap l)
      | M_look \<Rightarrow> Some (if count_word l = 1 then M_swap else M_look, l)
      | M_swap \<Rightarrow> Some (mutex_swap l)
      | M_owner \<Rightarrow> Some (M_in, l\<lparr>mowner_cpu := cpu\<rparr>)
      | _ \<Rightarrow> None)"

definition mutex_release :: "mutex_pc \<Rightarrow> mutex \<Rightarrow> (mutex_pc \<times> mutex) option" where
  "mutex_release pc l =
     (case pc of
        M_clear \<Rightarrow> Some (M_unlock, l\<lparr>mowner_cpu := -1\<rparr>)
      | M_unlock \<Rightarrow> Some (M_out, l\<lparr>count_word := 1\<rparr>)
      | _ \<Rightarrow> None)"

inductive mutex_step :: "nat \<Rightarrow> mutex_pc \<Rightarrow> mutex \<Rightarrow> mutex_pc \<Rightarrow> mutex \<Rightarrow> bool" for c where
  mutex_call: "mutex_step c M_out l M_fast l"
| mutex_acq: "mutex_acquire (int c) pc l = Some (pc', l') \<Longrightarrow> mutex_step c pc l pc' l'"
| mutex_leave: "mutex_step c M_in l M_clear l"
| mutex_rel: "mutex_release pc l = Some (pc', l') \<Longrightarrow> mutex_step c pc l pc' l'"

inductive_cases mutex_stepE: "mutex_step c pc l pc' l'"

section \<open>Read-write locks\<close>

record rwlock =
  readers :: u32
  writers :: u32
  writer_cpu :: int
  rwname :: u64

definition rwlock_init :: "u64 \<Rightarrow> rwlock" where
  "rwlock_init name = \<lparr>readers = 0, writers = 0, writer_cpu = -1, rwname = name\<rparr>"

definition atomic_inc :: "u32 \<Rightarrow> u32" where
  "atomic_inc v = v + 1"

definition atomic_dec :: "u32 \<Rightarrow> u32" where
  "atomic_dec v = v - 1"

text \<open>
  A reader waits, counts itself, checks again and may have to undo; a writer takes the word, drains the
  readers and records itself.  The retry of a reader is a call in tail position: it starts over.
\<close>

datatype rw_pc = RW_out
  | R_wait | R_inc | R_check | R_undo | R_in | R_dec
  | W_take | W_drain | W_owner | W_in | W_clear | W_unlock

definition rwlock_read_acquire :: "rw_pc \<Rightarrow> rwlock \<Rightarrow> (rw_pc \<times> rwlock) option" where
  "rwlock_read_acquire pc l =
     (case pc of
        R_wait \<Rightarrow> Some (if writers l > 0 then R_wait else R_inc, l)
      | R_inc \<Rightarrow> Some (R_check, l\<lparr>readers := atomic_inc (readers l)\<rparr>)
      | R_check \<Rightarrow> Some (if writers l > 0 then R_undo else R_in, l)
      | R_undo \<Rightarrow> Some (R_wait, l\<lparr>readers := atomic_dec (readers l)\<rparr>)
      | _ \<Rightarrow> None)"

definition rwlock_read_release :: "rw_pc \<Rightarrow> rwlock \<Rightarrow> (rw_pc \<times> rwlock) option" where
  "rwlock_read_release pc l = (if pc = R_dec then Some (RW_out, l\<lparr>readers := atomic_dec (readers l)\<rparr>) else None)"

definition rwlock_write_acquire :: "int \<Rightarrow> rw_pc \<Rightarrow> rwlock \<Rightarrow> (rw_pc \<times> rwlock) option" where
  "rwlock_write_acquire cpu pc l =
     (case pc of
        W_take \<Rightarrow> let (old, v) = test_and_set (writers l) in Some (if old \<noteq> 0 then W_take else W_drain, l\<lparr>writers := v\<rparr>)
      | W_drain \<Rightarrow> Some (if readers l > 0 then W_drain else W_owner, l)
      | W_owner \<Rightarrow> Some (W_in, l\<lparr>writer_cpu := cpu\<rparr>)
      | _ \<Rightarrow> None)"

definition rwlock_write_release :: "rw_pc \<Rightarrow> rwlock \<Rightarrow> (rw_pc \<times> rwlock) option" where
  "rwlock_write_release pc l =
     (case pc of
        W_clear \<Rightarrow> Some (W_unlock, l\<lparr>writer_cpu := -1\<rparr>)
      | W_unlock \<Rightarrow> Some (RW_out, l\<lparr>writers := 0\<rparr>)
      | _ \<Rightarrow> None)"

inductive rw_step :: "nat \<Rightarrow> rw_pc \<Rightarrow> rwlock \<Rightarrow> rw_pc \<Rightarrow> rwlock \<Rightarrow> bool" for c where
  rw_read: "rw_step c RW_out l R_wait l"
| rw_write: "rw_step c RW_out l W_take l"
| rw_racq: "rwlock_read_acquire pc l = Some (pc', l') \<Longrightarrow> rw_step c pc l pc' l'"
| rw_wacq: "rwlock_write_acquire (int c) pc l = Some (pc', l') \<Longrightarrow> rw_step c pc l pc' l'"
| rw_rleave: "rw_step c R_in l R_dec l"
| rw_wleave: "rw_step c W_in l W_clear l"
| rw_rrel: "rwlock_read_release pc l = Some (pc', l') \<Longrightarrow> rw_step c pc l pc' l'"
| rw_wrel: "rwlock_write_release pc l = Some (pc', l') \<Longrightarrow> rw_step c pc l pc' l'"

inductive_cases rw_stepE: "rw_step c pc l pc' l'"

section \<open>Interleaving\<close>

text \<open>\<open>n\<close> CPUs at their program counters, and the lock they share.\<close>

inductive interleave :: "(nat \<Rightarrow> 'p \<Rightarrow> 'l \<Rightarrow> 'p \<Rightarrow> 'l \<Rightarrow> bool) \<Rightarrow> nat \<Rightarrow> (nat \<Rightarrow> 'p) \<times> 'l \<Rightarrow> (nat \<Rightarrow> 'p) \<times> 'l \<Rightarrow> bool"
  for step n where
  one: "c < n \<Longrightarrow> step c (pcs c) l p l' \<Longrightarrow> interleave step n (pcs, l) (pcs(c := p), l')"

text \<open>
  The interface of a mutual-exclusion protocol: which program counters own the lock, what the lock word says,
  and the owner that the lock records while a CPU is in its critical section.
\<close>

locale lock_protocol =
  fixes step :: "nat \<Rightarrow> 'p \<Rightarrow> 'l \<Rightarrow> 'p \<Rightarrow> 'l \<Rightarrow> bool"
    and owns :: "'p \<Rightarrow> bool" and inside :: "'p \<Rightarrow> bool" and unlocked :: "'l \<Rightarrow> bool" and owner :: "'l \<Rightarrow> int"
  assumes enter: "\<lbrakk>step c p l p' l'; \<not> owns p; owns p'\<rbrakk> \<Longrightarrow> unlocked l \<and> \<not> unlocked l' \<and> \<not> inside p'"
    and keep: "\<lbrakk>step c p l p' l'; owns p; owns p'\<rbrakk> \<Longrightarrow> unlocked l' = unlocked l"
    and leave: "\<lbrakk>step c p l p' l'; owns p; \<not> owns p'\<rbrakk> \<Longrightarrow> unlocked l'"
    and outside: "\<lbrakk>step c p l p' l'; \<not> owns p; \<not> owns p'\<rbrakk> \<Longrightarrow> unlocked l' = unlocked l \<and> owner l' = owner l"
    and inside_owns: "inside p \<Longrightarrow> owns p"
    and record_owner: "\<lbrakk>step c p l p' l'; owns p; inside p'\<rbrakk> \<Longrightarrow> owner l' = int c \<or> inside p \<and> owner l' = owner l"
begin

lemma interleave_owner:
  assumes "(interleave step n)\<^sup>*\<^sup>* x y" "\<forall>c < n. \<not> owns (fst x c)" "unlocked (snd x)"
  shows "(\<forall>c < n. \<forall>d < n. owns (fst y c) \<longrightarrow> owns (fst y d) \<longrightarrow> c = d)
    \<and> (unlocked (snd y) \<longleftrightarrow> (\<forall>c < n. \<not> owns (fst y c))) \<and> (\<forall>c < n. inside (fst y c) \<longrightarrow> owner (snd y) = int c)"
  using assms(1)
proof (induction rule: rtranclp_induct)
  case base
  then show ?case using assms(2,3) inside_owns by blast
next
  case (step y z)
  from step.hyps(2) obtain c pcs l p l' where
    yz: "c < n" "y = (pcs, l)" "z = (pcs(c := p), l')" "step c (pcs c) l p l'" by cases auto
  have one: "\<And>d e. d < n \<Longrightarrow> e < n \<Longrightarrow> owns (pcs d) \<Longrightarrow> owns (pcs e) \<Longrightarrow> d = e"
    and free: "unlocked l \<longleftrightarrow> (\<forall>d < n. \<not> owns (pcs d))" and own: "\<And>d. d < n \<Longrightarrow> inside (pcs d) \<Longrightarrow> owner l = int d"
    using step.IH by (auto simp: yz)
  let ?q = "pcs(c := p)"
  have other: "?q d = pcs d" if "d \<noteq> c" for d using that by simp
  have sole: "d = c" if "d < n" "owns (?q d)" "owns (pcs c) \<or> owns p" for d
  proof (rule ccontr)
    assume "d \<noteq> c"
    then have "owns (pcs d)" using that(2) by simp
    then have "\<not> owns (pcs c)" "\<not> unlocked l" using one [OF that(1) yz(1)] free that(1) \<open>d \<noteq> c\<close> by blast+
    then show False using that(3) enter [OF yz(4)] by blast
  qed
  have excl: "d = e" if "d < n" "e < n" "owns (?q d)" "owns (?q e)" for d e
  proof (cases "owns (pcs c) \<or> owns p")
    case False
    then have "owns (pcs d)" "owns (pcs e)" using that(3,4) by (auto simp: fun_upd_apply split: if_splits)
    then show ?thesis using one that(1,2) by blast
  qed (use sole that in blast)
  have word: "unlocked l' \<longleftrightarrow> (\<forall>d < n. \<not> owns (?q d))"
  proof (cases "owns p")
    case True
    then have "\<not> unlocked l'" using enter [OF yz(4)] keep [OF yz(4)] free yz(1) by blast
    then show ?thesis using True yz(1) by auto
  next
    case False
    have q: "(\<forall>d < n. \<not> owns (?q d)) \<longleftrightarrow> (\<forall>d < n. d \<noteq> c \<longrightarrow> \<not> owns (pcs d))" using False by auto
    show ?thesis unfolding q using False leave [OF yz(4)] outside [OF yz(4)] free one [OF _ yz(1)] yz(1) by blast
  qed
  have "owner l' = int d" if d: "d < n" "inside (?q d)" for d
  proof (cases "owns (pcs c) \<or> owns p")
    case True
    then have "d = c" using sole d inside_owns by blast
    then have "inside p" using d by simp
    then show ?thesis
      using True enter [OF yz(4)] record_owner [OF yz(4)] inside_owns own [OF yz(1)] \<open>d = c\<close> by metis
  next
    case False
    then have "d \<noteq> c" using d(2) inside_owns by (metis fun_upd_same)
    then show ?thesis using own [OF d(1)] d(2) outside [OF yz(4)] False by simp
  qed
  with excl word show ?case unfolding yz fst_conv snd_conv by blast
qed

end


section \<open>The locks implement the protocol\<close>

definition spin_owns :: "spin_pc \<Rightarrow> bool" where
  "spin_owns pc \<longleftrightarrow> pc \<in> {Set_owner, Set_time, In, Clear_owner, Clear_time, Unlock}"

definition mutex_owns :: "mutex_pc \<Rightarrow> bool" where
  "mutex_owns pc \<longleftrightarrow> pc \<in> {M_owner, M_in, M_clear, M_unlock}"

definition writer_owns :: "rw_pc \<Rightarrow> bool" where
  "writer_owns pc \<longleftrightarrow> pc \<in> {W_drain, W_owner, W_in, W_clear, W_unlock}"

lemmas spin_defs = spinlock_acquire_def spinlock_try_acquire_def spinlock_enter_def spinlock_release_def test_and_set_def

lemmas mutex_defs = mutex_acquire_def mutex_release_def mutex_swap_def atomic_cmpxchg_def

lemmas rw_defs = rwlock_read_acquire_def rwlock_read_release_def rwlock_write_acquire_def rwlock_write_release_def
  test_and_set_def atomic_inc_def atomic_dec_def

interpretation sl: lock_protocol spin_step spin_owns "\<lambda>pc. pc \<in> {Set_time, In}" "\<lambda>l. locked l = 0" owner_cpu
  by unfold_locales
    (auto elim!: spin_stepE simp: spin_defs spin_owns_def split: if_splits spin_pc.splits)

interpretation ml: lock_protocol mutex_step mutex_owns "\<lambda>pc. pc = M_in" "\<lambda>l. count_word l = 1" mowner_cpu
  by unfold_locales
    (auto elim!: mutex_stepE simp: mutex_defs mutex_owns_def split: if_splits mutex_pc.splits)

interpretation wl: lock_protocol rw_step writer_owns "\<lambda>pc. pc = W_in" "\<lambda>l. writers l = 0" writer_cpu
  by unfold_locales
    (auto elim!: rw_stepE simp: rw_defs writer_owns_def split: if_splits rw_pc.splits)

section \<open>Readers\<close>

text \<open>The reader counts itself between the increment and the decrement; a writer has drained the readers
  from its check of the count to its release.\<close>

definition counted :: "rw_pc \<Rightarrow> bool" where
  "counted pc \<longleftrightarrow> pc \<in> {R_check, R_undo, R_in, R_dec}"

definition drained :: "rw_pc \<Rightarrow> bool" where
  "drained pc \<longleftrightarrow> pc \<in> {W_owner, W_in, W_clear, W_unlock}"

definition reading :: "rw_pc \<Rightarrow> bool" where
  "reading pc \<longleftrightarrow> pc \<in> {R_in, R_dec}"

definition rw_inv :: "nat \<Rightarrow> (nat \<Rightarrow> rw_pc) \<times> rwlock \<Rightarrow> bool" where
  "rw_inv n x \<longleftrightarrow> readers (snd x) = of_nat (card {c. c < n \<and> counted (fst x c)})
     \<and> (\<forall>c < n. drained (fst x c) \<longrightarrow> (\<forall>d < n. \<not> reading (fst x d)))"

lemma card_upd:
  fixes c n :: nat
  assumes "c < n"
  shows "(of_nat (card {d. d < n \<and> P ((f(c := p)) d)}) :: 'a :: ring_1)
    = of_nat (card {d. d < n \<and> P (f d)}) + of_bool (P p) - of_bool (P (f c))"
proof -
  let ?S = "{d. d < n \<and> d \<noteq> c \<and> P (f d)}"
  have split: "{d. d < n \<and> P (g d)} = (if P (g c) then insert c ?S else ?S)" if "\<forall>d. d \<noteq> c \<longrightarrow> g d = f d" for g
    using assms that by auto
  have "finite ?S" by (rule finite_subset [of _ "{..<n}"]) auto
  then show ?thesis using split [of f] split [of "f(c := p)"] by simp
qed

lemma rw_count:
  assumes "rw_step c p l p' l'"
  shows "readers l' = readers l + of_bool (counted p') - of_bool (counted p)"
  using assms by (auto elim!: rw_stepE simp: rw_defs counted_def split: if_splits rw_pc.splits)

lemma rw_drain:
  assumes "rw_step c p l p' l'"
  shows "drained p' \<Longrightarrow> drained p \<or> readers l = 0" "reading p' \<Longrightarrow> reading p \<or> writers l = 0" "drained p \<Longrightarrow> \<not> reading p'"
  using assms by (auto elim!: rw_stepE simp: rw_defs drained_def reading_def word_gt_0 split: if_splits rw_pc.splits)

lemma rw_kinds: "drained p \<Longrightarrow> writer_owns p" "reading p \<Longrightarrow> counted p" "drained p \<Longrightarrow> \<not> reading p"
  by (auto simp: drained_def reading_def writer_owns_def counted_def)

lemma interleave_rw:
  assumes run: "(interleave rw_step n)\<^sup>*\<^sup>* (\<lambda>_. RW_out, rwlock_init name) y" and n: "n < 2 ^ 32"
  shows "rw_inv n y"
  using run
proof (induction rule: rtranclp_induct)
  case base
  then show ?case by (simp add: rw_inv_def rwlock_init_def counted_def drained_def)
next
  case (step y z)
  from step.hyps(2) obtain c pcs l p l' where
    yz: "c < n" "y = (pcs, l)" "z = (pcs(c := p), l')" and st: "rw_step c (pcs c) l p l'" by cases auto
  have cnt: "readers l = of_nat (card {d. d < n \<and> counted (pcs d)})"
    and dr: "\<And>d e. d < n \<Longrightarrow> e < n \<Longrightarrow> drained (pcs d) \<Longrightarrow> \<not> reading (pcs e)" using step.IH by (auto simp: rw_inv_def yz)
  have word: "writers l = 0 \<longleftrightarrow> (\<forall>d < n. \<not> writer_owns (pcs d))"
    using wl.interleave_owner [OF step.hyps(1)] by (simp add: yz writer_owns_def rwlock_init_def)
  have empty: "\<not> counted (pcs d)" if "readers l = 0" "d < n" for d
  proof -
    have "card {d. d < n \<and> counted (pcs d)} \<le> n" using card_mono [of "{..<n}" "{d. d < n \<and> counted (pcs d)}"] by auto
    then have "unat (of_nat (card {d. d < n \<and> counted (pcs d)}) :: u32) = card {d. d < n \<and> counted (pcs d)}"
      using n by (intro of_nat_inverse [OF refl]) simp
    then have "card {d. d < n \<and> counted (pcs d)} = 0" using that(1) cnt by simp
    then show ?thesis using that(2) by auto
  qed
  have "\<not> reading ((pcs(c := p)) e)" if de: "d < n" "e < n" "drained ((pcs(c := p)) d)" for d e
  proof (cases "d = c")
    case True
    then have p: "drained p" using de(3) by simp
    then have "\<not> reading (pcs e)" using rw_drain(1) [OF st p] dr [OF yz(1) de(2)] empty [OF _ de(2)] rw_kinds(2) by blast
    then show ?thesis using rw_kinds(3) [OF p] by (cases "e = c") simp_all
  next
    case False
    then have d: "drained (pcs d)" using de(3) by simp
    then have "writers l \<noteq> 0" using word de(1) rw_kinds(1) by blast
    then show ?thesis using dr [OF de(1,2) d] dr [OF de(1) yz(1) d] rw_drain(2) [OF st] by (cases "e = c") auto
  qed
  moreover have "readers l' = of_nat (card {d. d < n \<and> counted ((pcs(c := p)) d)})"
    using rw_count [OF st] unfolding card_upd [OF yz(1)] cnt .
  ultimately show ?case unfolding rw_inv_def yz by simp
qed

section \<open>The lock tracker\<close>

abbreviation MAX_LOCK_TRACE :: nat where "MAX_LOCK_TRACE \<equiv> 32"

record lock_trace =
  lt_locks :: "u64 list"
  lt_names :: "u64 list"
  lt_count :: nat

definition lockdep_init :: "lock_trace list \<Rightarrow> lock_trace list" where
  "lockdep_init ts = map (\<lambda>t. t\<lparr>lt_count := 0\<rparr>) ts"

text \<open>The first component counts the deadlock messages.\<close>

definition lockdep_acquire :: "u64 \<Rightarrow> u64 \<Rightarrow> lock_trace \<Rightarrow> nat \<times> lock_trace" where
  "lockdep_acquire a name t =
     (length (filter (\<lambda>i. lt_locks t ! i = a) [0..<lt_count t]),
      if lt_count t < MAX_LOCK_TRACE
      then t\<lparr>lt_locks := (lt_locks t)[lt_count t := a], lt_names := (lt_names t)[lt_count t := name], lt_count := lt_count t + 1\<rparr>
      else t)"

definition shift_down :: "nat \<Rightarrow> nat \<Rightarrow> 'x list \<Rightarrow> 'x list" where
  "shift_down i n xs = fold (\<lambda>j xs. xs[j := xs ! (j + 1)]) [i..<n - 1] xs"

definition lockdep_release :: "u64 \<Rightarrow> lock_trace \<Rightarrow> lock_trace" where
  "lockdep_release a t =
     (case find (\<lambda>i. lt_locks t ! i = a) [0..<lt_count t] of
        None \<Rightarrow> t
      | Some i \<Rightarrow> t\<lparr>lt_locks := shift_down i (lt_count t) (lt_locks t), lt_names := shift_down i (lt_count t) (lt_names t),
                    lt_count := lt_count t - 1\<rparr>)"

text \<open>A trace stands for the list of pairs of held locks and names.\<close>

definition trace_ok :: "lock_trace \<Rightarrow> bool" where
  "trace_ok t \<longleftrightarrow> length (lt_locks t) = MAX_LOCK_TRACE \<and> length (lt_names t) = MAX_LOCK_TRACE \<and> lt_count t \<le> MAX_LOCK_TRACE"

definition held :: "lock_trace \<Rightarrow> u64 list" where
  "held t = take (lt_count t) (lt_locks t)"

lemma shift_down_take:
  assumes "i < n" "n \<le> length xs"
  shows "length (shift_down i n xs) = length xs \<and> take (n - 1) (shift_down i n xs) = take i xs @ drop (i + 1) (take n xs)"
proof -
  have "\<forall>k. k \<le> n - 1 - i \<longrightarrow> (let ys = fold (\<lambda>j xs. xs[j := xs ! (j + 1)]) [i..<i + k] xs in length ys = length xs
    \<and> (\<forall>j < length xs. ys ! j = (if i \<le> j \<and> j < i + k then xs ! (j + 1) else xs ! j)))"
  proof (intro allI)
    fix k show "k \<le> n - 1 - i \<longrightarrow> (let ys = fold (\<lambda>j xs. xs[j := xs ! (j + 1)]) [i..<i + k] xs in length ys = length xs
      \<and> (\<forall>j < length xs. ys ! j = (if i \<le> j \<and> j < i + k then xs ! (j + 1) else xs ! j)))"
      using assms by (induction k) (auto simp: Let_def nth_list_update less_Suc_eq)
  qed
  from this [rule_format, of "n - 1 - i"] assms
  have len: "length (shift_down i n xs) = length xs"
    and at: "\<And>j. j < length xs \<Longrightarrow> shift_down i n xs ! j = (if i \<le> j \<and> j < n - 1 then xs ! (j + 1) else xs ! j)"
    by (auto simp: shift_down_def Let_def)
  have "take (n - 1) (shift_down i n xs) = take i xs @ drop (i + 1) (take n xs)"
    by (rule nth_equalityI) (use assms len in \<open>auto simp: at nth_append\<close>)
  with len show ?thesis by simp
qed

lemma count_list_nth: "length (filter (\<lambda>i. xs ! i = a) [0..<length xs]) = count_list xs a"
proof (induction xs)
  case (Cons x xs)
  have "[0..<length (x # xs)] = 0 # map Suc [0..<length xs]" unfolding map_Suc_upt by (simp add: upt_conv_Cons del: upt_Suc)
  then show ?case using Cons by (simp add: filter_map o_def del: upt_Suc)
qed simp

lemma remove1_find:
  "find (\<lambda>i. xs ! i = a) [0..<length xs] = Some i \<Longrightarrow> remove1 a xs = take i xs @ drop (i + 1) xs"
proof -
  assume "find (\<lambda>i. xs ! i = a) [0..<length xs] = Some i"
  then have i: "i < length xs" "xs ! i = a" "\<forall>j < i. xs ! j \<noteq> a" by (auto simp: find_upt_Some)
  have "xs = take i xs @ a # drop (i + 1) xs" using id_take_nth_drop [OF i(1)] i(2) by simp
  moreover have "a \<notin> set (take i xs)" using i(1,3) by (auto simp: in_set_conv_nth)
  ultimately show ?thesis by (metis remove1_append remove1.simps(2))
qed

section \<open>Properties\<close>

text \<open>C12. Mutual exclusion.  Any number of CPUs run \<open>spinlock_acquire\<close>, \<open>spinlock_try_acquire\<close> and
  \<open>spinlock_release\<close> on one lock, or \<open>mutex_acquire\<close> and \<open>mutex_release\<close> on one mutex, interleaved access by access.  At most one of
  them is in its critical section, the lock records that CPU as its owner, and the lock word is free exactly when no
  CPU is between a successful swap and its release, so a lock is never lost.\<close>

theorem lock_mutual_exclusion:
  "((interleave spin_step n)\<^sup>*\<^sup>* (\<lambda>_. Out, spinlock_init a) (pcs, l) \<longrightarrow>
      (\<forall>c < n. \<forall>d < n. pcs c = In \<and> pcs d = In \<longrightarrow> c = d) \<and> (\<forall>c < n. pcs c = In \<longrightarrow> owner_cpu l = int c)
      \<and> (locked l = 0 \<longleftrightarrow> (\<forall>c < n. pcs c \<in> {Out, Acq True, Acq False})))
    \<and> ((interleave mutex_step n)\<^sup>*\<^sup>* (\<lambda>_. M_out, mutex_init a) (mpcs, m) \<longrightarrow>
      (\<forall>c < n. \<forall>d < n. mpcs c = M_in \<and> mpcs d = M_in \<longrightarrow> c = d) \<and> (\<forall>c < n. mpcs c = M_in \<longrightarrow> mowner_cpu m = int c)
      \<and> (count_word m = 1 \<longleftrightarrow> (\<forall>c < n. mpcs c \<in> {M_out, M_fast, M_look, M_swap})))"
proof (intro conjI impI)
  assume "(interleave spin_step n)\<^sup>*\<^sup>* (\<lambda>_. Out, spinlock_init a) (pcs, l)"
  note S = sl.interleave_owner [OF this]
  have o: "spin_owns pc \<longleftrightarrow> pc \<notin> {Out, Acq True, Acq False}" for pc by (cases pc) (auto simp: spin_owns_def)
  show "\<forall>c < n. \<forall>d < n. pcs c = In \<and> pcs d = In \<longrightarrow> c = d" "\<forall>c < n. pcs c = In \<longrightarrow> owner_cpu l = int c"
    "locked l = 0 \<longleftrightarrow> (\<forall>c < n. pcs c \<in> {Out, Acq True, Acq False})"
    using S by (simp_all add: o spinlock_init_def)
next
  assume "(interleave mutex_step n)\<^sup>*\<^sup>* (\<lambda>_. M_out, mutex_init a) (mpcs, m)"
  note M = ml.interleave_owner [OF this]
  have o: "mutex_owns pc \<longleftrightarrow> pc \<notin> {M_out, M_fast, M_look, M_swap}" for pc by (cases pc) (auto simp: mutex_owns_def)
  show "\<forall>c < n. \<forall>d < n. mpcs c = M_in \<and> mpcs d = M_in \<longrightarrow> c = d" "\<forall>c < n. mpcs c = M_in \<longrightarrow> mowner_cpu m = int c"
    "count_word m = 1 \<longleftrightarrow> (\<forall>c < n. mpcs c \<in> {M_out, M_fast, M_look, M_swap})"
    using M by (simp_all add: o mutex_init_def)
qed

text \<open>C13. Readers and writers.  CPUs run the four operations of \<open>rwlock_t\<close> interleaved access by access.  While a
  CPU writes, no other CPU writes and none reads, the lock records the writer, and the 32-bit count is the number of
  CPUs between their increment and decrement, so it never wraps below zero.\<close>

theorem rwlock_exclusion:
  assumes "(interleave rw_step n)\<^sup>*\<^sup>* (\<lambda>_. RW_out, rwlock_init a) (pcs, l)" "n < 2 ^ 32"
  shows "(\<forall>c < n. pcs c = W_in \<longrightarrow> writer_cpu l = int c \<and> (\<forall>d < n. pcs d \<noteq> R_in \<and> (pcs d = W_in \<longrightarrow> d = c)))
    \<and> unat (readers l) = card {c. c < n \<and> pcs c \<in> {R_check, R_undo, R_in, R_dec}}"
proof -
  have inv: "rw_inv n (pcs, l)" using interleave_rw [OF assms] .
  have "(\<forall>c < n. \<forall>d < n. writer_owns (pcs c) \<longrightarrow> writer_owns (pcs d) \<longrightarrow> c = d) \<and> (\<forall>c < n. pcs c = W_in \<longrightarrow> writer_cpu l = int c)"
    using wl.interleave_owner [OF assms(1)] by (simp add: writer_owns_def rwlock_init_def)
  moreover have "card {c. c < n \<and> counted (pcs c)} \<le> n" using card_mono [of "{..<n}" "{c. c < n \<and> counted (pcs c)}"] by auto
  then have "unat (of_nat (card {c. c < n \<and> counted (pcs c)}) :: u32) = card {c. c < n \<and> counted (pcs c)}"
    using assms(2) by (intro of_nat_inverse [OF refl]) simp
  ultimately show ?thesis using inv by (auto simp: rw_inv_def counted_def drained_def reading_def writer_owns_def)
qed

text \<open>C35. The lock tracker keeps the list of held locks: an acquisition appends its lock while there is
  room and reports one message for each time the CPU already holds it, and a release takes out the first
  entry of its lock and keeps the order of the others.\<close>

theorem lockdep_tracks:
  assumes "trace_ok t"
  shows "trace_ok (snd (lockdep_acquire a nm t)) \<and> fst (lockdep_acquire a nm t) = count_list (held t) a
    \<and> held (snd (lockdep_acquire a nm t)) = (if length (held t) < MAX_LOCK_TRACE then held t @ [a] else held t)
    \<and> trace_ok (lockdep_release a t) \<and> held (lockdep_release a t) = remove1 a (held t)"
proof -
  have len: "length (lt_locks t) = 32" "length (lt_names t) = 32" "lt_count t \<le> 32" using assms by (simp_all add: trace_ok_def)
  have at: "held t ! i = lt_locks t ! i" if "i < lt_count t" for i using that by (simp add: held_def)
  have n: "length (held t) = lt_count t" using len by (simp add: held_def)
  have "filter (\<lambda>i. lt_locks t ! i = a) [0..<lt_count t] = filter (\<lambda>i. held t ! i = a) [0..<length (held t)]"
    unfolding n by (rule filter_cong) (simp_all add: at)
  then have msgs: "fst (lockdep_acquire a nm t) = count_list (held t) a" by (simp add: lockdep_acquire_def count_list_nth)
  have acq: "trace_ok (snd (lockdep_acquire a nm t))" "held (snd (lockdep_acquire a nm t)) = (if length (held t) < 32 then held t @ [a] else held t)"
    using len n by (auto simp: lockdep_acquire_def trace_ok_def held_def take_Suc_conv_app_nth)
  have find: "find (\<lambda>i. lt_locks t ! i = a) [0..<lt_count t] = find (\<lambda>i. held t ! i = a) [0..<length (held t)]"
    unfolding n by (rule find_cong) (simp_all add: at)
  have "trace_ok (lockdep_release a t) \<and> held (lockdep_release a t) = remove1 a (held t)"
  proof (cases "find (\<lambda>i. held t ! i = a) [0..<length (held t)]")
    case None
    then have "a \<notin> set (held t)" by (auto simp: find_upt_None in_set_conv_nth)
    then show ?thesis using None assms unfolding lockdep_release_def find by (simp add: remove1_idem)
  next
    case (Some i)
    then have i: "i < lt_count t" by (simp add: find_upt_Some n)
    note S = shift_down_take [OF i, of "lt_locks t"] shift_down_take [OF i, of "lt_names t"]
    show ?thesis using Some S len i remove1_find [OF Some] unfolding lockdep_release_def find
      by (auto simp: trace_ok_def held_def min_absorb1)
  qed
  with msgs acq show ?thesis by simp
qed

section \<open>Witnesses\<close>

lemma interleave_next:
  "(interleave step n)\<^sup>*\<^sup>* x (pcs, l) \<Longrightarrow> c < n \<Longrightarrow> step c (pcs c) l p l' \<Longrightarrow> (interleave step n)\<^sup>*\<^sup>* x (pcs(c := p), l')"
  by (erule rtranclp.rtrancl_into_rtrancl) (rule interleave.one)

text \<open>CPU 1 takes the lock while CPU 0 spins.\<close>

theorem lock_mutual_exclusion_witness:
  "\<exists>pcs l mpcs m. (interleave spin_step 2)\<^sup>*\<^sup>* (\<lambda>_. Out, spinlock_init 0) (pcs, l) \<and> pcs 1 = In \<and> pcs 0 = Acq True
    \<and> owner_cpu l = 1 \<and> locked l \<noteq> 0 \<and> (interleave mutex_step 2)\<^sup>*\<^sup>* (\<lambda>_. M_out, mutex_init 0) (mpcs, m) \<and> mpcs 1 = M_in
    \<and> mowner_cpu m = 1 \<and> count_word m \<noteq> 1"
proof -
  let ?s = "(interleave spin_step 2)\<^sup>*\<^sup>* (\<lambda>_. Out, spinlock_init 0)" and ?t = "(interleave mutex_step 2)\<^sup>*\<^sup>* (\<lambda>_. M_out, mutex_init 0)"
  let ?l1 = "(spinlock_init 0)\<lparr>locked := 1\<rparr>" and ?m1 = "(mutex_init 0)\<lparr>count_word := 0\<rparr>"
  let ?l = "?l1\<lparr>owner_cpu := 1, acquire_time := 7\<rparr>" and ?m = "?m1\<lparr>mowner_cpu := 1\<rparr>"
  let ?p = "(\<lambda>_. Out)(0 := Acq True, 1 := Acq True, 1 := Set_owner, 1 := Set_time, 1 := In)"
  let ?q = "(\<lambda>_. M_out)(1 := M_fast, 1 := M_owner, 1 := M_in)"
  have "?s ((\<lambda>_. Out)(0 := Acq True), spinlock_init 0)"
    by (rule interleave_next [OF rtranclp.rtrancl_refl]) (simp_all add: spin_call)
  then have "?s ((\<lambda>_. Out)(0 := Acq True, 1 := Acq True), spinlock_init 0)"
    by (rule interleave_next) (simp_all add: spin_call)
  then have "?s ((\<lambda>_. Out)(0 := Acq True, 1 := Acq True, 1 := Set_owner), ?l1)"
    by (rule interleave_next) (simp, rule spin_acquire, simp add: spin_defs spinlock_init_def)
  then have "?s ((\<lambda>_. Out)(0 := Acq True, 1 := Acq True, 1 := Set_owner, 1 := Set_time), ?l1\<lparr>owner_cpu := 1\<rparr>)"
    by (rule interleave_next) (simp, rule spin_acquire, simp add: spin_defs)
  then have s: "?s (?p, ?l)"
    by (rule interleave_next) (simp, rule spin_acquire [where tsc = 7], simp add: spin_defs)
  have "?t ((\<lambda>_. M_out)(1 := M_fast), mutex_init 0)"
    by (rule interleave_next [OF rtranclp.rtrancl_refl]) (simp_all add: mutex_call)
  then have "?t ((\<lambda>_. M_out)(1 := M_fast, 1 := M_owner), ?m1)"
    by (rule interleave_next) (simp, rule mutex_acq, simp add: mutex_defs mutex_init_def)
  then have m: "?t (?q, ?m)"
    by (rule interleave_next) (simp, rule mutex_acq, simp add: mutex_defs)
  show ?thesis using lock_mutual_exclusion [of 2 0 ?p ?l ?q ?m] s m
    by (intro exI [of _ ?p] exI [of _ ?l] exI [of _ ?q] exI [of _ ?m]) (simp add: spinlock_init_def mutex_init_def)
qed

text \<open>CPU 0 writes while CPU 1 waits to read.\<close>

theorem rwlock_exclusion_witness:
  "\<exists>pcs l. (interleave rw_step 2)\<^sup>*\<^sup>* (\<lambda>_. RW_out, rwlock_init 0) (pcs, l) \<and> pcs 0 = W_in \<and> pcs 1 = R_wait
    \<and> writer_cpu l = 0 \<and> readers l = 0"
proof -
  let ?s = "(interleave rw_step 2)\<^sup>*\<^sup>* (\<lambda>_. RW_out, rwlock_init 0)"
  let ?l1 = "(rwlock_init 0)\<lparr>writers := 1\<rparr>" and ?p = "(\<lambda>_. RW_out)(1 := R_wait, 0 := W_take, 0 := W_drain, 0 := W_owner, 0 := W_in)"
  have "?s ((\<lambda>_. RW_out)(1 := R_wait), rwlock_init 0)"
    by (rule interleave_next [OF rtranclp.rtrancl_refl]) (simp_all add: rw_read)
  then have "?s ((\<lambda>_. RW_out)(1 := R_wait, 0 := W_take), rwlock_init 0)" by (rule interleave_next) (simp_all add: rw_write)
  then have "?s ((\<lambda>_. RW_out)(1 := R_wait, 0 := W_take, 0 := W_drain), ?l1)"
    by (rule interleave_next) (simp, rule rw_wacq, simp add: rw_defs rwlock_init_def)
  then have "?s ((\<lambda>_. RW_out)(1 := R_wait, 0 := W_take, 0 := W_drain, 0 := W_owner), ?l1)"
    by (rule interleave_next) (simp, rule rw_wacq, simp add: rw_defs rwlock_init_def)
  then have s: "?s (?p, ?l1\<lparr>writer_cpu := 0\<rparr>)" by (rule interleave_next) (simp, rule rw_wacq, simp add: rw_defs)
  from rwlock_exclusion [OF s] have "writer_cpu (?l1\<lparr>writer_cpu := 0\<rparr>) = 0" by simp
  with s show ?thesis by (intro exI [of _ ?p] exI [of _ "?l1\<lparr>writer_cpu := 0\<rparr>"]) (simp add: rwlock_init_def)
qed

theorem lockdep_tracks_witness:
  "let t = \<lparr>lt_locks = [5, 9, 7] @ replicate 29 0, lt_names = replicate 32 0, lt_count = 3\<rparr>
   in trace_ok t \<and> fst (lockdep_acquire 9 0 t) = 1 \<and> held (lockdep_release 9 t) = [5, 7]"
proof -
  let ?t = "\<lparr>lt_locks = [5, 9, 7] @ replicate 29 0, lt_names = replicate 32 0, lt_count = 3\<rparr>"
  have ok: "trace_ok ?t" by (simp add: trace_ok_def)
  have "held ?t = [5, 9, 7]" by (simp add: held_def)
  then show ?thesis using ok lockdep_tracks [OF ok, of 9 0] by simp
qed

end
