(* ===== verification/RunQueue.thy ===== *)
theory RunQueue
  imports Locks ProcessTable "HOL-Library.Monad_Syntax" "HOL-Library.Signed_Division"
begin

text \<open>
  The multiprocessor scheduler: \<open>kernel/scheduler/sched.c\<close>.

  Every CPU has a run queue with one circular list per priority, linked through the \<open>next\<close> pointers of
  the processes, and a bit mask of the lists in use.  The functions run under the lock of their queue, so
  they are functions of the state here; an acquisition of a lock that is taken does not come back, and
  neither does a walk that follows a null pointer or a cycle (\<open>None\<close>).  The functions that have the name of one in \<open>scheduler.c\<close>
  are called \<open>rq_tick\<close>, \<open>rq_yield\<close>, \<open>rq_sleep\<close> and \<open>rq_wake\<close>.
\<close>

section \<open>State\<close>

abbreviation MAX_CPUS :: nat where "MAX_CPUS \<equiv> 8"
abbreviation MAX_PRIORITY :: nat where "MAX_PRIORITY \<equiv> 140"
abbreviation DEFAULT_PRIORITY :: int where "DEFAULT_PRIORITY \<equiv> 120"
abbreviation TIMESLICE_DEFAULT :: int where "TIMESLICE_DEFAULT \<equiv> 5"

record runqueue =
  rq_lock :: spinlock
  active_queue :: "nat option list"
  expired_queue :: "nat option list"
  active_prio_bitmap :: u32
  expired_prio_bitmap :: u32
  rq_current :: "nat option"
  rq_idle :: "nat option"
  sched_count :: u64
  idle_time :: u64
  load_weight :: u64
  rq_cpu :: int

text \<open>\<open>tsc k\<close> is the value that the \<open>k\<close>-th read of the time stamp counter returns.\<close>

record smp_state = proc_state +
  next_of :: "nat \<Rightarrow> nat option"
  runqueues :: "runqueue list"
  num_cpus :: nat
  tsc_freq :: u64
  tsc :: "nat \<Rightarrow> u64"
  tsc_reads :: nat
  lock_traces :: "lock_trace list"

definition upd_rq :: "nat \<Rightarrow> (runqueue \<Rightarrow> runqueue) \<Rightarrow> 'a smp_state_scheme \<Rightarrow> 'a smp_state_scheme" where
  "upd_rq c f s = s\<lparr>runqueues := (runqueues s)[c := f (runqueues s ! c)]\<rparr>"

abbreviation rq_of :: "'a smp_state_scheme \<Rightarrow> nat \<Rightarrow> runqueue" where
  "rq_of s c \<equiv> runqueues s ! c"

definition rdtsc :: "'a smp_state_scheme \<Rightarrow> u64 \<times> 'a smp_state_scheme" where
  "rdtsc s = (tsc s (tsc_reads s), s\<lparr>tsc_reads := tsc_reads s + 1\<rparr>)"

text \<open>An acquisition by CPU \<open>me\<close> of the lock of queue \<open>c\<close>, and its release, run to their end.\<close>

definition lock_rq :: "nat \<Rightarrow> nat \<Rightarrow> 'a smp_state_scheme \<Rightarrow> 'a smp_state_scheme option" where
  "lock_rq me c s =
     (if locked (rq_lock (rq_of s c)) \<noteq> 0 then None else
      let (t, s) = rdtsc s
      in Some (upd_rq c (\<lambda>q. q\<lparr>rq_lock := (rq_lock q)\<lparr>locked := 1, owner_cpu := int me, acquire_time := t\<rparr>\<rparr>) s))"

definition unlock_rq :: "nat \<Rightarrow> 'a smp_state_scheme \<Rightarrow> 'a smp_state_scheme" where
  "unlock_rq c s = upd_rq c (\<lambda>q. q\<lparr>rq_lock := (rq_lock q)\<lparr>owner_cpu := -1, acquire_time := 0, locked := 0\<rparr>\<rparr>) s"

section \<open>The lists\<close>

text \<open>The processor shifts a 32-bit value by the count modulo 32.\<close>

definition prio_bit :: "nat \<Rightarrow> u32" where
  "prio_bit prio = push_bit (prio mod 32) 1"

definition find_first_bit :: "u32 \<Rightarrow> nat option" where
  "find_first_bit b = find (\<lambda>i. bit b i) [0..<32]"

definition clamp_prio :: "int \<Rightarrow> nat" where
  "clamp_prio prio = (if prio < 0 then 0 else if prio \<ge> int MAX_PRIORITY then MAX_PRIORITY - 1 else nat prio)"

definition enqueue_task :: "nat \<Rightarrow> nat \<Rightarrow> 'a smp_state_scheme \<Rightarrow> 'a smp_state_scheme" where
  "enqueue_task c p s =
     (let prio = clamp_prio (priority (proc_of s p));
          s = upd_proc p (\<lambda>x. x\<lparr>pstate := PROC_READY\<rparr>) s;
          s = (case active_queue (rq_of s c) ! prio of
                 None \<Rightarrow> upd_rq c (\<lambda>q. q\<lparr>active_queue := (active_queue q)[prio := Some p],
                           active_prio_bitmap := active_prio_bitmap q OR prio_bit prio\<rparr>) (s\<lparr>next_of := (next_of s)(p := Some p)\<rparr>)
               | Some h \<Rightarrow> s\<lparr>next_of := (next_of s)(p := next_of s h, h := Some p)\<rparr>)
      in upd_rq c (\<lambda>q. q\<lparr>load_weight := load_weight q + 1\<rparr>) s)"

text \<open>The walk through the list of \<open>h\<close> in search of \<open>p\<close>, from \<open>cur\<close>.\<close>

partial_function (option) unlink_task :: "nat \<Rightarrow> nat \<Rightarrow> nat \<Rightarrow> (nat \<Rightarrow> nat option) \<Rightarrow> (nat \<Rightarrow> nat option) option" where
  "unlink_task h p cur nx =
     (if nx cur = Some h then Some nx
      else if nx cur = Some p then Some (nx(cur := nx p))
      else case nx cur of None \<Rightarrow> None | Some k \<Rightarrow> unlink_task h p k nx)"

definition dequeue_task :: "nat \<Rightarrow> nat \<Rightarrow> 'a smp_state_scheme \<Rightarrow> 'a smp_state_scheme option" where
  "dequeue_task c p s =
     (let pr = priority (proc_of s p); prio = nat pr in
      if pr < 0 \<or> pr \<ge> int MAX_PRIORITY then Some s else
      case active_queue (rq_of s c) ! prio of None \<Rightarrow> Some s
      | Some h \<Rightarrow> map_option
          (\<lambda>s. upd_rq c (\<lambda>q. q\<lparr>load_weight := load_weight q - 1\<rparr>) (s\<lparr>next_of := (next_of s)(p := None)\<rparr>))
          (if next_of s h = Some h then
             Some (upd_rq c (\<lambda>q. q\<lparr>active_queue := (active_queue q)[prio := None],
               active_prio_bitmap := active_prio_bitmap q AND NOT (prio_bit prio)\<rparr>) s)
           else if h = p then
             Some (upd_rq c (\<lambda>q. q\<lparr>active_queue := (active_queue q)[prio := next_of s h]\<rparr>)
               (s\<lparr>next_of := (next_of s)(h := next_of s p)\<rparr>))
           else map_option (\<lambda>nx. s\<lparr>next_of := nx\<rparr>) (unlink_task h p h (next_of s))))"

definition swap_queues :: "runqueue \<Rightarrow> runqueue" where
  "swap_queues q = q\<lparr>active_queue := expired_queue q, expired_queue := replicate MAX_PRIORITY None,
     active_prio_bitmap := expired_prio_bitmap q, expired_prio_bitmap := 0\<rparr>"

text \<open>The head of the first list in use.\<close>

definition first_task :: "runqueue \<Rightarrow> (nat \<times> nat) option" where
  "first_task q =
     (case find_first_bit (active_prio_bitmap q) of None \<Rightarrow> None
      | Some prio \<Rightarrow> map_option (Pair prio) (active_queue q ! prio))"

definition sched_pick_next :: "nat \<Rightarrow> 'a smp_state_scheme \<Rightarrow> nat option \<times> 'a smp_state_scheme" where
  "sched_pick_next c s =
     (case first_task (rq_of s c) of
        Some (prio, p) \<Rightarrow> (Some p, if next_of s p \<noteq> Some p
          then upd_rq c (\<lambda>q. q\<lparr>active_queue := (active_queue q)[prio := next_of s p]\<rparr>) s else s)
      | None \<Rightarrow>
          if expired_prio_bitmap (rq_of s c) = 0 then (rq_idle (rq_of s c), s) else
          let s = upd_rq c swap_queues s in
          case first_task (rq_of s c) of
            Some (prio, p) \<Rightarrow> (Some p, upd_rq c (\<lambda>q. q\<lparr>active_queue := (active_queue q)[prio := next_of s p]\<rparr>) s)
          | None \<Rightarrow> (rq_idle (rq_of s c), s))"

section \<open>Switching\<close>

definition sched_context_switch :: "nat \<Rightarrow> nat \<Rightarrow> nat \<Rightarrow> 'a smp_state_scheme \<Rightarrow> 'a smp_state_scheme" where
  "sched_context_switch me from to s =
     (if from = to then s else
      let s = (if pstate (proc_of s from) = PROC_RUNNING
               then enqueue_task me from (upd_proc from (\<lambda>x. x\<lparr>pstate := PROC_READY\<rparr>) s) else s);
          s = upd_rq me (\<lambda>q. q\<lparr>rq_current := Some to\<rparr>) (upd_proc to (\<lambda>x. x\<lparr>pstate := PROC_RUNNING\<rparr>) s);
          s = (if kstack (proc_of s to) \<noteq> 0 then gdt_set_kernel_stack (kstack (proc_of s to) + KSTACK_SIZE) s else s);
          s = upd_rq me (\<lambda>q. q\<lparr>sched_count := sched_count q + 1\<rparr>) s
      in arch_switch from (rsp (proc_of s to)) (pml4 (proc_of s to)) s)"

text \<open>The insertion of a process whose time is up into the expired list of its priority.\<close>

definition expire_task :: "nat \<Rightarrow> nat \<Rightarrow> 'a smp_state_scheme \<Rightarrow> 'a smp_state_scheme" where
  "expire_task c p s =
     (let prio = clamp_prio (priority (proc_of s p)) in
      case expired_queue (rq_of s c) ! prio of
        None \<Rightarrow> upd_rq c (\<lambda>q. q\<lparr>expired_queue := (expired_queue q)[prio := Some p],
                  expired_prio_bitmap := expired_prio_bitmap q OR prio_bit prio\<rparr>) (s\<lparr>next_of := (next_of s)(p := Some p)\<rparr>)
      | Some h \<Rightarrow> s\<lparr>next_of := (next_of s)(p := next_of s h, h := Some p)\<rparr>)"

definition rq_tick :: "nat \<Rightarrow> 'a smp_state_scheme \<Rightarrow> 'a smp_state_scheme option" where
  "rq_tick me s = do {
     s \<leftarrow> lock_rq me me s;
     case rq_current (rq_of s me) of None \<Rightarrow> Some (unlock_rq me s)
     | Some cur \<Rightarrow>
         if rq_idle (rq_of s me) = Some cur then Some (unlock_rq me s) else
         let (now, s) = rdtsc s; s = upd_proc cur (\<lambda>x. x\<lparr>timeslice := timeslice x - 1\<rparr>) s in
         if timeslice (proc_of s cur) > 0 then Some (unlock_rq me s) else
         let (nx, s) = sched_pick_next me s in
         case nx of
           Some t \<Rightarrow>
             if t \<noteq> cur \<and> priority (proc_of s t) > priority (proc_of s cur) then do {
               s \<leftarrow> dequeue_task me cur s;
               let s = expire_task me cur s;
               let s = upd_proc cur (\<lambda>x. x\<lparr>timeslice := TIMESLICE_DEFAULT + priority x sdiv 10\<rparr>) s;
               Some (sched_context_switch me cur t (unlock_rq me s))}
             else Some (unlock_rq me (upd_proc cur (\<lambda>x. x\<lparr>timeslice := TIMESLICE_DEFAULT\<rparr>) s))
         | None \<Rightarrow> Some (unlock_rq me (upd_proc cur (\<lambda>x. x\<lparr>timeslice := TIMESLICE_DEFAULT\<rparr>) s))}"

definition rq_yield :: "nat \<Rightarrow> 'a smp_state_scheme \<Rightarrow> 'a smp_state_scheme option" where
  "rq_yield me s = do {
     s \<leftarrow> lock_rq me me s;
     case rq_current (rq_of s me) of None \<Rightarrow> Some (unlock_rq me s)
     | Some cur \<Rightarrow>
         if rq_idle (rq_of s me) = Some cur then Some (unlock_rq me s) else do {
           s \<leftarrow> dequeue_task me cur s;
           let (nx, s) = sched_pick_next me (enqueue_task me cur s);
           let s = unlock_rq me s;
           case nx of Some t \<Rightarrow> Some (if t \<noteq> cur then sched_context_switch me cur t s else s) | None \<Rightarrow> Some s}}"

definition rq_sleep :: "nat \<Rightarrow> u64 \<Rightarrow> 'a smp_state_scheme \<Rightarrow> 'a smp_state_scheme option" where
  "rq_sleep me ms s = do {
     s \<leftarrow> lock_rq me me s;
     case rq_current (rq_of s me) of None \<Rightarrow> Some (unlock_rq me s)
     | Some cur \<Rightarrow> do {
         let (t, s) = rdtsc s;
         let s = upd_proc cur (\<lambda>x. x\<lparr>wake_ticks := t + tsc_freq s * ms div 1000, pstate := PROC_SLEEPING\<rparr>) s;
         s \<leftarrow> dequeue_task me cur s;
         rq_yield me (unlock_rq me s)}}"

definition rq_wake :: "nat \<Rightarrow> nat \<Rightarrow> 'a smp_state_scheme \<Rightarrow> 'a smp_state_scheme option" where
  "rq_wake me p s =
     (let target = affinity (proc_of s p) AND (push_bit (num_cpus s) 1 - 1) in
      case find (\<lambda>c. bit target c) [0..<num_cpus s] of None \<Rightarrow> Some s
      | Some c \<Rightarrow> do {
          s \<leftarrow> lock_rq me c s;
          let s = (if pstate (proc_of s p) \<in> {PROC_SLEEPING, PROC_WAITING}
                   then enqueue_task c p (upd_proc p (\<lambda>x. x\<lparr>pstate := PROC_READY\<rparr>) s) else s);
          Some (unlock_rq c s)})"

definition sched_enqueue :: "nat \<Rightarrow> nat \<Rightarrow> 'a smp_state_scheme \<Rightarrow> 'a smp_state_scheme option" where
  "sched_enqueue me p s = do { s \<leftarrow> lock_rq me me s; Some (unlock_rq me (enqueue_task me p s)) }"

definition sched_dequeue :: "nat \<Rightarrow> nat \<Rightarrow> 'a smp_state_scheme \<Rightarrow> 'a smp_state_scheme option" where
  "sched_dequeue me p s = do { s \<leftarrow> lock_rq me me s; s \<leftarrow> dequeue_task me p s; Some (unlock_rq me s) }"

section \<open>Balancing\<close>

text \<open>The priorities are tried from the lowest, 139, to 0.\<close>

definition sched_steal_task :: "nat \<Rightarrow> nat \<Rightarrow> 'a smp_state_scheme \<Rightarrow> (nat option \<times> 'a smp_state_scheme) option" where
  "sched_steal_task me c s =
     (if c \<ge> num_cpus s then Some (None, s) else do {
        s \<leftarrow> lock_rq me c s;
        let q = rq_of s c;
        case find (\<lambda>prio. active_prio_bitmap q AND prio_bit prio \<noteq> 0 \<and> active_queue q ! prio \<noteq> None
            \<and> active_queue q ! prio \<noteq> rq_idle q) (rev [0..<MAX_PRIORITY]) of
          None \<Rightarrow> Some (None, unlock_rq c s)
        | Some prio \<Rightarrow> do {
            let victim = the (active_queue q ! prio);
            s \<leftarrow> dequeue_task c victim s;
            Some (Some victim, unlock_rq c s)}})"

definition balance_pair :: "nat \<Rightarrow> nat \<times> nat \<Rightarrow> 'a smp_state_scheme \<Rightarrow> 'a smp_state_scheme option" where
  "balance_pair me ft s =
     (case ft of (f, t) \<Rightarrow>
      if f = t then Some s else
      if load_weight (rq_of s f) \<ge> load_weight (rq_of s t) + 2 then do {
        (v, s) \<leftarrow> sched_steal_task me f s;
        case v of None \<Rightarrow> Some s
        | Some p \<Rightarrow> do { s \<leftarrow> lock_rq me t s; Some (unlock_rq t (enqueue_task t p s)) }}
      else Some s)"

definition sched_balance_load :: "nat \<Rightarrow> 'a smp_state_scheme \<Rightarrow> 'a smp_state_scheme option" where
  "sched_balance_load me s =
     fold (\<lambda>ft r. Option.bind r (balance_pair me ft)) (List.product [0..<num_cpus s] [0..<num_cpus s]) (Some s)"

section \<open>Priorities and affinity\<close>

definition sched_set_priority :: "nat \<Rightarrow> int \<Rightarrow> 'a proc_state_scheme \<Rightarrow> 'a proc_state_scheme" where
  "sched_set_priority p prio s =
     (let prio = int (clamp_prio prio) in upd_proc p (\<lambda>x. x\<lparr>priority := prio, timeslice := TIMESLICE_DEFAULT + prio div 10\<rparr>) s)"

definition sched_get_priority :: "nat \<Rightarrow> 'a proc_state_scheme \<Rightarrow> int" where
  "sched_get_priority p s = priority (proc_of s p)"

definition sched_recalculate_priority :: "nat \<Rightarrow> 'a proc_state_scheme \<Rightarrow> 'a proc_state_scheme" where
  "sched_recalculate_priority p s =
     (let b = sint (ucast (sleep_avg (proc_of s p) div 100) :: u32);
          bonus = (if sleep_avg (proc_of s p) > 0 then (if b > 10 then 10 else b) else 0)
      in upd_proc p (\<lambda>x. x\<lparr>priority := int (clamp_prio (DEFAULT_PRIORITY - bonus))\<rparr>) s)"

definition sched_set_affinity :: "nat \<Rightarrow> u64 \<Rightarrow> 'a smp_state_scheme \<Rightarrow> 'a smp_state_scheme" where
  "sched_set_affinity p cpu_mask s =
     (let a = cpu_mask AND (push_bit (num_cpus s) 1 - 1) in upd_proc p (\<lambda>x. x\<lparr>affinity := (if a = 0 then 1 else a)\<rparr>) s)"

definition sched_get_affinity :: "nat \<Rightarrow> 'a proc_state_scheme \<Rightarrow> u64" where
  "sched_get_affinity p s = affinity (proc_of s p)"

section \<open>Initialisation\<close>

definition sched_cpu_init :: "u64 \<Rightarrow> nat \<Rightarrow> 'a smp_state_scheme \<Rightarrow> 'a smp_state_scheme" where
  "sched_cpu_init name c s =
     (if c \<ge> MAX_CPUS then s else
      upd_rq c (\<lambda>q. \<lparr>rq_lock = spinlock_init name, active_queue = replicate MAX_PRIORITY None,
        expired_queue = replicate MAX_PRIORITY None, active_prio_bitmap = 0, expired_prio_bitmap = 0,
        rq_current = None, rq_idle = None, sched_count = 0, idle_time = 0, load_weight = 0, rq_cpu = int c\<rparr>) s)"

definition sched_preempt_init :: "u64 \<Rightarrow> 'a smp_state_scheme \<Rightarrow> 'a smp_state_scheme" where
  "sched_preempt_init name s =
     fold (sched_cpu_init name) [0..<num_cpus s] (s\<lparr>lock_traces := lockdep_init (lock_traces s)\<rparr>)"

section \<open>Circular lists\<close>

text \<open>\<open>path nx xs z\<close>: the pointers lead through \<open>xs\<close> and then to \<open>z\<close>.\<close>

fun path :: "(nat \<Rightarrow> nat option) \<Rightarrow> nat list \<Rightarrow> nat \<Rightarrow> bool" where
  "path nx [] z \<longleftrightarrow> True"
| "path nx [x] z \<longleftrightarrow> nx x = Some z"
| "path nx (x # y # ys) z \<longleftrightarrow> nx x = Some y \<and> path nx (y # ys) z"

definition ring :: "(nat \<Rightarrow> nat option) \<Rightarrow> nat list \<Rightarrow> bool" where
  "ring nx xs \<longleftrightarrow> xs \<noteq> [] \<and> distinct xs \<and> path nx xs (hd xs)"

lemma path_upd [simp]: "x \<notin> set xs \<Longrightarrow> path (nx(x := v)) xs z = path nx xs z"
  by (induction nx xs z rule: path.induct) auto

lemma path_cong: "(\<And>x. x \<in> set xs \<Longrightarrow> nx x = ny x) \<Longrightarrow> path nx xs z = path ny xs z"
  by (induction nx xs z rule: path.induct) auto

lemma ring_cong: "(\<And>x. x \<in> set xs \<Longrightarrow> nx x = ny x) \<Longrightarrow> ring nx xs = ring ny xs"
  unfolding ring_def by (intro conj_cong refl path_cong)

lemma path_snoc: "path nx (xs @ [x]) z \<longleftrightarrow> path nx xs x \<and> nx x = Some z"
  by (induction nx xs x rule: path.induct) auto

lemma path_Cons: "path nx (x # xs) z \<longleftrightarrow> nx x = Some (case xs of [] \<Rightarrow> z | y # _ \<Rightarrow> y) \<and> path nx xs z"
  by (cases xs) auto

lemma ring_insert:
  assumes "ring nx (h # t)" "p \<notin> set (h # t)"
  shows "ring (nx(p := nx h, h := Some p)) (h # p # t)"
  using assms by (auto simp: ring_def path_Cons)

lemma ring_rotate: "ring nx xs \<Longrightarrow> ring nx (rotate1 xs) \<and> nx (hd xs) = Some (hd (rotate1 xs))"
  by (cases xs; cases "tl xs") (auto simp: ring_def path_snoc path_Cons split: list.split)

lemma ring_single: "ring nx (h # t) \<Longrightarrow> nx h = Some h \<longleftrightarrow> t = []"
  by (cases t) (auto simp: ring_def)

lemma unlink_path:
  assumes "path nx (cur # l) h" "distinct (cur # l)" "h \<notin> set l" "p \<in> set l"
  shows "\<exists>nx'. unlink_task h p cur nx = Some nx' \<and> path nx' (cur # remove1 p l) h \<and> (\<forall>x. x \<notin> set (cur # l) \<longrightarrow> nx' x = nx x)"
  using assms
proof (induction l arbitrary: cur)
  case (Cons y l)
  have ny: "nx cur = Some y" "path nx (y # l) h" using Cons.prems(1) by simp_all
  show ?case
  proof (cases "y = p")
    case True
    then have "unlink_task h p cur nx = Some (nx(cur := nx p))" using ny Cons.prems(3) unlink_task.simps [of h p cur nx] by simp
    moreover have "path (nx(cur := nx p)) (cur # l) h" using ny(2) Cons.prems(2) True by (auto simp: path_Cons)
    ultimately show ?thesis using True by auto
  next
    case False
    then have u: "unlink_task h p cur nx = unlink_task h p y nx" using ny Cons.prems(3) unlink_task.simps [of h p cur nx] by simp
    from Cons.IH [OF ny(2)] Cons.prems False obtain nx' where
      nx': "unlink_task h p y nx = Some nx'" "path nx' (y # remove1 p l) h" "\<forall>x. x \<notin> set (y # l) \<longrightarrow> nx' x = nx x" by auto
    have "nx' cur = Some y" using nx'(3) ny(1) Cons.prems(2) by simp
    then show ?thesis using nx' u False by auto
  qed
qed simp

section \<open>The run queue as lists\<close>

text \<open>
  \<open>Q i\<close> is the list of the processes queued at priority \<open>i\<close>.  The bit mask has 32 bits, so the relation
  holds of queues whose priorities are below 32.
\<close>

definition head_of :: "nat list \<Rightarrow> nat option" where
  "head_of xs = (case xs of [] \<Rightarrow> None | h # _ \<Rightarrow> Some h)"

definition rq_ok :: "(nat \<Rightarrow> nat list) \<Rightarrow> nat \<Rightarrow> 'a smp_state_scheme \<Rightarrow> bool" where
  "rq_ok Q c s \<longleftrightarrow> c < length (runqueues s) \<and> length (active_queue (rq_of s c)) = MAX_PRIORITY
     \<and> (\<forall>i < MAX_PRIORITY. active_queue (rq_of s c) ! i = head_of (Q i))
     \<and> (\<forall>i. Q i \<noteq> [] \<longrightarrow> i < 32 \<and> ring (next_of s) (Q i))
     \<and> (\<forall>i < 32. bit (active_prio_bitmap (rq_of s c)) i \<longleftrightarrow> Q i \<noteq> [])
     \<and> (\<forall>i j p. p \<in> set (Q i) \<longrightarrow> p \<in> set (Q j) \<longrightarrow> i = j)"

lemma rq_okD:
  assumes "rq_ok Q c s"
  shows "c < length (runqueues s)" "length (active_queue (rq_of s c)) = MAX_PRIORITY"
    "i < MAX_PRIORITY \<Longrightarrow> active_queue (rq_of s c) ! i = head_of (Q i)"
    "Q i \<noteq> [] \<Longrightarrow> i < 32" "Q i \<noteq> [] \<Longrightarrow> ring (next_of s) (Q i)"
    "i < 32 \<Longrightarrow> bit (active_prio_bitmap (rq_of s c)) i \<longleftrightarrow> Q i \<noteq> []"
    "p \<in> set (Q i) \<Longrightarrow> p \<in> set (Q j) \<Longrightarrow> i = j"
  using assms unfolding rq_ok_def by blast+

text \<open>A change of one list: the other lists keep their pointers.\<close>

lemma rq_okI:
  assumes ok: "rq_ok Q c s" and i: "i < 32"
    and len: "length (runqueues s') = length (runqueues s)"
    and act: "active_queue (rq_of s' c) = (active_queue (rq_of s c))[i := head_of xs]"
    and ring: "xs \<noteq> [] \<Longrightarrow> ring (next_of s') xs"
    and others: "\<And>j x. j \<noteq> i \<Longrightarrow> x \<in> set (Q j) \<Longrightarrow> next_of s' x = next_of s x \<and> x \<notin> set xs"
    and bm: "\<And>j. j < 32 \<Longrightarrow> bit (active_prio_bitmap (rq_of s' c)) j \<longleftrightarrow> (if j = i then xs \<noteq> [] else bit (active_prio_bitmap (rq_of s c)) j)"
  shows "rq_ok (Q(i := xs)) c s'"
proof -
  note D = rq_okD [OF ok]
  have "ring (next_of s') (Q j)" if "j \<noteq> i" "Q j \<noteq> []" for j
  proof -
    have "ring (next_of s') (Q j) = ring (next_of s) (Q j)" by (rule ring_cong) (use others [OF that(1)] in blast)
    then show ?thesis using D(5) [OF that(2)] by blast
  qed
  then have r: "\<forall>j. (Q(i := xs)) j \<noteq> [] \<longrightarrow> j < 32 \<and> ring (next_of s') ((Q(i := xs)) j)" using ring i D(4) unfolding fun_upd_apply by (metis (full_types))
  have "\<forall>j < MAX_PRIORITY. active_queue (rq_of s' c) ! j = head_of ((Q(i := xs)) j)"
    using D(2,3) i act by (simp add: nth_list_update)
  moreover have "j = k" if "p \<in> set ((Q(i := xs)) j)" "p \<in> set ((Q(i := xs)) k)" for j k p
    using that others [of j p] others [of k p] D(7) [of p j k] by (cases "j = i"; cases "k = i") auto
  moreover have "\<forall>j < 32. bit (active_prio_bitmap (rq_of s' c)) j \<longleftrightarrow> (Q(i := xs)) j \<noteq> []" using bm D(6) by simp
  moreover have "c < length (runqueues s')" "length (active_queue (rq_of s' c)) = MAX_PRIORITY" using D(1,2) len act by simp_all
  ultimately show ?thesis using r unfolding rq_ok_def by blast
qed

lemma upd_rq_simps [simp]:
  "length (runqueues (upd_rq c f s)) = length (runqueues s)" "next_of (upd_rq c f s) = next_of s"
  "proc_table (upd_rq c f s) = proc_table s" "num_cpus (upd_rq c f s) = num_cpus s"
  "c < length (runqueues s) \<Longrightarrow> rq_of (upd_rq c f s) c = f (rq_of s c)"
  "next_of (upd_proc p g s) = next_of s" "runqueues (upd_proc p g s) = runqueues s"
  by (simp_all add: upd_rq_def upd_proc_def)

lemma prio_bit_bit: "i < 32 \<Longrightarrow> bit (prio_bit i) j \<longleftrightarrow> j = i"
  by (auto simp: prio_bit_def bit_simps bit_1_iff)

lemma enqueue_priority [simp]: "priority (proc_of (enqueue_task c p s) k) = priority (proc_of s k)"
  by (cases "k < length (proc_table s)"; cases "k = p")
    (auto simp: enqueue_task_def Let_def upd_proc_def list_update_beyond split: option.split)

text \<open>A new process goes behind the head of its list.\<close>

definition insert_second :: "nat \<Rightarrow> nat list \<Rightarrow> nat list" where
  "insert_second p xs = (case xs of [] \<Rightarrow> [p] | h # t \<Rightarrow> h # p # t)"

lemma enqueue_ok:
  assumes ok: "rq_ok Q c s" and pr: "priority (proc_of s p) = int i" "i < 32" and new: "\<And>j. p \<notin> set (Q j)"
  shows "rq_ok (Q(i := insert_second p (Q i))) c (enqueue_task c p s)"
proof -
  note D = rq_okD [OF ok]
  have cl: "clamp_prio (priority (proc_of s p)) = i" using pr by (simp add: clamp_prio_def)
  show ?thesis
  proof (cases "Q i")
    case Nil
    then have a: "active_queue (rq_of s c) ! i = None" using D(3) [of i] pr(2) by (simp add: head_of_def)
    show ?thesis
      by (rule rq_okI [OF ok pr(2)])
        (use new D(1,6) in \<open>auto simp: enqueue_task_def Let_def cl a Nil insert_second_def head_of_def ring_def bit_or_iff prio_bit_bit pr(2)\<close>)
  next
    case (Cons h t)
    then have a: "active_queue (rq_of s c) ! i = Some h" using D(3) [of i] pr(2) by (simp add: head_of_def)
    have r: "ring ((next_of s)(p := next_of s h, h := Some p)) (h # p # t)"
      using D(5) [of i] new [of i] Cons by (intro ring_insert) auto
    have o: "x \<noteq> h \<and> x \<noteq> p \<and> x \<notin> set t" if "j \<noteq> i" "x \<in> set (Q j)" for j x
      using that new D(7) [of x j i] Cons by auto
    have l: "(active_queue (rq_of s c))[i := Some h] = active_queue (rq_of s c)" by (rule list_update_same_conv [THEN iffD2]) (use a D(2) pr(2) in simp_all)
    show ?thesis
      by (rule rq_okI [OF ok pr(2)])
        (use r o D(1,6) pr(2) in \<open>auto simp: enqueue_task_def Let_def cl a Cons insert_second_def head_of_def l\<close>)
  qed
qed

lemma first_task_ok:
  assumes ok: "rq_ok Q c s" and i: "Q i \<noteq> []" "\<forall>j < i. Q j = []"
  shows "first_task (rq_of s c) = Some (i, hd (Q i))"
proof -
  note D = rq_okD [OF ok]
  have i32: "i < 32" using D(4) [OF i(1)] .
  have "find_first_bit (active_prio_bitmap (rq_of s c)) = Some i"
    using i i32 D(6) by (simp add: find_first_bit_def find_upt_Some del: upt_rec_numeral)
  then show ?thesis using D(3) [of i] i(1) i32 by (cases "Q i") (simp_all add: first_task_def head_of_def)
qed

lemma pick_ok:
  assumes ok: "rq_ok Q c s" and i: "Q i \<noteq> []" "\<forall>j < i. Q j = []"
  shows "\<exists>s'. sched_pick_next c s = (Some (hd (Q i)), s') \<and> rq_ok (Q(i := rotate1 (Q i))) c s'"
proof -
  note D = rq_okD [OF ok]
  note f = first_task_ok [OF ok i]
  have i32: "i < 32" using D(4) [OF i(1)] .
  obtain h t where Q: "Q i = h # t" using i(1) by (cases "Q i") auto
  have r: "ring (next_of s) (h # t)" using D(5) [OF i(1)] Q by simp
  show ?thesis
  proof (cases "t = []")
    case True
    then have "next_of s h = Some h" using ring_single [OF r] by simp
    then have "sched_pick_next c s = (Some h, s)" using f Q by (simp add: sched_pick_next_def)
    moreover have "Q(i := rotate1 (Q i)) = Q" using Q True by (simp add: fun_upd_idem)
    ultimately show ?thesis using ok Q by simp
  next
    case False
    let ?s = "upd_rq c (\<lambda>q. q\<lparr>active_queue := (active_queue q)[i := next_of s h]\<rparr>) s"
    have n: "next_of s h \<noteq> Some h" using ring_single [OF r] False by simp
    note rot = ring_rotate [OF r]
    have "rq_ok (Q(i := rotate1 (h # t))) c ?s"
    proof (rule rq_okI [OF ok i32])
      show "active_queue (rq_of ?s c) = (active_queue (rq_of s c))[i := head_of (rotate1 (h # t))]"
        using D(1) rot False by (cases t) (simp_all add: head_of_def)
      show "ring (next_of ?s) (rotate1 (h # t))" using rot by simp
      show "next_of ?s x = next_of s x \<and> x \<notin> set (rotate1 (h # t))" if "j \<noteq> i" "x \<in> set (Q j)" for j x
        using D(7) [OF that(2), of i] that(1) Q by auto
      show "bit (active_prio_bitmap (rq_of ?s c)) j \<longleftrightarrow> (if j = i then rotate1 (h # t) \<noteq> [] else bit (active_prio_bitmap (rq_of s c)) j)" if "j < 32" for j
        using D(1) D(6) [OF that] Q by simp
    qed simp
    moreover have "sched_pick_next c s = (Some h, ?s)" using f Q n by (simp add: sched_pick_next_def)
    ultimately show ?thesis using Q by auto
  qed
qed

lemma dequeue_ok:
  assumes ok: "rq_ok Q c s" and pr: "priority (proc_of s p) = int i" and p: "p \<in> set (Q i)" "Q i = [p] \<or> p \<noteq> hd (Q i)"
  shows "\<exists>s'. dequeue_task c p s = Some s' \<and> rq_ok (Q(i := remove1 p (Q i))) c s' \<and> next_of s' p = None"
proof -
  note D = rq_okD [OF ok]
  have ne: "Q i \<noteq> []" using p(1) by auto
  have i32: "i < 32" using D(4) [OF ne] .
  obtain h t where Q: "Q i = h # t" using ne by (cases "Q i") auto
  have r: "ring (next_of s) (h # t)" using D(5) [OF ne] Q by simp
  have a: "active_queue (rq_of s c) ! i = Some h" using D(3) [of i] i32 Q by (simp add: head_of_def)
  have pr': "\<not> (priority (proc_of s p) < 0 \<or> priority (proc_of s p) \<ge> int MAX_PRIORITY)" "nat (priority (proc_of s p)) = i"
    using pr i32 by simp_all
  have apart: "x \<notin> set (h # t)" if "j \<noteq> i" "x \<in> set (Q j)" for j x using D(7) [OF that(2), of i] that(1) Q by auto
  show ?thesis
  proof (cases "t = []")
    case True
    then have h: "h = p" "next_of s h = Some h" using p(1) Q ring_single [OF r] by auto
    let ?s1 = "upd_rq c (\<lambda>q. q\<lparr>active_queue := (active_queue q)[i := None], active_prio_bitmap := active_prio_bitmap q AND NOT (prio_bit i)\<rparr>) s"
    let ?s = "upd_rq c (\<lambda>q. q\<lparr>load_weight := load_weight q - 1\<rparr>) (?s1\<lparr>next_of := (next_of s)(p := None)\<rparr>)"
    have d: "dequeue_task c p s = Some ?s" using a h pr' by (simp add: dequeue_task_def Let_def)
    have "rq_ok (Q(i := [])) c ?s"
      by (rule rq_okI [OF ok i32]) (use D(1,6) apart h(1) in \<open>auto simp: head_of_def bit_and_iff bit_not_iff prio_bit_bit i32\<close>)
    then show ?thesis using d True Q h(1) by auto
  next
    case False
    then have hp: "h \<noteq> p" "p \<in> set t" using p Q by auto
    have n: "next_of s h \<noteq> Some h" using ring_single [OF r] False by simp
    have pt: "path (next_of s) (h # t) h" "distinct (h # t)" using r by (simp_all add: ring_def)
    from unlink_path [OF pt(1,2) _ hp(2)] pt(2) obtain nx where nx: "unlink_task h p h (next_of s) = Some nx"
      "path nx (h # remove1 p t) h" "\<forall>x. x \<notin> set (h # t) \<longrightarrow> nx x = next_of s x" by auto
    let ?s = "upd_rq c (\<lambda>q. q\<lparr>load_weight := load_weight q - 1\<rparr>) (s\<lparr>next_of := nx(p := None)\<rparr>)"
    have d: "dequeue_task c p s = Some ?s" using a n hp(1) nx(1) pr' by (simp add: dequeue_task_def Let_def)
    have l: "(active_queue (rq_of s c))[i := Some h] = active_queue (rq_of s c)"
      by (rule list_update_same_conv [THEN iffD2]) (use a D(2) i32 in simp_all)
    have "p \<notin> set (h # remove1 p t)" using hp pt(2) by simp
    then have "ring (nx(p := None)) (h # remove1 p t)" using nx(2) pt(2) set_remove1_subset [of p t] by (auto simp: ring_def)
    then have "rq_ok (Q(i := h # remove1 p t)) c ?s"
      by (intro rq_okI [OF ok i32])
        (use D(1,6) apart nx(3) hp Q l i32 set_remove1_subset [of p t] in \<open>auto simp: head_of_def\<close>)
    then show ?thesis using d Q hp(1) by auto
  qed
qed

section \<open>Round robin\<close>

fun picks :: "('s \<Rightarrow> nat option \<times> 's) \<Rightarrow> nat \<Rightarrow> 's \<Rightarrow> nat option list" where
  "picks pick 0 s = []"
| "picks pick (Suc n) s = (let (r, s') = pick s in r # picks pick n s')"

text \<open>What the scheduler relies on: a pick returns the head of the first list in use and rotates that list.\<close>

locale task_queue =
  fixes rep :: "(nat \<Rightarrow> nat list) \<Rightarrow> 's \<Rightarrow> bool" and pick :: "'s \<Rightarrow> nat option \<times> 's"
  assumes pick_head: "\<lbrakk>rep Q s; Q i \<noteq> []; \<forall>j < i. Q j = []\<rbrakk>
    \<Longrightarrow> \<exists>s'. pick s = (Some (hd (Q i)), s') \<and> rep (Q(i := rotate1 (Q i))) s'"
begin

lemma round_robin:
  assumes "rep Q s" "Q i \<noteq> []" "\<forall>j < i. Q j = []"
  shows "picks pick n s = map (\<lambda>k. Some (Q i ! (k mod length (Q i)))) [0..<n]"
  using assms
proof (induction n arbitrary: Q s)
  case (Suc n)
  obtain s' where s': "pick s = (Some (hd (Q i)), s')" "rep (Q(i := rotate1 (Q i))) s'" using pick_head [OF Suc.prems] by blast
  have "picks pick n s' = map (\<lambda>k. Some ((Q(i := rotate1 (Q i))) i ! (k mod length ((Q(i := rotate1 (Q i))) i)))) [0..<n]"
    by (rule Suc.IH [OF s'(2)]) (use Suc.prems in simp_all)
  also have "\<dots> = map (\<lambda>k. Some (Q i ! (Suc k mod length (Q i)))) [0..<n]"
    using Suc.prems(2) by (intro map_cong [OF refl]) (simp add: nth_rotate1 mod_Suc_eq)
  finally have "picks pick (Suc n) s = Some (Q i ! 0) # map (\<lambda>k. Some (Q i ! (Suc k mod length (Q i)))) [0..<n]"
    using s'(1) Suc.prems(2) by (simp add: hd_conv_nth)
  also have "\<dots> = map (\<lambda>k. Some (Q i ! (k mod length (Q i)))) (0 # map Suc [0..<n])" by simp
  finally show ?case unfolding map_Suc_upt by (simp add: upt_conv_Cons del: upt_Suc)
qed simp

end

interpretation tq: task_queue "\<lambda>Q s. rq_ok Q c s" "sched_pick_next c" for c
  by unfold_locales (rule pick_ok)

section \<open>Properties\<close>

lemma cpu_init_ok: "c < MAX_CPUS \<Longrightarrow> c < length (runqueues s) \<Longrightarrow> rq_ok (\<lambda>_. []) c (sched_cpu_init name c s)"
  by (simp add: rq_ok_def sched_cpu_init_def head_of_def)

text \<open>C14. The run queue schedules round robin by priority.  For processes of priorities below 32, the linked
  lists of a CPU's run queue stand for one list per priority: \<open>enqueue_task\<close> puts a process behind the head
  of its list, \<open>dequeue_task\<close> takes out one that is alone or not the head, and any number of picks go
  round the list of the best priority in use, so every process on it gets its turn.\<close>

theorem runqueue_round_robin:
  assumes "rq_ok Q c s"
  shows "(\<forall>p i. priority (proc_of s p) = int i \<and> i < 32 \<and> (\<forall>j. p \<notin> set (Q j))
      \<longrightarrow> rq_ok (Q(i := insert_second p (Q i))) c (enqueue_task c p s))
    \<and> (\<forall>p i. priority (proc_of s p) = int i \<and> p \<in> set (Q i) \<and> (Q i = [p] \<or> p \<noteq> hd (Q i))
      \<longrightarrow> (\<exists>s'. dequeue_task c p s = Some s' \<and> rq_ok (Q(i := remove1 p (Q i))) c s'))
    \<and> (\<forall>i n. Q i \<noteq> [] \<and> (\<forall>j < i. Q j = [])
      \<longrightarrow> picks (sched_pick_next c) n s = map (\<lambda>k. Some (Q i ! (k mod length (Q i)))) [0..<n])"
  using enqueue_ok [OF assms] dequeue_ok [OF assms] tq.round_robin [OF assms] by (intro conjI allI impI) blast+

definition smp_demo :: smp_state where
  "smp_demo = sched_cpu_init 0 0 (proc_state.extend proc_boot \<lparr>next_of = (\<lambda>_. None), runqueues = replicate 8
       \<lparr>rq_lock = spinlock_init 0, active_queue = [], expired_queue = [], active_prio_bitmap = 0, expired_prio_bitmap = 0,
        rq_current = None, rq_idle = None, sched_count = 0, idle_time = 0, load_weight = 0, rq_cpu = 0\<rparr>,
     num_cpus = 1, tsc_freq = 0, tsc = (\<lambda>_. 0), tsc_reads = 0, lock_traces = []\<rparr>)"

lemma smp_demo_ok: "rq_ok (\<lambda>_. []) 0 smp_demo" "priority (proc_of smp_demo 1) = 0" "priority (proc_of smp_demo 2) = 0"
  unfolding smp_demo_def by (rule cpu_init_ok) (simp_all add: proc_state.defs sched_cpu_init_def proc_boot_def proc_demo_simps zero_process_def)

theorem runqueue_round_robin_witness:
  "picks (sched_pick_next 0) 3 (enqueue_task 0 2 (enqueue_task 0 1 smp_demo)) = [Some 1, Some 2, Some 1]"
proof -
  have 1: "rq_ok ((\<lambda>_. [])(0 := [1])) 0 (enqueue_task 0 1 smp_demo)"
    using runqueue_round_robin [OF smp_demo_ok(1), THEN conjunct1, rule_format, of 1 0] smp_demo_ok(2) by (simp add: insert_second_def)
  have "rq_ok ((\<lambda>_. [])(0 := [1, 2])) 0 (enqueue_task 0 2 (enqueue_task 0 1 smp_demo))"
    using runqueue_round_robin [OF 1, THEN conjunct1, rule_format, of 2 0] smp_demo_ok(3) by (simp add: insert_second_def)
  from runqueue_round_robin [OF this, THEN conjunct2, THEN conjunct2, rule_format, of 0 3]
  show ?thesis by (simp add: upt_rec)
qed

text \<open>The picks follow the pointers.\<close>

lemma picks_path:
  assumes "c < length (runqueues s)" "find_first_bit (active_prio_bitmap (rq_of s c)) = Some i" "i < length (active_queue (rq_of s c))"
    and "active_queue (rq_of s c) ! i = Some x" "path (next_of s) (x # ys) z" "distinct (x # ys @ [z])"
  shows "picks (sched_pick_next c) (length ys + 2) s = map Some (x # ys @ [z])"
  using assms
proof (induction ys arbitrary: x s)
  case Nil
  let ?s = "upd_rq c (\<lambda>q. q\<lparr>active_queue := (active_queue q)[i := Some z]\<rparr>) s"
  have "sched_pick_next c s = (Some x, ?s)" using Nil by (simp add: sched_pick_next_def first_task_def)
  moreover have "fst (sched_pick_next c ?s) = Some z" using Nil by (simp add: sched_pick_next_def first_task_def)
  ultimately show ?case by (simp add: split_beta numeral_2_eq_2)
next
  case (Cons y ys)
  let ?s = "upd_rq c (\<lambda>q. q\<lparr>active_queue := (active_queue q)[i := Some y]\<rparr>) s"
  have "sched_pick_next c s = (Some x, ?s)" using Cons.prems by (simp add: sched_pick_next_def first_task_def)
  moreover have "picks (sched_pick_next c) (length ys + 2) ?s = map Some (y # ys @ [z])" using Cons.prems by (intro Cons.IH) simp_all
  ultimately show ?case by simp
qed

lemma dequeue_head:
  assumes ok: "rq_ok Q c s" and Q: "Q i = p # a # xs" and pr: "priority (proc_of s p) = int i"
  shows "\<exists>s'. dequeue_task c p s = Some s' \<and> next_of s' p = None \<and> path (next_of s') (a # xs) p \<and> runqueues s' = runqueues
    (upd_rq c (\<lambda>q. q\<lparr>active_queue := (active_queue q)[i := Some a], load_weight := load_weight q - 1\<rparr>) s)"
proof -
  note D = rq_okD [OF ok]
  have i32: "i < 32" and r: "ring (next_of s) (p # a # xs)" using D(4,5) [of i] Q by simp_all
  then have n: "next_of s p = Some a" "p \<noteq> a" "p \<notin> set (a # xs)" "path (next_of s) (a # xs) p" by (auto simp: ring_def)
  have "active_queue (rq_of s c) ! i = Some p" using D(3) [of i] i32 Q by (simp add: head_of_def)
  moreover define s' where "s' = (upd_rq c (\<lambda>q. q\<lparr>active_queue := (active_queue q)[i := Some a], load_weight := load_weight q - 1\<rparr>) s)
      \<lparr>next_of := (next_of s)(p := None)\<rparr>"
  ultimately have "dequeue_task c p s = Some s'" using n(1,2) pr i32 D(1) by (simp add: dequeue_task_def Let_def upd_rq_def)
  moreover have "path ((next_of s)(p := None)) (a # xs) p" using n(3,4) by (subst path_upd) simp_all
  ultimately show ?thesis by (intro exI [of _ s']) (simp add: s'_def upd_rq_def)
qed

text \<open>C34. Three ways in which the scheduler loses or revives processes.  A process of priority 32 or more, such as
  the default 120, that is alone in a run queue is never picked: its bit is taken modulo 32 and points to
  another list.  Taking the head out of a list of at least two leaves the last process pointing to it, so the
  picks return the process that was taken out after the others.  A process with no CPU in its
  affinity mask, which is how \<open>proc_create\<close> makes it, is not woken by \<open>sched_wake\<close>.\<close>

theorem runqueue_defects:
  "(rq_ok (\<lambda>_. []) c s \<and> expired_prio_bitmap (rq_of s c) = 0 \<and> priority (proc_of s p) \<ge> 32
      \<longrightarrow> fst (sched_pick_next c (enqueue_task c p s)) = rq_idle (rq_of s c))
    \<and> (rq_ok Q c s \<and> Q i = p # a # xs \<and> (\<forall>j < i. Q j = []) \<and> priority (proc_of s p) = int i
      \<longrightarrow> (\<exists>s'. dequeue_task c p s = Some s' \<and> picks (sched_pick_next c) (length xs + 2) s' = map Some (a # xs @ [p])))
    \<and> (affinity (proc_of s p) = 0 \<longrightarrow> rq_wake me p s = Some s)"
proof (intro conjI impI)
  assume A: "rq_ok (\<lambda>_. []) c s \<and> expired_prio_bitmap (rq_of s c) = 0 \<and> priority (proc_of s p) \<ge> 32"
  then have ok: "rq_ok (\<lambda>_. []) c s" by blast
  note D = rq_okD [OF ok]
  define k where "k = clamp_prio (priority (proc_of s p))"
  have k: "32 \<le> k" "k < MAX_PRIORITY" using A by (auto simp: k_def clamp_prio_def)
  let ?s = "enqueue_task c p s"
  have none: "active_queue (rq_of s c) ! j = None" if "j < MAX_PRIORITY" for j using D(3) [OF that] by (simp add: head_of_def)
  have bm: "active_prio_bitmap (rq_of ?s c) = active_prio_bitmap (rq_of s c) OR prio_bit k" "expired_prio_bitmap (rq_of ?s c) = 0"
    "active_queue (rq_of ?s c) = (active_queue (rq_of s c))[k := Some p]" "rq_idle (rq_of ?s c) = rq_idle (rq_of s c)"
    using none [OF k(2)] A D(1) by (simp_all add: enqueue_task_def Let_def k_def [symmetric])
  have "bit (active_prio_bitmap (rq_of ?s c)) j \<longleftrightarrow> j = k mod 32" if "j < 32" for j
    unfolding bm(1) using D(6) [OF that] by (auto simp: bit_or_iff prio_bit_def bit_simps bit_1_iff)
  then have "find_first_bit (active_prio_bitmap (rq_of ?s c)) = Some (k mod 32)"
    by (simp add: find_first_bit_def find_upt_Some del: upt_rec_numeral)
  moreover have "k mod 32 < 32" by simp
  then have "k mod 32 \<noteq> k" "k mod 32 < MAX_PRIORITY" using k(1) by linarith+
  ultimately show "fst (sched_pick_next c ?s) = rq_idle (rq_of s c)"
    using none bm by (simp add: sched_pick_next_def first_task_def)
next
  assume A: "rq_ok Q c s \<and> Q i = p # a # xs \<and> (\<forall>j < i. Q j = []) \<and> priority (proc_of s p) = int i"
  then have ok: "rq_ok Q c s" and Q: "Q i = p # a # xs" by blast+
  note D = rq_okD [OF ok]
  from dequeue_head [OF ok Q] A obtain s' where s': "dequeue_task c p s = Some s'" "path (next_of s') (a # xs) p"
    "runqueues s' = runqueues (upd_rq c (\<lambda>q. q\<lparr>active_queue := (active_queue q)[i := Some a], load_weight := load_weight q - 1\<rparr>) s)" by blast
  have i32: "i < 32" and r: "distinct (p # a # xs)" using D(4,5) [of i] Q by (simp_all add: ring_def)
  have "find_first_bit (active_prio_bitmap (rq_of s c)) = Some i"
    using A i32 D(6) Q by (simp add: find_first_bit_def find_upt_Some del: upt_rec_numeral)
  then have "picks (sched_pick_next c) (length xs + 2) s' = map Some (a # xs @ [p])"
    using s' D(1,2) less_trans [OF i32, of MAX_PRIORITY] r by (intro picks_path [of _ _ i]) simp_all
  with s'(1) show "\<exists>s'. dequeue_task c p s = Some s' \<and> picks (sched_pick_next c) (length xs + 2) s' = map Some (a # xs @ [p])" by blast
next
  assume "affinity (proc_of s p) = 0"
  moreover have "find (bit (0 :: u64)) xs = None" for xs by (simp add: find_None_iff)
  ultimately show "rq_wake me p s = Some s" by (simp add: rq_wake_def del: bit_0_eq)
qed

theorem runqueue_defects_witness:
  "fst (sched_pick_next 0 (enqueue_task 0 1 (sched_set_priority 1 120 smp_demo))) = None
    \<and> (\<exists>s. dequeue_task 0 1 (enqueue_task 0 2 (enqueue_task 0 1 smp_demo)) = Some s \<and> picks (sched_pick_next 0) 2 s = [Some 2, Some 1])
    \<and> rq_wake 0 1 smp_demo = Some smp_demo"
proof -
  let ?s = "sched_set_priority 1 120 smp_demo"
  have len: "length (proc_table smp_demo) = 256"
    by (simp add: smp_demo_def sched_cpu_init_def proc_state.defs proc_boot_def)
  have idle: "rq_idle (rq_of smp_demo 0) = None" "expired_prio_bitmap (rq_of smp_demo 0) = 0" "affinity (proc_of smp_demo 1) = 0"
    by (simp_all add: smp_demo_def sched_cpu_init_def proc_state.defs upd_rq_def) (simp add: proc_boot_def zero_process_def)
  have "rq_ok (\<lambda>_. []) 0 ?s" "priority (proc_of ?s 1) = 120" "runqueues ?s = runqueues smp_demo"
    using smp_demo_ok(1) len by (simp_all add: sched_set_priority_def rq_ok_def clamp_prio_def Let_def) (simp add: upd_proc_def)
  then have 1: "fst (sched_pick_next 0 (enqueue_task 0 1 ?s)) = None"
    using runqueue_defects [of 0 ?s 1 "\<lambda>_. []" 0 0 "[]" 0] idle by simp
  have "rq_ok ((\<lambda>_. [])(0 := [1])) 0 (enqueue_task 0 1 smp_demo)"
    using enqueue_ok [OF smp_demo_ok(1), of 1 0] smp_demo_ok(2) by (simp add: insert_second_def)
  then have "rq_ok ((\<lambda>_. [])(0 := [1, 2])) 0 (enqueue_task 0 2 (enqueue_task 0 1 smp_demo))"
    using enqueue_ok [of "(\<lambda>_. [])(0 := [1])" 0 "enqueue_task 0 1 smp_demo" 2 0] smp_demo_ok(3) by (simp add: insert_second_def)
  then have "\<exists>s. dequeue_task 0 1 (enqueue_task 0 2 (enqueue_task 0 1 smp_demo)) = Some s \<and> picks (sched_pick_next 0) 2 s = [Some 2, Some 1]"
    using runqueue_defects [of 0 "enqueue_task 0 2 (enqueue_task 0 1 smp_demo)" 1 "(\<lambda>_. [])(0 := [1, 2])" 0 2 "[]" 0] smp_demo_ok(2) by (simp add: numeral_2_eq_2)
  with 1 show ?thesis using runqueue_defects [of 0 smp_demo 1 "\<lambda>_. []" 0 0 "[]" 0] idle(3) by blast
qed

end
