(* ===== verification/Printk.thy ===== *)
theory Printk
  imports Keyboard
begin

text \<open>
  Formatted output: \<open>lib/printk.c\<close>.  A variable argument is a number or a string.  Reading an argument that
  was not passed, or passed with another type, is undefined, and a \<open>%\<close> at the end of the format makes
  the loop step over the terminating NUL; these have no result.
\<close>

section \<open>Numbers\<close>

text \<open>The digits of a number in base \<open>b\<close>, the most significant first.\<close>

fun num_digits :: "nat \<Rightarrow> nat \<Rightarrow> nat list" where
  "num_digits b v = (if v = 0 \<or> b < 2 then [] else num_digits b (v div b) @ [v mod b])"

declare num_digits.simps [simp del]

definition digit_chars :: "bool \<Rightarrow> u8 list" where
  "digit_chars upper = (if upper then str ''0123456789ABCDEF'' else str ''0123456789abcdef'')"

definition print_uint :: "u64 \<Rightarrow> nat \<Rightarrow> bool \<Rightarrow> int \<Rightarrow> u8 \<Rightarrow> u8 list" where
  "print_uint v b upper width pad =
     (let body = (if v = 0 then str ''0'' else map (\<lambda>d. digit_chars upper ! d) (num_digits b (unat v)))
      in replicate (nat (width - int (length body))) pad @ body)"

section \<open>The format\<close>

datatype va = Num u64 | Txt "u8 list option"

fun next_num :: "va list \<Rightarrow> (u64 \<times> va list) option" where
  "next_num (Num v # as) = Some (v, as)"
| "next_num _ = None"

fun next_txt :: "va list \<Rightarrow> (u8 list option \<times> va list) option" where
  "next_txt (Txt t # as) = Some (t, as)"
| "next_txt _ = None"

fun parse_width :: "int \<Rightarrow> u8 list \<Rightarrow> int \<times> u8 list" where
  "parse_width w [] = (w, [])"
| "parse_width w (c # cs) = (if 0x31 \<le> c \<and> c \<le> 0x39 then parse_width (w * 10 + (uint c - 0x30)) cs else (w, c # cs))"

definition directive :: "u8 \<Rightarrow> u8 \<Rightarrow> int \<Rightarrow> va list \<Rightarrow> (u8 list \<times> va list) option" where
  "directive c pad width as =
     (if c = of_char CHR ''d'' \<or> c = of_char CHR ''i'' then
        map_option (\<lambda>(v, as). (if v <s 0 then of_char CHR ''-'' # print_uint (- v) 10 False width pad
                               else print_uint v 10 False width pad, as)) (next_num as)
      else if c = of_char CHR ''u'' then map_option (\<lambda>(v, as). (print_uint v 10 False width pad, as)) (next_num as)
      else if c = of_char CHR ''x'' then map_option (\<lambda>(v, as). (print_uint v 16 False width pad, as)) (next_num as)
      else if c = of_char CHR ''X'' then map_option (\<lambda>(v, as). (print_uint v 16 True width pad, as)) (next_num as)
      else if c = of_char CHR ''p'' then
        map_option (\<lambda>(v, as). (str ''0x'' @ print_uint v 16 False 16 (of_char CHR ''0''), as)) (next_num as)
      else if c = of_char CHR ''s'' then
        map_option (\<lambda>(t, as). (case t of Some t \<Rightarrow> t | None \<Rightarrow> str ''(null)'', as)) (next_txt as)
      else if c = of_char CHR ''c'' then map_option (\<lambda>(v, as). ([ucast v], as)) (next_num as)
      else if c = of_char CHR ''%'' then Some (str ''%'', as)
      else Some ([of_char CHR ''%'', c], as))"

lemma parse_width_shorter: "length (snd (parse_width w cs)) \<le> length cs"
  by (induction w cs rule: parse_width.induct) auto

function format :: "u8 list \<Rightarrow> va list \<Rightarrow> u8 list option" where
  "format [] as = Some []"
| "format (c # cs) as =
     (if c \<noteq> of_char CHR ''%'' then map_option ((#) c) (format cs as) else
      let zero = (cs \<noteq> [] \<and> hd cs = of_char CHR ''0'');
          pad = (if zero then of_char CHR ''0'' else of_char CHR '' '');
          (width, rest) = parse_width 0 (if zero then tl cs else cs) in
      case rest of [] \<Rightarrow> None
      | k # ks \<Rightarrow>
          (case directive k pad width as of None \<Rightarrow> None
           | Some (out, as) \<Rightarrow> map_option ((@) out) (format ks as)))"
  by pat_completeness auto
termination
proof (relation "measure (\<lambda>(cs, _). length cs)", goal_cases)
  case (3 c cs as zero pad x width rest k ks y out as')
  have "length rest \<le> length (if zero then tl cs else cs)"
    using parse_width_shorter [of 0 "if zero then tl cs else cs"] 3 by (metis snd_conv)
  then show ?case using 3 by (auto split: if_splits)
qed simp_all

definition printk :: "u8 list \<Rightarrow> va list \<Rightarrow> 'a fs_state_scheme \<Rightarrow> 'a fs_state_scheme option" where
  "printk fmt as s = map_option (\<lambda>out. fold tty_putc out s) (format fmt as)"

section \<open>What the digits say\<close>

lemma num_digits_value: "2 \<le> b \<Longrightarrow> foldl (\<lambda>a d. a * b + d) 0 (num_digits b v) = v"
proof (induction v rule: less_induct)
  case (less v)
  show ?case
  proof (cases "v = 0")
    case False
    then have "v div b < v" using less.prems by simp
    from less.IH [OF this less.prems] show ?thesis using False less.prems by (subst num_digits.simps) simp
  qed (simp add: num_digits.simps)
qed

lemma num_digits_less: "d \<in> set (num_digits b v) \<Longrightarrow> d < b"
  by (induction b v rule: num_digits.induct) (subst (asm) (2) num_digits.simps, auto split: if_splits)

end
