(* ===== verification/Auth.thy ===== *)
theory Auth
  imports Printk Vfs Sha256
begin

text \<open>
  User accounts: \<open>kernel/core/auth.c\<close>.  The account table is a component of its own beside the file system
  state.  Strings are byte lists without the NUL; \<open>copy_name\<close> is \<open>kstrncpy\<close> into an array, which has no result for a string
  that does not fit.  The local buffers \<open>line\<close> and \<open>buf\<close> are at an address that the caller gives; \<open>ctx\<close> is the
  uninitialised hash context of \<open>sha256_make_hash\<close>.
\<close>

section \<open>Accounts\<close>

abbreviation MAX_USERS :: nat where "MAX_USERS \<equiv> 64"
abbreviation MAX_USERNAME :: nat where "MAX_USERNAME \<equiv> 32"
abbreviation MAX_PASSWORD :: nat where "MAX_PASSWORD \<equiv> 128"
abbreviation MAX_HOMEDIR :: nat where "MAX_HOMEDIR \<equiv> 128"
abbreviation MAX_SHELL :: nat where "MAX_SHELL \<equiv> 64"

record user_entry =
  username :: "u8 list"
  password :: "u8 list"
  uid :: u32
  gid :: u32
  home :: "u8 list"
  shell :: "u8 list"
  active :: bool

record auth =
  users :: "user_entry list"
  user_count :: nat
  current_user :: "nat option"

abbreviation colon :: u8 where "colon \<equiv> 0x3A"
abbreviation newline :: u8 where "newline \<equiv> 0x0A"

definition find_user :: "u8 list \<Rightarrow> auth \<Rightarrow> nat option" where
  "find_user name a = find (\<lambda>i. active (users a ! i) \<and> username (users a ! i) = name) [0..<user_count a]"

section \<open>The password file\<close>

definition passwd_file :: "u8 list" where
  "passwd_file = str ''/etc/passwd''"

definition dec_chars :: "u32 \<Rightarrow> u8 list" where
  "dec_chars v = (if v = 0 then str ''0'' else map (\<lambda>d. 0x30 + of_nat d) (num_digits 10 (unat v)))"

definition passwd_line :: "user_entry \<Rightarrow> u8 list" where
  "passwd_line u = username u @ colon # password u @ colon # dec_chars (uid u) @ colon # home u @ colon # shell u @ [newline]"

fun save_users :: "u64 \<Rightarrow> u64 \<Rightarrow> user_entry list \<Rightarrow> 'a fs_state_scheme \<Rightarrow> 'a fs_state_scheme option" where
  "save_users buf f [] s = Some s"
| "save_users buf f (u # us) s =
     (if \<not> active u then save_users buf f us s else do {
        (_, s) \<leftarrow> vfs_write f buf (of_nat (length (passwd_line u))) (s\<lparr>memory := store_bytes (memory s) buf (passwd_line u @ [0])\<rparr>);
        save_users buf f us s})"

definition auth_save :: "u64 \<Rightarrow> auth \<Rightarrow> 'a fs_state_scheme \<Rightarrow> 'a fs_state_scheme option" where
  "auth_save buf a s = do {
     (f, s) \<leftarrow> vfs_open passwd_file (O_WRONLY OR O_CREAT OR O_TRUNC) s;
     if f = 0 then Some s else do {
       s \<leftarrow> save_users buf f (take (user_count a) (users a)) s;
       (_, s) \<leftarrow> vfs_close f s;
       Some s}}"

text \<open>At most \<open>k\<close> splits at a colon: the last field keeps the rest of the line.\<close>

fun split_fields :: "nat \<Rightarrow> u8 list \<Rightarrow> u8 list list" where
  "split_fields 0 s = [s]"
| "split_fields (Suc k) s =
     (let w = takeWhile (\<lambda>c. c \<noteq> colon) s; rest = drop (length w) s
      in if rest = [] then [s] else w # split_fields k (tl rest))"

fun parse_uid :: "u32 \<Rightarrow> u8 list \<Rightarrow> u32" where
  "parse_uid v [] = v"
| "parse_uid v (c # cs) = (if 0x30 \<le> c \<and> c \<le> 0x39 then parse_uid (v * 10 + ucast c - 0x30) cs else v)"

definition load_line :: "u8 list \<Rightarrow> auth \<Rightarrow> auth option" where
  "load_line line a =
     (let fs = split_fields 4 line in
      if length fs = 5 \<and> user_count a < MAX_USERS then do {
        nm \<leftarrow> copy_name MAX_USERNAME (fs ! 0);
        pw \<leftarrow> copy_name MAX_PASSWORD (fs ! 1);
        let n = parse_uid 0 (fs ! 2);
        hm \<leftarrow> copy_name MAX_HOMEDIR (fs ! 3);
        sh \<leftarrow> copy_name MAX_SHELL (fs ! 4);
        Some (a\<lparr>users := (users a)[user_count a :=
            \<lparr>username = nm, password = pw, uid = n, gid = n, home = hm, shell = sh, active = True\<rparr>],
          user_count := user_count a + 1\<rparr>)}
      else Some a)"

function load_lines :: "u8 list \<Rightarrow> auth \<Rightarrow> auth option" where
  "load_lines buf a =
     (if buf = [] then Some a else
      let line = takeWhile (\<lambda>c. c \<noteq> newline) buf in do {
        a \<leftarrow> load_line line a;
        load_lines (tl (drop (length line) buf)) a})"
  by pat_completeness auto
termination
  by (relation "measure (\<lambda>(buf, _). length buf)") auto

declare load_lines.simps [simp del]

definition auth_load :: "u64 \<Rightarrow> auth \<Rightarrow> 'a fs_state_scheme \<Rightarrow> (auth \<times> 'a fs_state_scheme) option" where
  "auth_load buf a s = do {
     (f, s) \<leftarrow> vfs_open passwd_file O_RDONLY s;
     if f = 0 then Some (a, s) else do {
       (n, s) \<leftarrow> vfs_read f buf 4095 (s\<lparr>memory := (memory s)(buf := 0)\<rparr>);
       (_, s) \<leftarrow> vfs_close f s;
       if n \<le> 0 then Some (a, s) else do {
         let s = s\<lparr>memory := (memory s)(buf + of_int n := 0)\<rparr>;
         a \<leftarrow> load_lines (takeWhile (\<lambda>c. c \<noteq> 0) (bytes_at (memory s) buf (nat n))) a;
         Some (a, s)}}}"

section \<open>Operations\<close>

definition root_entry :: "user_entry \<Rightarrow> user_entry" where
  "root_entry u = u\<lparr>username := str ''root'', password := [], uid := 0, gid := 0, home := str ''/root'',
     shell := str ''/bin/sh'', active := True\<rparr>"

fun make_homes :: "user_entry list \<Rightarrow> 'a fs_state_scheme \<Rightarrow> 'a fs_state_scheme option" where
  "make_homes [] s = Some s"
| "make_homes (u # us) s =
     (if \<not> active u then make_homes us s else do { (_, s) \<leftarrow> vfs_create (home u) FT_DIR s; make_homes us s })"

definition auth_init :: "u64 \<Rightarrow> auth \<Rightarrow> 'a fs_state_scheme \<Rightarrow> (auth \<times> 'a fs_state_scheme) option" where
  "auth_init buf a s = do {
     (a, s) \<leftarrow> auth_load buf (a\<lparr>user_count := 0\<rparr>) s;
     (a, s) \<leftarrow> (if user_count a = 0 then
                 let a = a\<lparr>users := (users a)[0 := root_entry (users a ! 0)], user_count := 1\<rparr>
                 in map_option (Pair a) (auth_save buf a s)
               else Some (a, s));
     let a = a\<lparr>current_user := (case find_user (str ''root'') a of Some i \<Rightarrow> Some i | None \<Rightarrow> Some 0)\<rparr>;
     (_, s) \<leftarrow> vfs_create (str ''/root'') FT_DIR s;
     s \<leftarrow> make_homes (take (user_count a) (users a)) s;
     Some (a, s)}"

definition auth_check :: "sha256_ctx \<Rightarrow> u8 list \<Rightarrow> u8 list \<Rightarrow> auth \<Rightarrow> bool" where
  "auth_check ctx user pass a =
     (case find_user user a of None \<Rightarrow> False
      | Some i \<Rightarrow>
          let pw = password (users a ! i) in
          if length pw = 0 \<and> length pass = 0 then True
          else if length pw = 64 then sha256_verify ctx pass pw
          else pw = pass)"

definition auth_switch :: "u8 list \<Rightarrow> auth \<Rightarrow> auth" where
  "auth_switch user a = (case find_user user a of Some i \<Rightarrow> a\<lparr>current_user := Some i\<rparr> | None \<Rightarrow> a)"

definition auth_login :: "sha256_ctx \<Rightarrow> u8 list \<Rightarrow> u8 list \<Rightarrow> auth \<Rightarrow> bool \<times> auth" where
  "auth_login ctx user pass a = (if \<not> auth_check ctx user pass a then (False, a) else (True, auth_switch user a))"

definition auth_set_password :: "sha256_ctx \<Rightarrow> u64 \<Rightarrow> u8 list \<Rightarrow> u8 list \<Rightarrow> auth \<Rightarrow> 'a fs_state_scheme
    \<Rightarrow> (auth \<times> 'a fs_state_scheme) option" where
  "auth_set_password ctx buf user pass a s =
     (case find_user user a of None \<Rightarrow> Some (a, s)
      | Some i \<Rightarrow> do {
          pw \<leftarrow> copy_name MAX_PASSWORD (sha256_make_hash ctx pass);
          let a = a\<lparr>users := (users a)[i := (users a ! i)\<lparr>password := pw\<rparr>]\<rparr>;
          s \<leftarrow> auth_save buf a s;
          s \<leftarrow> printk (str ''passwd: password updated for %s (SHA-256)'' @ [newline]) [Txt (Some user)] s;
          Some (a, s)})"

definition auth_add_user :: "sha256_ctx \<Rightarrow> u64 \<Rightarrow> u8 list \<Rightarrow> u8 list \<Rightarrow> u32 \<Rightarrow> u8 list \<Rightarrow> auth \<Rightarrow> 'a fs_state_scheme
    \<Rightarrow> (int \<times> auth \<times> 'a fs_state_scheme) option" where
  "auth_add_user ctx buf user pass n dir a s =
     (if find_user user a \<noteq> None then Some (-1, a, s)
      else if user_count a \<ge> MAX_USERS then Some (-1, a, s)
      else do {
        nm \<leftarrow> copy_name MAX_USERNAME user;
        pw \<leftarrow> copy_name MAX_PASSWORD (sha256_make_hash ctx pass);
        hm \<leftarrow> copy_name MAX_HOMEDIR dir;
        let a = a\<lparr>users := (users a)[user_count a := \<lparr>username = nm, password = pw, uid = n, gid = n, home = hm,
                    shell = str ''/bin/sh'', active = True\<rparr>], user_count := user_count a + 1\<rparr>;
        (_, s) \<leftarrow> vfs_create dir FT_DIR s;
        s \<leftarrow> auth_save buf a s;
        Some (0, a, s)})"

definition auth_del_user :: "u64 \<Rightarrow> u8 list \<Rightarrow> auth \<Rightarrow> 'a fs_state_scheme \<Rightarrow> (int \<times> auth \<times> 'a fs_state_scheme) option" where
  "auth_del_user buf user a s =
     (if user = str ''root'' then Some (-1, a, s) else
      case find_user user a of None \<Rightarrow> Some (-1, a, s)
      | Some i \<Rightarrow> do {
          let a = a\<lparr>users := (users a)[i := (users a ! i)\<lparr>active := False\<rparr>]\<rparr>;
          s \<leftarrow> auth_save buf a s;
          Some (0, a, s)})"

definition auth_current_user :: "auth \<Rightarrow> u8 list" where
  "auth_current_user a = (case current_user a of Some i \<Rightarrow> username (users a ! i) | None \<Rightarrow> str ''root'')"

definition auth_current_uid :: "auth \<Rightarrow> u32" where
  "auth_current_uid a = (case current_user a of Some i \<Rightarrow> uid (users a ! i) | None \<Rightarrow> 0)"

definition auth_is_root :: "auth \<Rightarrow> bool" where
  "auth_is_root a = (case current_user a of Some i \<Rightarrow> uid (users a ! i) = 0 | None \<Rightarrow> True)"

definition auth_current_home :: "auth \<Rightarrow> u8 list" where
  "auth_current_home a = (case current_user a of Some i \<Rightarrow> home (users a ! i) | None \<Rightarrow> str ''/root'')"

section \<open>Reading back what was written\<close>

lemma takeWhile_sep: "c \<notin> set w \<Longrightarrow> takeWhile (\<lambda>x. x \<noteq> c) (w @ c # r) = w"
  by (induction w) auto

lemma split_fields_sep: "colon \<notin> set w \<Longrightarrow> split_fields (Suc k) (w @ colon # r) = w # split_fields k r"
  by (simp add: takeWhile_sep Let_def)

lemma load_lines_sep: "newline \<notin> set w \<Longrightarrow> load_lines (w @ newline # r) a = Option.bind (load_line w a) (load_lines r)"
  by (subst load_lines.simps) (simp add: takeWhile_sep Let_def)

lemma digit_char:
  assumes "d < 10"
  shows "0x30 \<le> (0x30 + of_nat d :: u8)" "(0x30 + of_nat d :: u8) \<le> 0x39" "ucast (0x30 + of_nat d :: u8) = (0x30 + of_nat d :: u32)"
proof -
  have "d \<in> {0, 1, 2, 3, 4, 5, 6, 7, 8, 9}" using assms by auto
  then show "0x30 \<le> (0x30 + of_nat d :: u8)" "(0x30 + of_nat d :: u8) \<le> 0x39" "ucast (0x30 + of_nat d :: u8) = (0x30 + of_nat d :: u32)"
    by auto
qed

lemma parse_uid_digits:
  "\<forall>d \<in> set ds. d < 10 \<Longrightarrow> parse_uid (of_nat v) (map (\<lambda>d. 0x30 + of_nat d) ds) = of_nat (foldl (\<lambda>a d. a * 10 + d) v ds)"
proof (induction ds arbitrary: v)
  case (Cons d ds)
  then show ?case using digit_char [of d] Cons.IH [of "v * 10 + d"] by (simp add: algebra_simps)
qed simp

lemma parse_uid_dec: "parse_uid 0 (dec_chars v) = v"
proof (cases "v = 0")
  case False
  have "\<forall>d \<in> set (num_digits 10 (unat v)). d < 10" using num_digits_less by blast
  from parse_uid_digits [OF this, of 0] False show ?thesis by (simp add: dec_chars_def num_digits_value)
qed (simp add: dec_chars_def str_def)

lemma dec_chars_set:
  assumes "c \<in> set (dec_chars v)"
  shows "0x30 \<le> c \<and> c \<le> 0x39"
proof (cases "v = 0")
  case False
  then obtain d where d: "d \<in> set (num_digits 10 (unat v))" "c = 0x30 + of_nat d" using assms by (auto simp: dec_chars_def)
  show ?thesis using digit_char(1,2) [OF num_digits_less [OF d(1)]] unfolding d(2) ..
qed (use assms in \<open>simp add: dec_chars_def str_def\<close>)

text \<open>An account that the file format can hold.\<close>

definition entry_ok :: "user_entry \<Rightarrow> bool" where
  "entry_ok u \<longleftrightarrow> length (username u) < MAX_USERNAME \<and> length (password u) < MAX_PASSWORD \<and> length (home u) < MAX_HOMEDIR
     \<and> length (shell u) < MAX_SHELL \<and> (\<forall>c \<in> {0, colon, newline}. c \<notin> set (username u) \<and> c \<notin> set (password u) \<and> c \<notin> set (home u))
     \<and> 0 \<notin> set (shell u) \<and> newline \<notin> set (shell u) \<and> gid u = uid u \<and> active u"

lemma load_line_entry:
  assumes "entry_ok u" "user_count a < MAX_USERS"
  shows "load_line (username u @ colon # password u @ colon # dec_chars (uid u) @ colon # home u @ colon # shell u) a
    = Some (a\<lparr>users := (users a)[user_count a := u], user_count := user_count a + 1\<rparr>)"
proof -
  have d: "colon \<notin> set (dec_chars (uid u))" using dec_chars_set [of colon] by auto
  have "split_fields (Suc (Suc (Suc (Suc 0)))) (username u @ colon # password u @ colon # dec_chars (uid u) @ colon # home u @ colon # shell u)
      = [username u, password u, dec_chars (uid u), home u, shell u]"
    using assms(1) d by (simp add: split_fields_sep entry_ok_def del: split_fields.simps(2))
  then show ?thesis using assms by (cases u) (simp add: load_line_def copy_name_def parse_uid_dec entry_ok_def numeral_eq_Suc)
qed

lemma load_lines_saved:
  assumes "\<forall>u \<in> set us. entry_ok u" "user_count a + length us \<le> MAX_USERS" "length (users a) = MAX_USERS"
  shows "\<exists>a'. load_lines (concat (map passwd_line us)) a = Some a'
    \<and> take (user_count a') (users a') = take (user_count a) (users a) @ us"
  using assms
proof (induction us arbitrary: a)
  case Nil
  then show ?case by (simp add: load_lines.simps)
next
  case (Cons u us)
  let ?w = "username u @ colon # password u @ colon # dec_chars (uid u) @ colon # home u @ colon # shell u"
  let ?a = "a\<lparr>users := (users a)[user_count a := u], user_count := user_count a + 1\<rparr>"
  have "newline \<notin> set (dec_chars (uid u))" using dec_chars_set [of newline] by auto
  then have "newline \<notin> set ?w" using Cons.prems(1) by (simp add: entry_ok_def)
  then have "load_lines (?w @ newline # concat (map passwd_line us)) a = Option.bind (load_line ?w a) (load_lines (concat (map passwd_line us)))"
    by (rule load_lines_sep)
  moreover have "load_line ?w a = Some ?a" using Cons.prems by (intro load_line_entry) simp_all
  moreover have "concat (map passwd_line (u # us)) = ?w @ newline # concat (map passwd_line us)" by (simp add: passwd_line_def)
  ultimately have "load_lines (concat (map passwd_line (u # us))) a = load_lines (concat (map passwd_line us)) ?a" by simp
  moreover obtain a' where "load_lines (concat (map passwd_line us)) ?a = Some a'"
    "take (user_count a') (users a') = take (user_count ?a) (users ?a) @ us"
    using Cons.IH [of ?a] Cons.prems by auto
  ultimately show ?case using Cons.prems(2,3) by (simp add: take_Suc_conv_app_nth)
qed

lemma passwd_line_nul: "entry_ok u \<Longrightarrow> 0 \<notin> set (passwd_line u)"
  using dec_chars_set [of 0 "uid u"] by (auto simp: passwd_line_def entry_ok_def)

section \<open>Password hashes have 64 characters\<close>

lemma length_sha_round [simp]: "length (sha_round m i v) = length v"
  by (induction m i v rule: sha_round.induct) (simp_all add: Let_def)

lemma length_rounds: "length (fold (sha_round m) is v) = length v"
  by (induction "is" arbitrary: v) simp_all

lemma length_transform [simp]: "length (cstate (sha256_transform ctx d)) = length (cstate ctx)"
  by (simp add: sha256_transform_def Let_def length_rounds)

lemma length_update [simp]: "length (cstate (sha256_update ctx d)) = length (cstate ctx)"
proof -
  have "length (cstate (sha256_byte b ctx)) = length (cstate ctx)" for b ctx by (simp add: sha256_byte_def Let_def)
  then show ?thesis unfolding sha256_update_def by (induction d arbitrary: ctx) simp_all
qed

lemma length_final: "length (sha256_final ctx) = 4 * length (cstate ctx)"
proof -
  have "length (hash_bytes st) = 4 * length st" for st by (induction st) (simp_all add: hash_bytes_def)
  then show ?thesis by (simp add: sha256_final_def Let_def)
qed

lemma length_make_hash: "length (sha256_make_hash ctx p) = 64"
proof -
  have hex: "length (sha256_to_hex h) = 2 * length h" for h by (induction h) (simp_all add: sha256_to_hex_def)
  have init: "length (cstate (sha256_init ctx)) = 8" by (simp add: sha256_init_def)
  have "length (fold (\<lambda>r h. sha256_final (sha256_update (sha256_update (sha256_init ctx) h) p)) rs h) = 32" if "length h = 32" for rs :: "nat list" and h
    using that by (induction rs arbitrary: h) (simp_all add: length_final init)
  then show ?thesis unfolding sha256_make_hash_def Let_def by (simp add: hex length_final init del: upt_rec_numeral)
qed

section \<open>Properties\<close>


lemma find_user_set_password:
  assumes "find_user user a = Some i" "user_count a \<le> length (users a)"
    and a'_def: "a' = a\<lparr>users := (users a)[i := (users a ! i)\<lparr>password := pw\<rparr>]\<rparr>"
  shows "find_user name a' = find_user name a" "password (users a' ! i) = pw" "j \<noteq> i \<Longrightarrow> users a' ! j = users a ! j"
    "username (users a' ! i) = user" "find_user name a = Some i \<Longrightarrow> name = user"
proof -
  have i: "i < length (users a)" "username (users a ! i) = user" "active (users a ! i)"
    using assms(1,2) by (auto simp: find_user_def find_upt_Some)
  have "active (users a' ! j) = active (users a ! j) \<and> username (users a' ! j) = username (users a ! j)" for j
    using i by (cases "j = i") (simp_all add: a'_def)
  then show "find_user name a' = find_user name a" unfolding find_user_def by (simp add: a'_def)
  show "password (users a' ! i) = pw" "j \<noteq> i \<Longrightarrow> users a' ! j = users a ! j" "username (users a' ! i) = user" using i by (simp_all add: a'_def)
  show "find_user name a = Some i \<Longrightarrow> name = user" using i(2) by (auto simp: find_user_def find_upt_Some)
qed

text \<open>C20. Passwords.  After \<open>auth_set_password\<close> the user is accepted with exactly the passwords that have the hash
  of the new one, the new one among them; a login with it makes the user current; and every other user is accepted with the same passwords
  as before.\<close>

theorem auth_password_set:
  assumes "auth_set_password ctx buf user pass a s = Some (a', s')" "find_user user a = Some i" "user_count a \<le> length (users a)"
  shows "(\<forall>p. auth_check ctx user p a' \<longleftrightarrow> sha256_make_hash ctx p = sha256_make_hash ctx pass)
    \<and> fst (auth_login ctx user pass a') \<and> auth_current_user (snd (auth_login ctx user pass a')) = user
    \<and> (\<forall>name p. name \<noteq> user \<longrightarrow> auth_check ctx name p a' = auth_check ctx name p a)"
proof -
  let ?h = "sha256_make_hash ctx pass"
  have a': "a' = a\<lparr>users := (users a)[i := (users a ! i)\<lparr>password := ?h\<rparr>]\<rparr>"
    using assms(1,2) length_make_hash [of ctx pass] by (auto simp: auth_set_password_def copy_name_def Let_def split: bind_splits)
  note F = find_user_set_password [OF assms(2,3) a']
  have check: "auth_check ctx user p a' \<longleftrightarrow> sha256_make_hash ctx p = ?h" for p
    using F(1) [of user] F(2) assms(2) length_make_hash [of ctx pass] by (auto simp: auth_check_def Let_def sha256_verify_def)
  moreover have "auth_check ctx name p a' = auth_check ctx name p a" if "name \<noteq> user" for name p
  proof (cases "find_user name a")
    case (Some j)
    then have "j \<noteq> i" using F(5) that by blast
    then show ?thesis using F(1) [of name] F(3) Some by (simp add: auth_check_def)
  qed (use F(1) in \<open>simp add: auth_check_def\<close>)
  moreover have "auth_current_user (snd (auth_login ctx user pass a')) = user"
    using check F(1) [of user] F(4) assms(2) by (simp add: auth_login_def auth_switch_def auth_current_user_def)
  ultimately show ?thesis by (simp add: auth_login_def)
qed

lemma hex_plain: "c \<in> set (sha256_to_hex h) \<Longrightarrow> c \<noteq> 0 \<and> c \<noteq> colon \<and> c \<noteq> newline"
proof -
  have d: "hex_digit n \<noteq> 0 \<and> hex_digit n \<noteq> colon \<and> hex_digit n \<noteq> newline" if "unat n < 16" for n
  proof -
    have "hex_digit n \<in> set (map of_char ''0123456789abcdef'')" unfolding hex_digit_def by (rule nth_mem) (use that in simp)
    then show ?thesis by auto
  qed
  have "unat (b AND 0xF :: u8) < 16" for b
    using word_and_le1 [of b "0xF"] by (simp add: word_le_nat_alt)
  then show "c \<in> set (sha256_to_hex h) \<Longrightarrow> c \<noteq> 0 \<and> c \<noteq> colon \<and> c \<noteq> newline"
    using d by (auto simp: sha256_to_hex_def)
qed

lemma auth_add_user_entry:
  assumes "auth_add_user ctx buf user pass n dir a s = Some (0, a1, s1)" "length (users a) = MAX_USERS"
  shows "user_count a < MAX_USERS \<and> length user < MAX_USERNAME \<and> length dir < MAX_HOMEDIR
    \<and> take (user_count a1) (users a1) = take (user_count a) (users a) @ [\<lparr>username = user,
      password = sha256_make_hash ctx pass, uid = n, gid = n, home = dir, shell = str ''/bin/sh'', active = True\<rparr>]"
  using assms by (auto simp: auth_add_user_def copy_name_def Let_def take_Suc_conv_app_nth split: if_splits bind_splits)


section \<open>Witnesses\<close>

text \<open>One account, \<open>root\<close>, and a file system with nothing mounted, so that saving fails and returns.\<close>

definition auth_demo :: auth where
  "auth_demo = \<lparr>users = root_entry \<lparr>username = [], password = [], uid = 0, gid = 0, home = [], shell = [], active = False\<rparr>
       # replicate 63 \<lparr>username = [], password = [], uid = 0, gid = 0, home = [], shell = [], active = False\<rparr>,
     user_count = 1, current_user = Some 0\<rparr>"

lemma auth_demo_simps: "user_count auth_demo = 1" "length (users auth_demo) = 64" "find_user (str ''root'') auth_demo = Some 0"
  "take (Suc 0) (users auth_demo) = [root_entry \<lparr>username = [], password = [], uid = 0, gid = 0, home = [], shell = [], active = False\<rparr>]"
  by (simp_all add: auth_demo_def find_user_def root_entry_def)

lemma root_entry_ok: "entry_ok (root_entry u)"
  by (simp add: entry_ok_def root_entry_def str_def)


lemma unmounted: "find_mount p (vfs_init fs_demo) = None"
  unfolding find_mount_def by (subst fold_inactive) (simp_all add: vfs_init_def del: upt_rec_numeral)

lemma unmounted_lookup: "vfs_lookup p (vfs_init fs_demo) = Some (None, vfs_init fs_demo)"
  by (simp add: vfs_lookup_def unmounted)

lemma unmounted_create: "length p < 255 \<Longrightarrow> \<exists>r. vfs_create p ty (vfs_init fs_demo) = Some (r, vfs_init fs_demo)"
  by (auto simp: vfs_create_def split_path_def copy_name_def unmounted_lookup Let_def)

lemma unmounted_save: "auth_save buf a (vfs_init fs_demo) = Some (vfs_init fs_demo)"
proof -
  have "length passwd_file < 255" by (simp add: passwd_file_def str_def)
  then show ?thesis using unmounted_create [of passwd_file FT_REG]
    by (auto simp: auth_save_def vfs_open_def unmounted_lookup)
qed

lemma passwd_message: "\<exists>t. printk (str ''passwd: password updated for %s (SHA-256)'' @ [newline]) [Txt (Some u)] s = Some t"
  by (simp add: printk_def str_def directive_def Let_def)

theorem auth_password_set_witness:
  "\<exists>a' s'. auth_set_password sha_demo 0x8000 (str ''root'') (str ''secret'') auth_demo (vfs_init fs_demo) = Some (a', s')
    \<and> auth_check sha_demo (str ''root'') (str ''secret'') a'"
proof -
  obtain a' s' where r: "auth_set_password sha_demo 0x8000 (str ''root'') (str ''secret'') auth_demo (vfs_init fs_demo) = Some (a', s')"
    using passwd_message [of "str ''root''" "vfs_init fs_demo"]
    by (auto simp: auth_set_password_def auth_demo_simps(3) copy_name_def length_make_hash unmounted_save Let_def simp del: append_assoc)
  with auth_password_set [OF r auth_demo_simps(3)] show ?thesis by (auto simp: auth_demo_simps)
qed


end
