(* ===== verification/Spec2Isabelle.thy ===== *)
theory Spec2Isabelle
  imports KString PmmInit SlabHeap VmmInv Sha256 ProcessTable SyscallInv RunQueue Auth
begin

text \<open>
  A verification development for the Sinux kernel, an x86_64 kernel in C.

  \<^bold>\<open>The parts and how they interact.\<close>  At boot the physical memory manager (\<open>mm/pmm.c\<close>) reads the memory map
  and hands out 4096-byte frames.  The virtual memory manager (\<open>mm/vmm.c\<close>) builds page tables in such frames and
  offers \<open>kmalloc\<close>, which uses the slab allocator (\<open>mm/slab.c\<close>) on the same frames.  The virtual file system
  (\<open>kernel/fs/vfs.c\<close>) resolves paths across mounts and calls the RAM file system, the process file
  system, pipes and the terminal through tables of functions; it allocates its objects with \<open>kmalloc\<close>.  The process
  table (\<open>kernel/proc/process.c\<close>), the run queue (\<open>kernel/proc/scheduler.c\<close>) and the context switch
  (\<open>arch/x86_64/boot.asm\<close>) run processes; system calls (\<open>kernel/syscall/syscall.c\<close>) enter from user mode and
  use all of the above, \<open>execve\<close> and the first process through the program loader (\<open>kernel/proc/elf.c\<close>) and the entry to user mode
  (\<open>kernel/proc/usermode.c\<close>).  The locks (\<open>arch/x86_64/smp/lock.c\<close>) and the multiprocessor scheduler
  (\<open>kernel/scheduler/sched.c\<close>) are built on the process table for several CPUs.  The user accounts
  (\<open>kernel/core/auth.c\<close>) are kept in a file.

  \<^bold>\<open>State.\<close>  The state is one record that each layer extends, in the order of the calls: \<open>pmm\<close> (memory as a function from
  64-bit addresses to bytes, and the variables of \<open>pmm.c\<close>), \<open>slab_state\<close>, \<open>vmm_state\<close>, \<open>proc_state\<close>, \<open>fs_state\<close>,
  \<open>sys_state\<close>, and \<open>smp_state\<close> for the multiprocessor scheduler.  An operation of a lower layer is polymorphic in the extension, so
  it cannot depend on the layers above; the lemmas on \<open>pmm.more\<close> and its kin state that it leaves them alone.
  Bitmaps, slab pages, page tables, stacks and file contents are bytes of the memory, and so is everything that
  user mode can reach.  Objects that only typed code touches (process table entries, inodes, open files, pipes, cache
  descriptors) are records, named by their index or by the address that \<open>kmalloc\<close> returned.  A table of
  function pointers is the name of the table.  Machine integers are words; \<open>int\<close> values that
  the code never lets overflow are integers.  A result \<open>None\<close> means that the code does not come back: it spins, faults or halts.

  \<^bold>\<open>Theories.\<close>
  \<^item> \<open>Prelude\<close>, \<open>Memory\<close>: machine words, loads and stores, address ranges, searches.
  \<^item> \<open>KString\<close>: \<open>lib/string.c\<close>; what the copy and compare routines do on C strings, and where \<open>kstrncpy\<close> runs away.
  \<^item> \<open>Pmm\<close>, \<open>PmmInit\<close>: \<open>mm/pmm.c\<close>; the allocator refines a finite set of free frames, and boot makes exactly the usable frames free.
  \<^item> \<open>Slab\<close>, \<open>Frames\<close>, \<open>SlabInv\<close>, \<open>SlabHeap\<close>: \<open>mm/slab.c\<close>.  \<open>Frames\<close> has the locale \<open>frame_allocator\<close>, the contract that the slab
    allocator and the page tables rely on, with its interpretation on the physical memory manager.  \<open>SlabHeap\<close> shows that
    objects in use never overlap and that \<open>kmalloc_slab\<close> and \<open>kfree_slab\<close> add and remove one object.
  \<^item> \<open>Vmm\<close>, \<open>VmmInv\<close>: \<open>mm/vmm.c\<close>; mapping and unmapping act on the map from user pages to entries and on nothing else.
  \<^item> \<open>Sha256\<close>: \<open>lib/sha256.c\<close>; equivalence with FIPS 180-4 and RFC 2104.
  \<^item> \<open>Process\<close>, \<open>ProcessInv\<close>, \<open>ProcessTable\<close>: \<open>kernel/proc/process.c\<close>, \<open>scheduler.c\<close>, \<open>kernel/ipc/signal.c\<close>, \<open>arch_switch\<close>; the
    reachable process tables, fairness of \<open>sched_yield\<close>, and that a process that was switched out resumes.
  \<^item> \<open>Ring\<close>, \<open>Pipe\<close>, \<open>Keyboard\<close>: circular buffers with the locale \<open>byte_queue\<close>, interpreted on the pipe and on the keyboard
    buffer; first-in-first-out delivery and the line discipline.
  \<^item> \<open>HeapFrame\<close>, \<open>FsTypes\<close>, \<open>Ramfs\<close>, \<open>Procfs\<close>, \<open>Vfs\<close>: the file systems.  \<open>Ramfs\<close> has the locale \<open>directory\<close>; the tree invariant,
    the round trips of files and directory entries, and path resolution.
  \<^item> \<open>Elf\<close>, \<open>Usermode\<close>, \<open>Syscall\<close>, \<open>SyscallInv\<close>: program loading, the way into user mode, the system calls, and what \<open>fork\<close> promises.
  \<^item> \<open>Printk\<close>, \<open>Auth\<close>: \<open>lib/printk.c\<close> and \<open>kernel/core/auth.c\<close>; the password file round trip, what a change of password does, and how an
    account can be forged.
  \<^item> \<open>Locks\<close>: \<open>arch/x86_64/smp/lock.c\<close>; the locale \<open>lock_protocol\<close>, interpreted on spin locks, mutexes and the writer side of
    read-write locks, gives mutual exclusion under every interleaving of the memory accesses.
  \<^item> \<open>RunQueue\<close>: \<open>kernel/scheduler/sched.c\<close>; the locale \<open>task_queue\<close>; the linked lists refine one list per priority.

  \<^bold>\<open>Loops and bounds.\<close>  Loops over arrays are recursions or folds over the index range of the source.  Loops that
  the data may keep from ending (searches for a NUL, the waits of pipes and of the keyboard, walks along
  pointers, the loop over the pages of an address range, whose counter can wrap) are \<open>partial_function\<close>s: no fuel is
  chosen, and where the code returns this is proved.  One round of the loop of \<open>sys_wait4\<close> is a function, since the process gives up the CPU between rounds.
  Pointers that user mode passes to a system call are used as addresses of the memory, as the code uses them;
  \<open>translate\<close> in \<open>Usermode\<close> is the processor's page walk, for the stores to the user stack.
  Interrupts arrive between operations: the timer and the keyboard handlers are steps of their own.
  In \<open>Locks\<close> the CPUs see the accesses to a lock in one order.

  \<^bold>\<open>Not modelled.\<close>  Device drivers whose effect is port or memory-mapped I/O (\<open>drivers/ata.c\<close>, \<open>bga.c\<close>, \<open>pci.c\<close>,
  \<open>serial.c\<close>, \<open>fb.c\<close>, \<open>pic.c\<close>, the programming of the timer, the APICs and the start of other CPUs in \<open>smp/cpu.c\<close>);
  the tables that the processor reads at boot (\<open>gdt.c\<close>, \<open>idt.c\<close>, most of \<open>boot.asm\<close>); the disk formats
  \<open>ext2.c\<close> and \<open>persist.c\<close>, which read and write through the disk driver; the messages that most functions log; error texts (\<open>lib/errno.c\<close>); the shell and the boot
  sequence in \<open>main.c\<close>, \<open>multiboot.c\<close> and \<open>panic.c\<close>; TLB shootdown in \<open>lock.c\<close>; the tests; and the programs and the C library in \<open>userspace\<close>, which run outside the kernel.
\<close>

end
